theory Spec2Isabelle
  imports Main "HOL-Library.Word" "HOL-Library.Monad_Syntax"
begin

unbundle bit_operations_syntax

section \<open>Memory\<close>

text \<open>
  The allocator of \<^verbatim>\<open>mm_allocator.c\<close> works on raw bytes.  Memory is a total function
  from byte addresses to bytes.  Addresses are natural numbers; every address the
  allocator computes on a well-formed heap lies between the heap start and \<open>2 ^ 64\<close>, so
  pointer arithmetic never wraps there.  Sizes read from a header are 32-bit
  (\<^verbatim>\<open>unsigned int\<close>); \<^verbatim>\<open>size_t\<close> values that can wrap are reduced modulo \<open>2 ^ 64\<close>
  where the source computes them.  Words are little-endian (x86-64).
\<close>

type_synonym memory = "nat \<Rightarrow> 8 word"

text \<open>\<^verbatim>\<open>#define GET(p) (*(unsigned int *)(p))\<close>\<close>

definition GET :: "memory \<Rightarrow> nat \<Rightarrow> 32 word" where
  "GET m p = word_of_nat (unat (m p) + 256 * unat (m (p + 1)) + 65536 * unat (m (p + 2))
                + 16777216 * unat (m (p + 3)))"

text \<open>\<^verbatim>\<open>#define PUT(p, val) (*(unsigned int *)(p) = (val))\<close>: the value, a \<^verbatim>\<open>size_t\<close>
  expression at every call site, is truncated to 32 bits by the assignment.\<close>

definition PUT :: "memory \<Rightarrow> nat \<Rightarrow> nat \<Rightarrow> memory" where
  "PUT m p val = m(p := word_of_nat (val mod 256),
                   p + 1 := word_of_nat (val div 256 mod 256),
                   p + 2 := word_of_nat (val div 65536 mod 256),
                   p + 3 := word_of_nat (val div 16777216 mod 256))"

text \<open>A free block's link word is a \<^verbatim>\<open>size_t\<close> (8 bytes) at the payload address:
  \<^verbatim>\<open>*(size_t * )bp\<close>.  Its low half is the 32-bit word at \<open>p\<close>, its high half the one at
  \<open>p + 4\<close>.\<close>

definition GETL :: "memory \<Rightarrow> nat \<Rightarrow> nat" where
  "GETL m p = unat (GET m p) + 4294967296 * unat (GET m (p + 4))"

definition PUTL :: "memory \<Rightarrow> nat \<Rightarrow> nat \<Rightarrow> memory" where
  "PUTL m p v = PUT (PUT m p (v mod 4294967296)) (p + 4) (v div 4294967296 mod 4294967296)"

definition memcpy :: "memory \<Rightarrow> nat \<Rightarrow> nat \<Rightarrow> nat \<Rightarrow> memory" where
  "memcpy m dst src n = (\<lambda>a. if dst \<le> a \<and> a < dst + n then m (src + (a - dst)) else m a)"

definition memset :: "memory \<Rightarrow> nat \<Rightarrow> 8 word \<Rightarrow> nat \<Rightarrow> memory" where
  "memset m p c n = (\<lambda>a. if p \<le> a \<and> a < p + n then c else m a)"

section \<open>Block macros\<close>

text \<open>\<^verbatim>\<open>#define PACK(size, prex, alloc) ((size) | (prex) | (alloc))\<close>\<close>

definition PACK :: "nat \<Rightarrow> nat \<Rightarrow> nat \<Rightarrow> nat" where
  "PACK sz prex alloc = sz OR prex OR alloc"

text \<open>\<^verbatim>\<open>GET_SIZE(p) = GET(p) & ~0x7\<close>, \<^verbatim>\<open>GET_ALLOC(p) = GET(p) & 0x1\<close>,
  \<^verbatim>\<open>PREVX(bp) = GET(bp) & 0x4\<close>, all on \<^verbatim>\<open>unsigned int\<close>.\<close>

definition GET_SIZE :: "memory \<Rightarrow> nat \<Rightarrow> nat" where
  "GET_SIZE m p = unat (GET m p AND NOT 7)"

definition GET_ALLOC :: "memory \<Rightarrow> nat \<Rightarrow> nat" where
  "GET_ALLOC m p = unat (GET m p AND 1)"

definition PREVX :: "memory \<Rightarrow> nat \<Rightarrow> nat" where
  "PREVX m p = unat (GET m p AND 4)"

definition HDRP :: "nat \<Rightarrow> nat" where
  "HDRP bp = bp - 4"

definition FTRP :: "memory \<Rightarrow> nat \<Rightarrow> nat" where
  "FTRP m bp = bp + GET_SIZE m (HDRP bp) - 8"

definition NEXT_BLKP :: "memory \<Rightarrow> nat \<Rightarrow> nat" where
  "NEXT_BLKP m bp = bp + GET_SIZE m (bp - 4)"

definition PREV_BLKP :: "memory \<Rightarrow> nat \<Rightarrow> nat" where
  "PREV_BLKP m bp = bp - GET_SIZE m (bp - 8)"

text \<open>\<^verbatim>\<open>csize - asize\<close> on \<^verbatim>\<open>size_t\<close>: subtraction modulo \<open>2 ^ 64\<close>.\<close>

definition sub64 :: "nat \<Rightarrow> nat \<Rightarrow> nat" where
  "sub64 a b = (a + 18446744073709551616 - b mod 18446744073709551616) mod 18446744073709551616"

section \<open>Allocator state and the page provider\<close>

text \<open>
  The globals of the source: \<^verbatim>\<open>heap_listp\<close> and the fifteen list heads
  \<^verbatim>\<open>l01\<close> .. \<^verbatim>\<open>l15\<close>, kept as \<open>heads s 1\<close> .. \<open>heads s 15\<close> (the source unrolls the same code
  once per list; \<^verbatim>\<open>list_start\<close> is never read).  The last three fields are the state of
  the page provider.
\<close>

record state =
  mem :: memory
  heap_listp :: nat
  heads :: "nat \<Rightarrow> nat"
  mem_start_brk :: nat
  mem_brk :: nat
  mem_max_addr :: nat

text \<open>The failure value \<^verbatim>\<open>(void * )-1\<close>.\<close>

definition FAIL :: nat where
  "FAIL = 18446744073709551615"

text \<open>
  Modelled from the spec: the page provider \<^verbatim>\<open>mem_sbrk\<close>, \<^verbatim>\<open>mem_heap_lo\<close>,
  \<^verbatim>\<open>mem_heap_hi\<close> of \<^verbatim>\<open>memlib.c\<close>, which is not among the sources.  \<open>extend(n)\<close> grows the
  heap by \<open>n\<close> bytes and returns the start of the newly added range, adjacent to the
  previous end, or the failure value; the heap never shrinks.
\<close>

definition mem_sbrk :: "nat \<Rightarrow> state \<Rightarrow> nat \<times> state" where
  "mem_sbrk incr s =
     (if mem_max_addr s < mem_brk s + incr then (FAIL, s)
      else (mem_brk s, s\<lparr>mem_brk := mem_brk s + incr\<rparr>))"

definition mem_heap_lo :: "state \<Rightarrow> nat" where
  "mem_heap_lo s = mem_start_brk s"

definition mem_heap_hi :: "state \<Rightarrow> nat" where
  "mem_heap_hi s = mem_brk s - 1"

section \<open>Free lists\<close>

text \<open>
  The cascade of tests that \<^verbatim>\<open>insertx\<close>, \<^verbatim>\<open>deletex\<close> and \<^verbatim>\<open>find_fit\<close> each unroll:
  the test guarding list \<open>k\<close> (\<^verbatim>\<open>num01\<close> = 12, ..., \<^verbatim>\<open>num14\<close> = 8192; lists 4 and 5 test
  equality; list 15 is unguarded).
\<close>

definition guard :: "nat \<Rightarrow> nat \<Rightarrow> bool" where
  "guard k asize =
     (if k = 1 then asize \<le> 12 else if k = 2 then asize \<le> 16 else if k = 3 then asize \<le> 20
      else if k = 4 then asize = 64 else if k = 5 then asize = 112
      else if k = 6 then asize \<le> 120 else if k = 7 then asize \<le> 256
      else if k = 8 then asize \<le> 448 else if k = 9 then asize \<le> 512
      else if k = 10 then asize \<le> 1024 else if k = 11 then asize \<le> 2048
      else if k = 12 then asize \<le> 3072 else if k = 13 then asize \<le> 4096
      else if k = 14 then asize \<le> 8192 else True)"

definition classes :: "nat list" where
  "classes = [1, 2, 3, 4, 5, 6, 7, 8, 9, 10, 11, 12, 13, 14, 15]"

text \<open>\<^verbatim>\<open>insertx\<close>: the first test that holds selects the list; the block becomes its head.\<close>

definition class_of :: "nat \<Rightarrow> nat" where
  "class_of asize =
     (if asize \<le> 12 then 1 else if asize \<le> 16 then 2 else if asize \<le> 20 then 3
      else if asize = 64 then 4 else if asize = 112 then 5
      else if asize \<le> 120 then 6 else if asize \<le> 256 then 7
      else if asize \<le> 448 then 8 else if asize \<le> 512 then 9
      else if asize \<le> 1024 then 10 else if asize \<le> 2048 then 11
      else if asize \<le> 3072 then 12 else if asize \<le> 4096 then 13
      else if asize \<le> 8192 then 14 else 15)"

definition insertx :: "nat \<Rightarrow> nat \<Rightarrow> state \<Rightarrow> state" where
  "insertx bp asize s =
     (let k = class_of asize
      in s\<lparr>mem := PUTL (mem s) bp (heads s k), heads := (heads s)(k := bp)\<rparr>)"

text \<open>
  \<^verbatim>\<open>deletex\<close>: in each list whose test holds, the head is compared with \<open>bp\<close>, then the
  list is walked for the node whose link is \<open>bp\<close>.  A walk that ends without a match falls
  through to the next test.  The walk yields \<open>Some (Some m')\<close> when it spliced the block
  out, \<open>Some None\<close> when it reached the end of the list, and \<open>None\<close> when it never ends.
\<close>

partial_function (option) delete_walk ::
  "memory \<Rightarrow> nat \<Rightarrow> nat \<Rightarrow> nat \<Rightarrow> memory option option" where
  "delete_walk m nowx bp nextk =
     (if nowx = 0 then Some None
      else if GETL m nowx = bp then Some (Some (PUTL m nowx nextk))
      else delete_walk m (GETL m nowx) bp nextk)"

fun deletex_from :: "nat list \<Rightarrow> nat \<Rightarrow> nat \<Rightarrow> nat \<Rightarrow> state \<Rightarrow> state option" where
  "deletex_from [] bp asize nextk s = Some s"
| "deletex_from (k # ks) bp asize nextk s =
     (if guard k asize then
        (if heads s k = bp then
           (if nextk \<noteq> 0 then Some (s\<lparr>heads := (heads s)(k := nextk)\<rparr>)
            else Some (s\<lparr>heads := (heads s)(k := 0)\<rparr>))
         else (case delete_walk (mem s) (heads s k) bp nextk of
                 None \<Rightarrow> None
               | Some (Some m') \<Rightarrow> Some (s\<lparr>mem := m'\<rparr>)
               | Some None \<Rightarrow> deletex_from ks bp asize nextk s))
      else deletex_from ks bp asize nextk s)"

definition deletex :: "nat \<Rightarrow> nat \<Rightarrow> state \<Rightarrow> state option" where
  "deletex bp asize s = deletex_from classes bp asize (GETL (mem s) bp) s"

text \<open>
  \<^verbatim>\<open>find_fit\<close>: first fit in each list whose test holds, in ascending order.  The walk
  yields the block found, or 0 (\<^verbatim>\<open>NULL\<close>) at the end of the list.
\<close>

partial_function (option) fit_walk :: "memory \<Rightarrow> nat \<Rightarrow> nat \<Rightarrow> nat option" where
  "fit_walk m now asize =
     (if now = 0 then Some 0
      else if asize \<le> GET_SIZE m (HDRP now) then Some now
      else if GETL m now \<noteq> 0 then fit_walk m (GETL m now) asize
      else Some 0)"

fun find_fit_from :: "nat list \<Rightarrow> nat \<Rightarrow> state \<Rightarrow> nat option" where
  "find_fit_from [] asize s = Some 0"
| "find_fit_from (k # ks) asize s =
     (if guard k asize then
        (case fit_walk (mem s) (heads s k) asize of
           None \<Rightarrow> None
         | Some r \<Rightarrow> if r \<noteq> 0 then Some r else find_fit_from ks asize s)
      else find_fit_from ks asize s)"

definition find_fit :: "nat \<Rightarrow> state \<Rightarrow> nat option" where
  "find_fit asize s = find_fit_from classes asize s"

section \<open>Coalescing, placement, extension\<close>

text \<open>
  \<^verbatim>\<open>coalesce\<close>.  Every macro is evaluated on the memory current at its place in the
  source.  The sizes added are read from 32-bit headers, so the \<^verbatim>\<open>size_t\<close> sums do
  not wrap.
\<close>

definition coalesce :: "nat \<Rightarrow> state \<Rightarrow> (nat \<times> state) option" where
  "coalesce bp s =
     (let m = mem s;
          prev_alloc = PREVX m (HDRP bp);
          next_alloc = GET_ALLOC m (HDRP (NEXT_BLKP m bp));
          sz = GET_SIZE m (HDRP bp)
      in if prev_alloc = 4 \<and> next_alloc \<noteq> 0 then Some (bp, insertx bp sz s)
         else if prev_alloc = 4 \<and> next_alloc = 0 then
           (let k = GET_SIZE m (HDRP (NEXT_BLKP m bp)) in
            do {
              s1 \<leftarrow> deletex (NEXT_BLKP m bp) k s;
              let sz = sz + k;
              let m1 = PUT (mem s1) (HDRP bp) (PACK sz 4 0);
              let m2 = PUT m1 (FTRP m1 bp) (PACK sz 4 0);
              Some (bp, insertx bp sz (s1\<lparr>mem := m2\<rparr>))
            })
         else if prev_alloc \<noteq> 4 \<and> next_alloc \<noteq> 0 then
           (let k = GET_SIZE m (HDRP (PREV_BLKP m bp)) in
            do {
              s1 \<leftarrow> deletex (PREV_BLKP m bp) k s;
              let sz = sz + k;
              let m1 = PUT (mem s1) (FTRP (mem s1) bp) (PACK sz 4 0);
              let m2 = PUT m1 (HDRP (PREV_BLKP m1 bp)) (PACK sz 4 0);
              let bp' = PREV_BLKP m2 bp;
              Some (bp', insertx bp' sz (s1\<lparr>mem := m2\<rparr>))
            })
         else
           (let t1 = GET_SIZE m (HDRP (PREV_BLKP m bp));
                t2 = GET_SIZE m (FTRP m (NEXT_BLKP m bp)) in
            do {
              s1 \<leftarrow> deletex (PREV_BLKP m bp) t1 s;
              s2 \<leftarrow> deletex (NEXT_BLKP (mem s1) bp) t2 s1;
              let sz = sz + (t1 + t2);
              let m1 = PUT (mem s2) (HDRP (PREV_BLKP (mem s2) bp)) (PACK sz 4 0);
              let m2 = PUT m1 (FTRP m1 (NEXT_BLKP m1 bp)) (PACK sz 4 0);
              let bp' = PREV_BLKP m2 bp;
              Some (bp', insertx bp' sz (s2\<lparr>mem := m2\<rparr>))
            }))"

text \<open>
  \<^verbatim>\<open>place\<close>.  The removal is called with the request \<open>asize\<close>; the split test is on the
  \<^verbatim>\<open>size_t\<close> difference.
\<close>

definition place :: "nat \<Rightarrow> nat \<Rightarrow> state \<Rightarrow> (nat \<times> state) option" where
  "place bp asize s =
     (let csize = GET_SIZE (mem s) (HDRP bp);
          checkprev = PREVX (mem s) (HDRP bp) in
      do {
        s1 \<leftarrow> deletex bp asize s;
        if 16 \<le> sub64 csize asize then
          if asize < 120 then
            (let m1 = PUT (mem s1) (HDRP bp) (PACK asize checkprev 1);
                 xxx = NEXT_BLKP m1 bp;
                 m2 = PUT m1 (HDRP xxx) (PACK (sub64 csize asize) 4 0);
                 m3 = PUT m2 (FTRP m2 xxx) (PACK (sub64 csize asize) 4 0)
             in Some (bp, insertx xxx (sub64 csize asize) (s1\<lparr>mem := m3\<rparr>)))
          else
            (let m1 = PUT (mem s1) (HDRP bp) (PACK (sub64 csize asize) checkprev 0);
                 m2 = PUT m1 (FTRP m1 bp) (PACK (sub64 csize asize) checkprev 0);
                 s2 = insertx bp (sub64 csize asize) (s1\<lparr>mem := m2\<rparr>);
                 bp' = NEXT_BLKP (mem s2) bp;
                 m3 = PUT (mem s2) (HDRP bp') (PACK asize 0 1);
                 m4 = PUT m3 (HDRP (NEXT_BLKP m3 bp'))
                        (PACK (GET_SIZE m3 (HDRP (NEXT_BLKP m3 bp'))) 4
                              (GET_ALLOC m3 (HDRP (NEXT_BLKP m3 bp'))));
                 m5 = (if GET_ALLOC m4 (HDRP (NEXT_BLKP m4 bp')) = 0
                       then PUT m4 (FTRP m4 (NEXT_BLKP m4 bp'))
                              (PACK (GET_SIZE m4 (HDRP (NEXT_BLKP m4 bp'))) 4
                                    (GET_ALLOC m4 (HDRP (NEXT_BLKP m4 bp'))))
                       else m4)
             in Some (bp', s2\<lparr>mem := m5\<rparr>))
        else
          (let m1 = PUT (mem s1) (HDRP bp) (PACK csize checkprev 1);
               m2 = PUT m1 (FTRP m1 bp) (PACK csize checkprev 1);
               m3 = PUT m2 (HDRP (NEXT_BLKP m2 bp))
                      (PACK (GET_SIZE m2 (HDRP (NEXT_BLKP m2 bp))) 4
                            (GET_ALLOC m2 (HDRP (NEXT_BLKP m2 bp))));
               m4 = (if GET_ALLOC m3 (HDRP (NEXT_BLKP m3 bp)) = 0
                     then PUT m3 (FTRP m3 (NEXT_BLKP m3 bp))
                            (PACK (GET_SIZE m3 (HDRP (NEXT_BLKP m3 bp))) 4
                                  (GET_ALLOC m3 (HDRP (NEXT_BLKP m3 bp))))
                     else m3)
           in Some (bp, s1\<lparr>mem := m4\<rparr>))
      })"

text \<open>\<^verbatim>\<open>extend_heap\<close>; \<open>words\<close> is a \<^verbatim>\<open>size_t\<close>.  The result 0 is \<^verbatim>\<open>NULL\<close>.\<close>

definition extend_heap :: "nat \<Rightarrow> state \<Rightarrow> (nat \<times> state) option" where
  "extend_heap words s =
     (let sz = (if words mod 2 \<noteq> 0 then ((words + 1) * 4) mod 18446744073709551616
                  else (words * 4) mod 18446744073709551616);
          (bp, s1) = mem_sbrk sz s
      in if bp = FAIL then Some (0, s1)
         else
           (let checkprev = PREVX (mem s1) (HDRP bp);
                m1 = PUT (mem s1) (HDRP bp) (PACK sz checkprev 0);
                m2 = PUT m1 (FTRP m1 bp) (PACK sz checkprev 0);
                m3 = PUT m2 (HDRP (NEXT_BLKP m2 bp)) (PACK 0 0 1)
            in coalesce bp (s1\<lparr>mem := m3\<rparr>)))"

section \<open>Entry points\<close>

text \<open>\<^verbatim>\<open>mm_init\<close> returns 0 on success and -1 on error.\<close>

definition mm_init :: "state \<Rightarrow> (int \<times> state) option" where
  "mm_init s =
     (let s0 = s\<lparr>heads := (\<lambda>k. 0)\<rparr>;
          (p, s1) = mem_sbrk 16 s0;
          s2 = s1\<lparr>heap_listp := p\<rparr>
      in if p = FAIL then Some (- 1, s2)
         else
           (let m1 = PUT (mem s2) p 0;
                m2 = PUT m1 (p + 4) (PACK 8 4 1);
                m3 = PUT m2 (p + 8) (PACK 8 4 1);
                m4 = PUT m3 (p + 12) (PACK 0 4 1);
                s3 = s2\<lparr>mem := m4, heap_listp := p + 8\<rparr>
            in do {
                 (bp, s4) \<leftarrow> extend_heap 1024 s3;
                 if bp = 0 then Some (- 1, s4) else Some (0, s4)
               }))"

text \<open>The adjusted block size of \<^verbatim>\<open>malloc\<close>, computed on \<^verbatim>\<open>size_t\<close>.\<close>

definition adjust :: "64 word \<Rightarrow> nat" where
  "adjust sz = (if sz \<le> 8 then 16 else unat (8 * ((4 + sz + 7) div 8)))"

definition malloc :: "64 word \<Rightarrow> state \<Rightarrow> (nat \<times> state) option" where
  "malloc sz s =
     do {
       s1 \<leftarrow> (if heap_listp s = 0 then map_option snd (mm_init s) else Some s);
       if sz = 0 then Some (0, s1)
       else
         (let asize = adjust sz in
          do {
            bp \<leftarrow> find_fit asize s1;
            if bp \<noteq> 0 then place bp asize s1
            else
              (let extendsize = max asize 4096 in
               do {
                 (bp, s2) \<leftarrow> extend_heap (extendsize div 4) s1;
                 if bp = 0 then Some (0, s2) else place bp asize s2
               })
          })
     }"

definition free :: "nat \<Rightarrow> state \<Rightarrow> state option" where
  "free ptr s =
     (if ptr = 0 then Some s
      else
        do {
          s1 \<leftarrow> (if heap_listp s = 0 then map_option snd (mm_init s) else Some s);
          let m = mem s1;
          let sz = GET_SIZE m (HDRP ptr);
          let checkprev = PREVX m (HDRP ptr);
          let m1 = PUT m (HDRP ptr) (PACK sz checkprev 0);
          let m2 = PUT m1 (FTRP m1 ptr) (PACK sz checkprev 0);
          if GET_ALLOC m2 (HDRP (NEXT_BLKP m2 ptr)) \<noteq> 0 then
            (let m3 = PUT m2 (HDRP (NEXT_BLKP m2 ptr))
                        (PACK (GET_SIZE m2 (HDRP (NEXT_BLKP m2 ptr))) 0 1)
             in map_option snd (coalesce ptr (s1\<lparr>mem := m3\<rparr>)))
          else
            (let m3 = PUT m2 (HDRP (NEXT_BLKP m2 ptr))
                        (PACK (GET_SIZE m2 (HDRP (NEXT_BLKP m2 ptr))) 0 0);
                 m4 = PUT m3 (FTRP m3 (NEXT_BLKP m3 ptr))
                        (PACK (GET_SIZE m3 (HDRP (NEXT_BLKP m3 ptr))) 0 0)
             in map_option snd (coalesce ptr (s1\<lparr>mem := m4\<rparr>)))
        })"

definition realloc :: "nat \<Rightarrow> 64 word \<Rightarrow> state \<Rightarrow> (nat \<times> state) option" where
  "realloc oldptr sz s =
     (if sz = 0 then map_option (Pair 0) (free oldptr s)
      else if oldptr = 0 then malloc sz s
      else
        do {
          (newptr, s1) \<leftarrow> malloc sz s;
          if newptr = 0 then Some (0, s1)
          else
            (let oldsize = GET_SIZE (mem s1) (HDRP oldptr);
                 oldsize = (if unat sz < oldsize then unat sz else oldsize);
                 s2 = s1\<lparr>mem := memcpy (mem s1) newptr oldptr oldsize\<rparr>
             in map_option (Pair newptr) (free oldptr s2))
        })"

text \<open>\<^verbatim>\<open>calloc\<close>: the product is a \<^verbatim>\<open>size_t\<close> product; \<^verbatim>\<open>memset\<close> runs on whatever
  \<^verbatim>\<open>malloc\<close> returned.\<close>

definition calloc :: "64 word \<Rightarrow> 64 word \<Rightarrow> state \<Rightarrow> (nat \<times> state) option" where
  "calloc nmemb sz s =
     (let bytes = nmemb * sz in
      do {
        (newptr, s1) \<leftarrow> malloc bytes s;
        Some (newptr, s1\<lparr>mem := memset (mem s1) newptr 0 (unat bytes)\<rparr>)
      })"

section \<open>The checker\<close>

text \<open>
  \<^verbatim>\<open>mm_checkheap\<close> prints and, on a violation, calls \<^verbatim>\<open>exit(0)\<close> after printing a
  message.  The model keeps the control flow: the result is \<open>Completed\<close> when the function
  returns, \<open>Aborted msg\<close> when it exits, and \<open>None\<close> when a loop never ends.  The printed
  text other than the message before an exit is not modelled.
\<close>

datatype check_result = Completed | Aborted string

definition in_heap :: "state \<Rightarrow> nat \<Rightarrow> bool" where
  "in_heap s p = (p \<le> mem_heap_hi s \<and> mem_heap_lo s \<le> p)"

text \<open>\<^verbatim>\<open>ALIGN(p) = ((size_t)(p) + 7) & ~0x7\<close>\<close>

definition aligned :: "nat \<Rightarrow> bool" where
  "aligned p = (((word_of_nat p + 7 :: 64 word) AND NOT 7) = word_of_nat p)"

text \<open>The walk over the blocks: \<open>mark\<close> and \<open>cnt\<close> are the locals of the source; both
  are touched only under \<^verbatim>\<open>if (lineno)\<close>.\<close>

partial_function (option) check_blocks ::
  "memory \<Rightarrow> int \<Rightarrow> nat \<Rightarrow> nat \<Rightarrow> int \<Rightarrow> int \<Rightarrow> (string + int) option" where
  "check_blocks m lineno boundaries bp mark cnt =
     (if bp = boundaries then Some (Inr cnt)
      else if \<not> aligned bp then Some (Inl ''Aligned Error!'')
      else if GET_SIZE m (HDRP bp) = 0 then Some (Inr cnt)
      else if lineno \<noteq> 0 then
        (if GET_ALLOC m (HDRP bp) \<noteq> 0
         then check_blocks m lineno boundaries (NEXT_BLKP m bp) 1 cnt
         else if mark = 0 then Some (Inl ''Consecutive Free Blocks Error!'')
         else if GET m (HDRP bp) \<noteq> GET m (FTRP m bp)
           then Some (Inl ''Header And Footer Match Error!'')
         else check_blocks m lineno boundaries (NEXT_BLKP m bp) 0 (cnt + 1))
      else check_blocks m lineno boundaries (NEXT_BLKP m bp) mark cnt)"

text \<open>The walk over one list; a size outside the bound of the list is printed only.\<close>

partial_function (option) check_list :: "state \<Rightarrow> nat \<Rightarrow> int \<Rightarrow> (string + int) option" where
  "check_list s startx cnt1 =
     (if startx = 0 then Some (Inr cnt1)
      else if \<not> in_heap s startx then Some (Inl ''Block Out Of Range Error!'')
      else check_list s (GETL (mem s) startx) (cnt1 + 1))"

fun check_lists :: "nat list \<Rightarrow> state \<Rightarrow> int \<Rightarrow> (string + int) option" where
  "check_lists [] s cnt1 = Some (Inr cnt1)"
| "check_lists (k # ks) s cnt1 =
     (case check_list s (heads s k) cnt1 of
        None \<Rightarrow> None
      | Some (Inl e) \<Rightarrow> Some (Inl e)
      | Some (Inr c) \<Rightarrow> check_lists ks s c)"

definition mm_checkheap :: "int \<Rightarrow> state \<Rightarrow> check_result option" where
  "mm_checkheap lineno s =
     (let m = mem s; bp = heap_listp s in
      if GET m (HDRP (heap_listp s)) = 0
        then Some (Aborted ''Epilogue And Prologue Blocks Error!'')
      else if GET_SIZE m (HDRP (heap_listp s)) \<noteq> 8
        then Some (Aborted ''Epilogue And Prologue Size Error!'')
      else if GET_ALLOC m (HDRP (heap_listp s)) = 0
        then Some (Aborted ''Epilogue And Prologue Header Allocated Error!'')
      else
        (case check_blocks m lineno (mem_heap_hi s) bp 1 0 of
           None \<Rightarrow> None
         | Some (Inl e) \<Rightarrow> Some (Aborted e)
         | Some (Inr cnt) \<Rightarrow>
             (case check_lists classes s 0 of
                None \<Rightarrow> None
              | Some (Inl e) \<Rightarrow> Some (Aborted e)
              | Some (Inr cnt1) \<Rightarrow>
                  if cnt \<noteq> cnt1 then Some (Aborted ''Free Blocks Numbers Match Error!'')
                  else Some Completed)))"

section \<open>A fresh provider\<close>

text \<open>The state before \<^verbatim>\<open>mm_init\<close>: all globals zero, an empty heap starting at \<open>lo\<close>
  that the provider lets grow up to \<open>hi\<close>, and memory contents \<open>m\<close>.\<close>

definition fresh :: "memory \<Rightarrow> nat \<Rightarrow> nat \<Rightarrow> state" where
  "fresh m lo hi = \<lparr>mem = m, heap_listp = 0, heads = (\<lambda>k. 0),
                    mem_start_brk = lo, mem_brk = lo, mem_max_addr = hi\<rparr>"

section \<open>The heap walk and the invariants of the specification\<close>

text \<open>
  The blocks of the heap, as payload addresses: the walk of \<^verbatim>\<open>mm_checkheap\<close> from the
  prologue (\<^verbatim>\<open>heap_listp\<close>) along \<^verbatim>\<open>NEXT_BLKP\<close> to the first header of size 0, the
  epilogue.  The walk also stops at the end of the heap, which makes it total.
\<close>

function heap_blocks :: "memory \<Rightarrow> nat \<Rightarrow> nat \<Rightarrow> nat list" where
  "heap_blocks m hi bp =
     (if GET_SIZE m (HDRP bp) = 0 \<or> hi \<le> bp then [bp]
      else bp # heap_blocks m hi (NEXT_BLKP m bp))"
  by pat_completeness auto
termination
  by (relation "measure (\<lambda>(m, hi, bp). hi - bp)") (auto simp: NEXT_BLKP_def HDRP_def)

declare heap_blocks.simps [simp del]

definition blocks :: "state \<Rightarrow> nat list" where
  "blocks s = heap_blocks (mem s) (mem_brk s) (heap_listp s)"

text \<open>I4: the prev-allocated bit of a block equals the allocated bit of the block before it.\<close>

fun prev_bits_ok :: "memory \<Rightarrow> nat list \<Rightarrow> bool" where
  "prev_bits_ok m (b # c # bs) =
     (PREVX m (HDRP c) = (if GET_ALLOC m (HDRP b) = 0 then 0 else 4) \<and> prev_bits_ok m (c # bs))"
| "prev_bits_ok m bs = True"

definition I4 :: "state \<Rightarrow> bool" where
  "I4 s = prev_bits_ok (mem s) (blocks s)"

text \<open>I3: header and footer of a free block are the same word.\<close>

definition I3 :: "state \<Rightarrow> bool" where
  "I3 s = list_all (\<lambda>b. GET_ALLOC (mem s) (HDRP b) = 0 \<longrightarrow>
                          GET (mem s) (HDRP b) = GET (mem s) (FTRP (mem s) b)) (blocks s)"

text \<open>I5: no two blocks that follow each other are both free.\<close>

fun no_adjacent_free :: "memory \<Rightarrow> nat list \<Rightarrow> bool" where
  "no_adjacent_free m (b # c # bs) =
     (\<not> (GET_ALLOC m (HDRP b) = 0 \<and> GET_ALLOC m (HDRP c) = 0) \<and> no_adjacent_free m (c # bs))"
| "no_adjacent_free m bs = True"

definition I5 :: "state \<Rightarrow> bool" where
  "I5 s = no_adjacent_free (mem s) (blocks s)"

text \<open>The pointers a caller may release: the allocated blocks between prologue and
  epilogue.\<close>

definition live :: "state \<Rightarrow> nat list" where
  "live s = filter (\<lambda>b. GET_ALLOC (mem s) (HDRP b) \<noteq> 0) (butlast (tl (blocks s)))"

text \<open>The members of a free list, in list order; \<open>None\<close> when the list never ends.\<close>

partial_function (option) list_of :: "memory \<Rightarrow> nat \<Rightarrow> nat list option" where
  "list_of m h = (if h = 0 then Some [] else Option.bind (list_of m (GETL m h)) (\<lambda>xs. Some (h # xs)))"

definition free_list :: "state \<Rightarrow> nat \<Rightarrow> nat list option" where
  "free_list s k = list_of (mem s) (heads s k)"

section \<open>Reachable states\<close>

text \<open>
  What is assumed of the provider: the heap starts on a double-word boundary, its
  addresses fit a pointer, and it never holds \<open>2 ^ 32\<close> bytes or more (a header keeps a size
  in 32 bits).
\<close>

definition provider_ok :: "nat \<Rightarrow> nat \<Rightarrow> bool" where
  "provider_ok lo hi = (8 dvd lo \<and> hi < 18446744073709551616 \<and> hi < lo + 4294967296)"

text \<open>The largest request for which the size adjustment of \<^verbatim>\<open>malloc\<close> does not wrap.\<close>

definition max_request :: "64 word" where
  "max_request = 18446744073709551604"

text \<open>
  The states reached from a successful \<^verbatim>\<open>mm_init\<close> by calls of \<^verbatim>\<open>malloc\<close>,
  \<^verbatim>\<open>free\<close>, \<^verbatim>\<open>realloc\<close> and \<^verbatim>\<open>extend_heap\<close>.  A pointer passed to \<^verbatim>\<open>free\<close> or
  \<^verbatim>\<open>realloc\<close> is \<^verbatim>\<open>NULL\<close> or live; a request is at most \<open>max_request\<close>; an extension
  is by at least a minimum block and its byte count fits a \<^verbatim>\<open>size_t\<close>.
\<close>

inductive reach :: "state \<Rightarrow> bool" where
  reach_init: "provider_ok lo hi \<Longrightarrow> mm_init (fresh m lo hi) = Some (0, s) \<Longrightarrow> reach s"
| reach_malloc: "reach s \<Longrightarrow> n \<le> max_request \<Longrightarrow> malloc n s = Some (p, s') \<Longrightarrow> reach s'"
| reach_free: "reach s \<Longrightarrow> p = 0 \<or> p \<in> set (live s) \<Longrightarrow> free p s = Some s' \<Longrightarrow> reach s'"
| reach_realloc: "reach s \<Longrightarrow> p = 0 \<or> p \<in> set (live s) \<Longrightarrow> n \<le> max_request \<Longrightarrow>
                  realloc p n s = Some (q, s') \<Longrightarrow> reach s'"
| reach_extend: "reach s \<Longrightarrow> 3 \<le> words \<Longrightarrow> words < 4611686018427387903 \<Longrightarrow>
                 extend_heap words s = Some (bp, s') \<Longrightarrow> reach s'"

section \<open>Representation of a well-formed heap\<close>

text \<open>
  A well-formed heap is described by the list of its blocks between prologue and
  epilogue, each a pair of size and allocated flag, and by the contents of the fifteen
  lists.  \<open>hdw sz pa a\<close> is the header word of a block of size \<open>sz\<close> whose predecessor is
  allocated iff \<open>pa\<close> and which is allocated iff \<open>a\<close>.
\<close>

type_synonym blk = "nat \<times> bool"

definition hdw :: "nat \<Rightarrow> bool \<Rightarrow> bool \<Rightarrow> 32 word" where
  "hdw sz pa a = word_of_nat (PACK sz (if pa then 4 else 0) (if a then 1 else 0))"

definition total :: "blk list \<Rightarrow> nat" where
  "total bs = sum_list (map fst bs)"

text \<open>The blocks \<open>bs\<close> lie in memory from payload address \<open>p\<close> on, the block before them
  being allocated iff \<open>pa\<close>: sizes (I1, I2), headers with their prev-allocated bits (I4)
  and the footers of free blocks (I3).\<close>

fun blocks_ok :: "memory \<Rightarrow> nat \<Rightarrow> bool \<Rightarrow> blk list \<Rightarrow> bool" where
  "blocks_ok m p pa [] = True"
| "blocks_ok m p pa ((sz, a) # bs) =
     (16 \<le> sz \<and> 8 dvd sz \<and> GET m (p - 4) = hdw sz pa a \<and>
      (\<not> a \<longrightarrow> GET m (p + sz - 8) = hdw sz pa a) \<and> blocks_ok m (p + sz) a bs)"

definition outb :: "bool \<Rightarrow> blk list \<Rightarrow> bool" where
  "outb pa bs = (if bs = [] then pa else snd (last bs))"

text \<open>I5 on the block list.\<close>

fun naf :: "bool \<Rightarrow> blk list \<Rightarrow> bool" where
  "naf pa [] = True"
| "naf pa ((sz, a) # bs) = ((pa \<or> a) \<and> naf a bs)"

text \<open>The free, respectively allocated, blocks with their payload addresses.\<close>

fun frees :: "nat \<Rightarrow> blk list \<Rightarrow> (nat \<times> nat) list" where
  "frees p [] = []"
| "frees p ((sz, a) # bs) = (if a then [] else [(p, sz)]) @ frees (p + sz) bs"

fun allocs :: "nat \<Rightarrow> blk list \<Rightarrow> (nat \<times> nat) list" where
  "allocs p [] = []"
| "allocs p ((sz, a) # bs) = (if a then [(p, sz)] else []) @ allocs (p + sz) bs"

text \<open>Prologue, blocks, epilogue (I8) and the provider's bounds.\<close>

definition heap_ok :: "state \<Rightarrow> blk list \<Rightarrow> bool" where
  "heap_ok s bs =
     (heap_listp s = mem_start_brk s + 8 \<and> 8 dvd mem_start_brk s \<and>
      GET (mem s) (heap_listp s - 4) = hdw 8 True True \<and>
      blocks_ok (mem s) (heap_listp s + 8) True bs \<and>
      heap_listp s + 8 + total bs = mem_brk s \<and>
      GET (mem s) (mem_brk s - 4) = hdw 0 (outb True bs) True \<and>
      mem_brk s \<le> mem_max_addr s \<and>
      mem_max_addr s < 18446744073709551616 \<and>
      mem_max_addr s < mem_start_brk s + 4294967296)"

text \<open>A chain of link words from \<open>h\<close> through the blocks \<open>xs\<close> to \<^verbatim>\<open>NULL\<close>.\<close>

fun lseg :: "memory \<Rightarrow> nat \<Rightarrow> nat list \<Rightarrow> bool" where
  "lseg m h [] = (h = 0)"
| "lseg m h (x # xs) = (h = x \<and> x \<noteq> 0 \<and> lseg m (GETL m x) xs)"

text \<open>The lists hold exactly the blocks of \<open>F\<close> (pairs of address and size), each once
  and in the list of its size (I6, I7).\<close>

definition lists_ok :: "memory \<Rightarrow> (nat \<Rightarrow> nat) \<Rightarrow> (nat \<Rightarrow> nat list) \<Rightarrow> (nat \<times> nat) set \<Rightarrow> bool" where
  "lists_ok m hs fl F =
     ((\<forall>k. lseg m (hs k) (fl k) \<and> distinct (fl k)) \<and>
      (\<forall>k x. x \<in> set (fl k) \<longleftrightarrow> (\<exists>sz. (x, sz) \<in> F \<and> class_of sz = k)))"

definition Inv :: "state \<Rightarrow> blk list \<Rightarrow> (nat \<Rightarrow> nat list) \<Rightarrow> bool" where
  "Inv s bs fl =
     (heap_ok s bs \<and> naf True bs \<and>
      lists_ok (mem s) (heads s) fl (set (frees (heap_listp s + 8) bs)))"

definition valid :: "state \<Rightarrow> bool" where
  "valid s = (\<exists>bs fl. Inv s bs fl)"

section \<open>Sequences of calls\<close>

text \<open>Calls in sequence, each on the state the one before left; a call that does not
  return makes the sequence \<open>None\<close>.  \<open>initS\<close> is a successful \<^verbatim>\<open>mm_init\<close>.\<close>

definition initS :: "state \<Rightarrow> state option" where
  "initS s = Option.bind (mm_init s) (\<lambda>(r, s'). if r = 0 then Some s' else None)"

definition mallocS :: "64 word \<Rightarrow> state option \<Rightarrow> state option" where
  "mallocS n so = Option.bind so (\<lambda>s. map_option snd (malloc n s))"

definition mallocP :: "64 word \<Rightarrow> state option \<Rightarrow> nat option" where
  "mallocP n so = Option.bind so (\<lambda>s. map_option fst (malloc n s))"

definition freeS :: "nat \<Rightarrow> state option \<Rightarrow> state option" where
  "freeS p so = Option.bind so (free p)"

definition reallocS :: "nat \<Rightarrow> 64 word \<Rightarrow> state option \<Rightarrow> state option" where
  "reallocS p n so = Option.bind so (\<lambda>s. map_option snd (realloc p n s))"

definition reallocP :: "nat \<Rightarrow> 64 word \<Rightarrow> state option \<Rightarrow> nat option" where
  "reallocP p n so = Option.bind so (\<lambda>s. map_option fst (realloc p n s))"

text \<open>An empty 64 KiB heap at address 65536 in zeroed memory, and the same heap
  initialised.\<close>

definition heap0 :: state where
  "heap0 = fresh (\<lambda>a. 0) 65536 131072"

definition heap1 :: "state option" where
  "heap1 = initS heap0"

text \<open>A heap that the provider cannot grow beyond the initial chunk, in memory whose
  byte at address 0 is 255.\<close>

definition small_heap :: "state option" where
  "small_heap = initS (fresh ((\<lambda>a. 0)(0 := 255)) 65536 69648)"

text \<open>The pointer a call returned and the byte at address \<open>a\<close> afterwards.\<close>

definition peek :: "nat \<Rightarrow> (nat \<times> state) option \<Rightarrow> (nat \<times> 8 word) option" where
  "peek a r = map_option (\<lambda>(p, s). (p, mem s a)) r"

text \<open>The first block of a list of candidates whose stored size is at least \<open>asize\<close>, or 0
  when there is none.\<close>

fun first_fit :: "memory \<Rightarrow> nat \<Rightarrow> nat list \<Rightarrow> nat" where
  "first_fit m asize [] = 0"
| "first_fit m asize (x # xs) = (if asize \<le> GET_SIZE m (HDRP x) then x else first_fit m asize xs)"

text \<open>What the listed blocks have in common: double-word aligned addresses that are
  not \<^verbatim>\<open>NULL\<close> and fit a pointer, and one size per address.\<close>

definition Fgood :: "(nat \<times> nat) set \<Rightarrow> bool" where
  "Fgood F = ((\<forall>(x, sz) \<in> F. 8 dvd x \<and> x \<noteq> 0 \<and> x < 18446744073709551616) \<and>
              (\<forall>x s1 s2. (x, s1) \<in> F \<longrightarrow> (x, s2) \<in> F \<longrightarrow> s1 = s2))"

text \<open>Two memories that hold the same bytes from \<open>lo\<close> up to, not including, \<open>hi\<close>.\<close>

definition agree :: "memory \<Rightarrow> memory \<Rightarrow> nat \<Rightarrow> nat \<Rightarrow> bool" where
  "agree m m' lo hi = (\<forall>a. lo \<le> a \<and> a < hi \<longrightarrow> m' a = m a)"

text \<open>The blocks \<open>bs\<close> from payload address \<open>p\<close> up to the epilogue, whose payload
  address is \<open>e\<close>.\<close>

definition tail_ok :: "memory \<Rightarrow> nat \<Rightarrow> bool \<Rightarrow> blk list \<Rightarrow> nat \<Rightarrow> bool" where
  "tail_ok m p pa bs e =
     (blocks_ok m p pa bs \<and> p + total bs = e \<and> GET m (e - 4) = hdw 0 (outb pa bs) True)"

text \<open>Size and allocated flag in the header that follows a block: those of the next block,
  or 0 and allocated for the epilogue.\<close>

fun next_size :: "blk list \<Rightarrow> nat" where
  "next_size [] = 0"
| "next_size ((sz, a) # bs) = sz"

fun next_alloc :: "blk list \<Rightarrow> bool" where
  "next_alloc [] = True"
| "next_alloc ((sz, a) # bs) = a"

text \<open>The memory after the header that follows a block, and the footer behind that header
  when it heads a free block, were rewritten with the word \<open>v\<close>.\<close>

definition set_prev :: "memory \<Rightarrow> nat \<Rightarrow> blk list \<Rightarrow> nat \<Rightarrow> memory" where
  "set_prev m q post v =
     (if next_alloc post then PUT m (q - 4) v
      else PUT (PUT m (q - 4) v) (q + next_size post - 8) v)"

text \<open>The payload addresses of the blocks \<open>bs\<close> laid out from \<open>p\<close>.\<close>

fun addrs :: "nat \<Rightarrow> blk list \<Rightarrow> nat list" where
  "addrs p [] = []"
| "addrs p ((sz, a) # bs) = p # addrs (p + sz) bs"

text \<open>The free blocks between prologue and epilogue.\<close>

definition idle :: "state \<Rightarrow> nat list" where
  "idle s = filter (\<lambda>b. GET_ALLOC (mem s) (HDRP b) = 0) (butlast (tl (blocks s)))"

text \<open>The adjusted size as the specification words it, on unbounded numbers:
  16 for a request of at most 8 bytes, else \<open>8 * \<lceil>(n + 4) / 8\<rceil>\<close>.\<close>

definition adjust_spec :: "nat \<Rightarrow> nat" where
  "adjust_spec n = (if n \<le> 8 then 16 else 8 * ((n + 4 + 7) div 8))"

text \<open>\<^verbatim>\<open>realloc\<close> as the specification words it: the number of bytes copied is the
  smaller of the request and the stored size of the old block minus the 4 bytes of its
  header.  It differs from \<open>realloc\<close> in the line that sets \<open>oldsize\<close> only.\<close>

definition realloc_spec :: "nat \<Rightarrow> 64 word \<Rightarrow> state \<Rightarrow> (nat \<times> state) option" where
  "realloc_spec oldptr sz s =
     (if sz = 0 then map_option (Pair 0) (free oldptr s)
      else if oldptr = 0 then malloc sz s
      else
        do {
          (newptr, s1) \<leftarrow> malloc sz s;
          if newptr = 0 then Some (0, s1)
          else
            (let oldsize = GET_SIZE (mem s1) (HDRP oldptr) - 4;
                 oldsize = (if unat sz < oldsize then unat sz else oldsize);
                 s2 = s1\<lparr>mem := memcpy (mem s1) newptr oldptr oldsize\<rparr>
             in map_option (Pair newptr) (free oldptr s2))
        })"

section \<open>Memory lemmas\<close>

lemma unat_byte: "n < 256 \<Longrightarrow> unat (word_of_nat n :: 8 word) = n"
  by (simp add: unat_of_nat)

lemma bytes_recompose: 
  assumes "(v::nat) < 4294967296"
  shows "v mod 256 + 256 * (v div 256 mod 256) + 65536 * (v div 65536 mod 256) + 16777216 * (v div 16777216 mod 256) = v"
proof -
  define q1 where "q1 = v div 256"
  define q2 where "q2 = q1 div 256"
  define q3 where "q3 = q2 div 256"
  have 1: "v = v mod 256 + 256 * q1" by (simp add: q1_def)
  have 2: "q1 = q1 mod 256 + 256 * q2" by (simp add: q2_def)
  have 3: "q2 = q2 mod 256 + 256 * q3" by (simp add: q3_def)
  have d2: "v div 65536 = q2" by (simp add: q2_def q1_def div_mult2_eq[symmetric])
  have d3: "v div 16777216 = q3" by (simp add: q3_def q2_def q1_def div_mult2_eq[symmetric])
  have 4: "q3 < 256" using assms unfolding d3[symmetric] by simp
  have 5: "q3 mod 256 = q3" using 4 by simp
  show ?thesis unfolding d2 d3 5 q1_def[symmetric] using 1 2 3 by linarith
qed

lemma trunc_tb: "k + 8 \<le> 32 \<Longrightarrow> take_bit 8 (drop_bit k (take_bit 32 (v::nat))) = take_bit 8 (drop_bit k v)"
  by (rule bit_eqI) (auto simp: bit_take_bit_iff bit_drop_bit_eq)

lemma trunc_bytes: fixes v :: nat
  shows "(v mod 4294967296) mod 256 = v mod 256" "(v mod 4294967296) div 256 mod 256 = v div 256 mod 256"
    "(v mod 4294967296) div 65536 mod 256 = v div 65536 mod 256" "(v mod 4294967296) div 16777216 mod 256 = v div 16777216 mod 256"
  using trunc_tb[of 0 v] trunc_tb[of 8 v] trunc_tb[of 16 v] trunc_tb[of 24 v]
  by (simp_all add: take_bit_eq_mod drop_bit_eq_div)

lemma GET_PUT_same: "GET (PUT m p v) p = word_of_nat v"
proof -
  let ?w = "v mod 4294967296"
  have "GET (PUT m p v) p = word_of_nat (v mod 256 + 256 * (v div 256 mod 256) + 65536 * (v div 65536 mod 256) + 16777216 * (v div 16777216 mod 256))"
    by (simp add: GET_def PUT_def unat_byte)
  also have "\<dots> = word_of_nat ?w"
    using bytes_recompose[of ?w] trunc_bytes[of v] by simp
  also have "\<dots> = (word_of_nat v :: 32 word)"
    by (simp add: word_of_nat_eq_iff take_bit_eq_mod)
  finally show ?thesis .
qed

lemma PUT_outside: "a < p \<or> p + 4 \<le> a \<Longrightarrow> PUT m p v a = m a"
  by (auto simp: PUT_def)

lemma PUTL_outside: "a < p \<or> p + 8 \<le> a \<Longrightarrow> PUTL m p v a = m a"
  by (auto simp: PUTL_def PUT_outside)

lemma GET_frame: "(\<And>i. i < 4 \<Longrightarrow> m' (q + i) = m (q + i)) \<Longrightarrow> GET m' q = GET m q"
proof -
  assume a: "\<And>i. i < 4 \<Longrightarrow> m' (q + i) = m (q + i)"
  from a[of 0] a[of 1] a[of 2] a[of 3] show ?thesis by (simp add: GET_def)
qed

lemma GETL_frame: "(\<And>i. i < 8 \<Longrightarrow> m' (q + i) = m (q + i)) \<Longrightarrow> GETL m' q = GETL m q"
proof -
  assume a: "\<And>i. i < 8 \<Longrightarrow> m' (q + i) = m (q + i)"
  have "GET m' q = GET m q" by (rule GET_frame) (simp add: a)
  moreover have "GET m' (q + 4) = GET m (q + 4)"
    by (rule GET_frame) (use a in \<open>simp add: add.assoc\<close>)
  ultimately show ?thesis by (simp add: GETL_def)
qed

lemma GET_PUT_other: "p + 4 \<le> q \<or> q + 4 \<le> p \<Longrightarrow> GET (PUT m p v) q = GET m q"
  by (rule GET_frame) (auto simp: PUT_outside)

lemma GET_PUTL_other: "p + 8 \<le> q \<or> q + 4 \<le> p \<Longrightarrow> GET (PUTL m p v) q = GET m q"
  by (rule GET_frame) (auto simp: PUTL_outside)

lemma GETL_PUT_other: "p + 4 \<le> q \<or> q + 8 \<le> p \<Longrightarrow> GETL (PUT m p v) q = GETL m q"
  by (rule GETL_frame) (auto simp: PUT_outside)

lemma GETL_PUTL_other: "p + 8 \<le> q \<or> q + 8 \<le> p \<Longrightarrow> GETL (PUTL m p v) q = GETL m q"
  by (rule GETL_frame) (auto simp: PUTL_outside)

lemma GETL_PUTL_same: "v < 18446744073709551616 \<Longrightarrow> GETL (PUTL m p v) p = v"
proof -
  assume v: "v < 18446744073709551616"
  have d: "v div 4294967296 < 4294967296" using v by simp
  have a: "GET (PUTL m p v) p = word_of_nat (v mod 4294967296)"
    by (simp add: PUTL_def GET_PUT_other GET_PUT_same)
  have b: "GET (PUTL m p v) (p + 4) = word_of_nat (v div 4294967296)"
    using d by (simp add: PUTL_def GET_PUT_same)
  have "unat (word_of_nat (v mod 4294967296) :: 32 word) = v mod 4294967296"
    by (simp add: unat_of_nat)
  moreover have "unat (word_of_nat (v div 4294967296) :: 32 word) = v div 4294967296"
    using d by (simp add: unat_of_nat)
  ultimately show ?thesis by (simp add: GETL_def a b)
qed

section \<open>Header words\<close>

lemma b4: "bit (4::nat) n \<longleftrightarrow> n = 2"
proof -
  have e: "(4::nat) = push_bit 2 (1::nat)" by simp
  show ?thesis by (subst e, subst bit_push_bit_iff) (auto simp: bit_1_iff bit_Suc_0_iff)
qed
lemma b4w: "bit (4::32 word) n \<longleftrightarrow> n = 2"
proof -
  have e: "(4::32 word) = push_bit 2 1" by simp
  show ?thesis by (subst e, subst bit_push_bit_iff) (auto simp: bit_1_iff)
qed
lemma bm8: "bit (- 8 ::32 word) n \<longleftrightarrow> 3 \<le> n \<and> n < 32"
proof -
  have e: "(- 8::32 word) = NOT (mask 3)" by (simp add: mask_numeral)
  show ?thesis by (subst e, subst bit_not_iff, subst bit_mask_iff) auto
qed
lemma b8: "8 dvd (sz::nat) \<Longrightarrow> bit sz n \<Longrightarrow> 3 \<le> n"
proof -
  assume "8 dvd sz" and b: "bit sz n"
  then obtain k where "sz = 8 * k" by (elim dvdE)
  then have "sz = push_bit 3 k" by (simp add: push_bit_eq_mult)
  with b have "bit (push_bit 3 k) n" by simp
  then show "3 \<le> n" by (simp add: bit_push_bit_iff)
qed

lemma hdw_and_not7: assumes "8 dvd sz" shows "hdw sz pa a AND NOT 7 = word_of_nat sz"
proof (rule bit_eqI)
  fix n assume "possible_bit TYPE(32 word) n"
  then have n: "n < 32" by simp
  have "bit (hdw sz pa a AND NOT 7) n \<longleftrightarrow> bit (hdw sz pa a) n \<and> bit (- 8 :: 32 word) n"
    by (simp add: bit_and_iff)
  also have "\<dots> \<longleftrightarrow> bit (hdw sz pa a) n \<and> 3 \<le> n" using n by (simp only: bm8) simp
  also have "\<dots> \<longleftrightarrow> bit sz n \<and> 3 \<le> n" using n
    by (auto simp: hdw_def PACK_def bit_or_iff bit_of_nat_iff b4 bit_1_iff bit_Suc_0_iff)
  also have "\<dots> \<longleftrightarrow> bit (word_of_nat sz :: 32 word) n" using n b8[OF assms]
    by (auto simp: bit_of_nat_iff)
  finally show "bit (hdw sz pa a AND NOT 7) n = bit (word_of_nat sz :: 32 word) n" .
qed

lemma hdw_and_1: assumes "8 dvd sz" shows "hdw sz pa a AND 1 = (if a then 1 else 0)"
proof (rule bit_eqI)
  fix n assume "possible_bit TYPE(32 word) n"
  then have n: "n < 32" by simp
  show "bit (hdw sz pa a AND 1) n = bit (if a then 1 else 0 :: 32 word) n"
    using n b8[OF assms, of n]
    by (auto simp: hdw_def PACK_def bit_and_iff bit_or_iff bit_of_nat_iff b4 bit_1_iff bit_Suc_0_iff)
qed

lemma b4i: "bit (4::int) n \<longleftrightarrow> n = 2"
proof -
  have e: "(4::int) = push_bit 2 1" by simp
  show ?thesis by (subst e, subst bit_push_bit_iff) (auto simp: bit_1_iff)
qed

lemma hdw_and_4: assumes "8 dvd sz" shows "hdw sz pa a AND 4 = (if pa then 4 else 0)"
proof (rule bit_eqI)
  fix n assume "possible_bit TYPE(32 word) n"
  then have n: "n < 32" by simp
  show "bit (hdw sz pa a AND 4) n = bit (if pa then 4 else 0 :: 32 word) n"
    using n b8[OF assms, of n]
    by (auto simp: hdw_def PACK_def bit_and_iff bit_or_iff bit_of_nat_iff b4 b4i bit_1_iff bit_Suc_0_iff)
qed

lemma hdw_size: "8 dvd sz \<Longrightarrow> sz < 4294967296 \<Longrightarrow> unat (hdw sz pa a AND NOT 7) = sz"
  by (simp only: hdw_and_not7) (simp add: unat_of_nat)

lemma hdw_alloc: "8 dvd sz \<Longrightarrow> unat (hdw sz pa a AND 1) = (if a then 1 else 0)"
  by (simp only: hdw_and_1) simp

lemma hdw_prev: "8 dvd sz \<Longrightarrow> unat (hdw sz pa a AND 4) = (if pa then 4 else 0)"
  by (simp only: hdw_and_4) simp

lemma hdw_inj: "8 dvd sz \<Longrightarrow> sz < 4294967296 \<Longrightarrow> 8 dvd sz' \<Longrightarrow> sz' < 4294967296 \<Longrightarrow> hdw sz pa a = hdw sz' pa' a' \<Longrightarrow> sz = sz' \<and> pa = pa' \<and> a = a'"
  by (metis hdw_size hdw_alloc hdw_prev zero_neq_one zero_neq_numeral)

section \<open>Fields that the list and block operations leave alone\<close>

lemma deletex_from_fields:
  "deletex_from ks bp a nk s = Some s' \<Longrightarrow>
   heap_listp s' = heap_listp s \<and> mem_brk s' = mem_brk s \<and>
   mem_start_brk s' = mem_start_brk s \<and> mem_max_addr s' = mem_max_addr s"
  by (induction ks) (auto split: if_splits option.splits)

lemma deletex_fields:
  "deletex bp a s = Some s' \<Longrightarrow>
   heap_listp s' = heap_listp s \<and> mem_brk s' = mem_brk s \<and>
   mem_start_brk s' = mem_start_brk s \<and> mem_max_addr s' = mem_max_addr s"
  unfolding deletex_def by (rule deletex_from_fields)

lemma insertx_fields [simp]:
  "heap_listp (insertx bp a s) = heap_listp s" "mem_brk (insertx bp a s) = mem_brk s"
  "mem_start_brk (insertx bp a s) = mem_start_brk s" "mem_max_addr (insertx bp a s) = mem_max_addr s"
  by (simp_all add: insertx_def Let_def)

lemma coalesce_fields:
  "coalesce bp s = Some (bp', s') \<Longrightarrow>
   heap_listp s' = heap_listp s \<and> mem_brk s' = mem_brk s \<and>
   mem_start_brk s' = mem_start_brk s \<and> mem_max_addr s' = mem_max_addr s"
  unfolding coalesce_def Let_def
  by (auto split: if_splits simp: bind_eq_Some_conv dest!: deletex_fields)

lemma extend_heap_heap_listp:
  "extend_heap w s = Some (bp, s') \<Longrightarrow> heap_listp s' = heap_listp s"
  unfolding extend_heap_def Let_def mem_sbrk_def
  by (auto split: if_splits prod.splits dest!: coalesce_fields)

lemma mm_init_heap_listp: "mm_init s = Some (r, s') \<Longrightarrow> heap_listp s' \<noteq> 0"
  unfolding mm_init_def Let_def mem_sbrk_def
  by (auto split: if_splits prod.splits simp: bind_eq_Some_conv FAIL_def dest!: extend_heap_heap_listp)

section \<open>Evaluation on concrete heaps\<close>

lemma GET_const0: "GET (\<lambda>a. 0) p = 0"
  by (simp add: GET_def)

lemma GET_upd_other: "a < q \<or> q + 4 \<le> a \<Longrightarrow> GET (m(a := v)) q = GET m q"
  by (rule GET_frame) auto

lemmas eval_defs = mm_init_def fresh_def mem_sbrk_def FAIL_def extend_heap_def coalesce_def insertx_def class_of_def
  deletex_def classes_def guard_def PACK_def HDRP_def FTRP_def NEXT_BLKP_def PREV_BLKP_def GET_SIZE_def GET_ALLOC_def
  PREVX_def GETL_def PUTL_def Let_def GET_PUT_same GET_PUT_other GET_const0 GET_upd_other delete_walk.simps fit_walk.simps
  place_def malloc_def free_def find_fit_def adjust_def sub64_def realloc_def calloc_def
  initS_def mallocS_def mallocP_def freeS_def reallocS_def reallocP_def heap0_def heap1_def small_heap_def peek_def

lemmas check_defs = mm_checkheap_def check_blocks.simps check_list.simps
  mem_heap_hi_def mem_heap_lo_def in_heap_def aligned_def

section \<open>Block lists\<close>

lemma total_simps [simp]:
  "total [] = 0" "total (b # bs) = fst b + total bs" "total (bs1 @ bs2) = total bs1 + total bs2"
  by (simp_all add: total_def)

lemma outb_simps [simp]:
  "outb pa [] = pa" "outb pa ((sz, a) # bs) = outb a bs"
  by (induction bs) (auto simp: outb_def)

lemma outb_append [simp]: "outb pa (bs1 @ bs2) = outb (outb pa bs1) bs2"
  by (induction bs1 arbitrary: pa) auto

lemma blocks_ok_append:
  "blocks_ok m p pa (bs1 @ bs2) \<longleftrightarrow>
     blocks_ok m p pa bs1 \<and> blocks_ok m (p + total bs1) (outb pa bs1) bs2"
  by (induction bs1 arbitrary: p pa) (auto simp: add.assoc)

lemma naf_append: "naf pa (bs1 @ bs2) \<longleftrightarrow> naf pa bs1 \<and> naf (outb pa bs1) bs2"
  by (induction bs1 arbitrary: pa) auto

lemma frees_append [simp]: "frees p (bs1 @ bs2) = frees p bs1 @ frees (p + total bs1) bs2"
  by (induction bs1 arbitrary: p) (auto simp: add.assoc)

lemma allocs_append [simp]: "allocs p (bs1 @ bs2) = allocs p bs1 @ allocs (p + total bs1) bs2"
  by (induction bs1 arbitrary: p) (auto simp: add.assoc)

lemma blocks_ok_sizes:
  "blocks_ok m p pa bs \<Longrightarrow> (sz, a) \<in> set bs \<Longrightarrow> 16 \<le> sz \<and> 8 dvd sz"
  by (induction bs arbitrary: p pa) auto

lemma blocks_ok_total_dvd: "blocks_ok m p pa bs \<Longrightarrow> 8 dvd total bs"
  by (induction bs arbitrary: p pa) auto

lemma frees_range:
  "blocks_ok m p pa bs \<Longrightarrow> (x, sz) \<in> set (frees p bs) \<Longrightarrow> p \<le> x \<and> x + sz \<le> p + total bs \<and> 16 \<le> sz \<and> 8 dvd sz"
  by (induction bs arbitrary: p pa) (fastforce split: if_splits)+

lemma allocs_range:
  "blocks_ok m p pa bs \<Longrightarrow> (x, sz) \<in> set (allocs p bs) \<Longrightarrow> p \<le> x \<and> x + sz \<le> p + total bs \<and> 16 \<le> sz \<and> 8 dvd sz"
  by (induction bs arbitrary: p pa) (fastforce split: if_splits)+

lemma frees_dvd:
  "blocks_ok m p pa bs \<Longrightarrow> 8 dvd p \<Longrightarrow> (x, sz) \<in> set (frees p bs) \<Longrightarrow> 8 dvd x"
  by (induction bs arbitrary: p pa) (fastforce split: if_splits)+

lemma frees_split:
  "(x, sz) \<in> set (frees p bs) \<Longrightarrow> \<exists>pre post. bs = pre @ (sz, False) # post \<and> x = p + total pre"
proof (induction bs arbitrary: p)
  case Nil
  then show ?case by simp
next
  case (Cons b bs)
  obtain s a where b: "b = (s, a)" by (cases b)
  show ?case
  proof (cases "\<not> a \<and> x = p \<and> sz = s")
    case True
    then have "b # bs = [] @ (sz, False) # bs \<and> x = p + total []" using b by simp
    then show ?thesis by blast
  next
    case False
    then have "(x, sz) \<in> set (frees (p + s) bs)" using Cons.prems b by (auto split: if_splits)
    from Cons.IH[OF this] obtain pre post where "bs = pre @ (sz, False) # post" "x = p + s + total pre"
      by blast
    then have "b # bs = (b # pre) @ (sz, False) # post \<and> x = p + total (b # pre)" using b by simp
    then show ?thesis by blast
  qed
qed

lemma allocs_split:
  "(x, sz) \<in> set (allocs p bs) \<Longrightarrow> \<exists>pre post. bs = pre @ (sz, True) # post \<and> x = p + total pre"
proof (induction bs arbitrary: p)
  case Nil
  then show ?case by simp
next
  case (Cons b bs)
  obtain s a where b: "b = (s, a)" by (cases b)
  show ?case
  proof (cases "a \<and> x = p \<and> sz = s")
    case True
    then have "b # bs = [] @ (sz, True) # bs \<and> x = p + total []" using b by simp
    then show ?thesis by blast
  next
    case False
    then have "(x, sz) \<in> set (allocs (p + s) bs)" using Cons.prems b by (auto split: if_splits)
    from Cons.IH[OF this] obtain pre post where "bs = pre @ (sz, True) # post" "x = p + s + total pre"
      by blast
    then have "b # bs = (b # pre) @ (sz, True) # post \<and> x = p + total (b # pre)" using b by simp
    then show ?thesis by blast
  qed
qed

lemma frees_unique:
  "blocks_ok m p pa bs \<Longrightarrow> (x, sz) \<in> set (frees p bs) \<Longrightarrow> (x, sz') \<in> set (frees p bs) \<Longrightarrow> sz = sz'"
proof (induction bs arbitrary: p pa)
  case Nil
  then show ?case by simp
next
  case (Cons b bs)
  obtain s a where b: "b = (s, a)" by (cases b)
  have bo: "blocks_ok m (p + s) a bs" and s16: "16 \<le> s" using Cons.prems(1) b by auto
  have far: "\<And>z. (x, z) \<in> set (frees (p + s) bs) \<Longrightarrow> p + s \<le> x"
    using frees_range[OF bo] by blast
  show ?case
    using Cons.prems Cons.IH[OF bo] b s16 far by (fastforce split: if_splits)
qed

lemma frees_allocs_disjoint:
  "blocks_ok m p pa bs \<Longrightarrow> (x, sz) \<in> set (frees p bs) \<Longrightarrow> (x, sz') \<notin> set (allocs p bs)"
proof (induction bs arbitrary: p pa)
  case Nil
  then show ?case by simp
next
  case (Cons b bs)
  obtain s a where b: "b = (s, a)" by (cases b)
  have bo: "blocks_ok m (p + s) a bs" and s16: "16 \<le> s" using Cons.prems(1) b by auto
  have far: "\<And>z. (x, z) \<in> set (frees (p + s) bs) \<Longrightarrow> p + s \<le> x"
    using frees_range[OF bo] by blast
  have far2: "\<And>z. (x, z) \<in> set (allocs (p + s) bs) \<Longrightarrow> p + s \<le> x"
    using allocs_range[OF bo] by blast
  show ?case
    using Cons.prems Cons.IH[OF bo] b s16 far far2 by (fastforce split: if_splits)
qed

text \<open>Memory outside the headers and footers of a run of blocks does not matter.\<close>

lemma blocks_ok_frame:
  assumes "blocks_ok m p pa bs" "4 \<le> p"
    and "\<And>a. p - 4 \<le> a \<Longrightarrow> a < p + total bs - 4 \<Longrightarrow> m' a = m a"
  shows "blocks_ok m' p pa bs"
  using assms
proof (induction bs arbitrary: p pa)
  case Nil
  then show ?case by simp
next
  case (Cons b bs)
  obtain sz a where b: "b = (sz, a)" by (cases b)
  from Cons.prems(1) b have sz: "16 \<le> sz" "8 dvd sz" and h: "GET m (p - 4) = hdw sz pa a"
    and f: "\<not> a \<longrightarrow> GET m (p + sz - 8) = hdw sz pa a" and r: "blocks_ok m (p + sz) a bs"
    by auto
  have fr: "\<And>a. p - 4 \<le> a \<Longrightarrow> a < p + sz + total bs - 4 \<Longrightarrow> m' a = m a"
    using Cons.prems(3) b by (simp add: add.assoc)
  have 1: "GET m' (p - 4) = GET m (p - 4)"
    by (rule GET_frame) (use fr sz Cons.prems(2) in auto)
  have 2: "GET m' (p + sz - 8) = GET m (p + sz - 8)"
    by (rule GET_frame) (use fr sz Cons.prems(2) in auto)
  have 3: "blocks_ok m' (p + sz) a bs"
    by (rule Cons.IH[OF r]) (use fr sz Cons.prems(2) in auto)
  show ?case using b sz h f 1 2 3 by simp
qed

lemma GETL_bound: "GETL m p < 18446744073709551616"
proof -
  have "unat (GET m p) < 4294967296" "unat (GET m (p + 4)) < 4294967296"
    using unsigned_less[of "GET m p"] unsigned_less[of "GET m (p + 4)"] by simp_all
  then show ?thesis by (simp add: GETL_def)
qed

text \<open>Reading a header.\<close>

lemma read_hdw:
  assumes "GET m q = hdw sz pa a" "8 dvd sz" "sz < 4294967296"
  shows "GET_SIZE m q = sz" "GET_ALLOC m q = (if a then 1 else 0)" "PREVX m q = (if pa then 4 else 0)"
proof -
  show "GET_SIZE m q = sz" unfolding GET_SIZE_def assms(1) by (rule hdw_size[OF assms(2,3)])
  show "GET_ALLOC m q = (if a then 1 else 0)" unfolding GET_ALLOC_def assms(1) by (rule hdw_alloc[OF assms(2)])
  show "PREVX m q = (if pa then 4 else 0)" unfolding PREVX_def assms(1) by (rule hdw_prev[OF assms(2)])
qed

lemma hdw_PACK [simp]:
  "word_of_nat (PACK sz 4 1) = hdw sz True True"
  "word_of_nat (PACK sz 4 0) = hdw sz True False"
  "word_of_nat (PACK sz 0 1) = hdw sz False True"
  "word_of_nat (PACK sz 0 0) = hdw sz False False"
  by (simp_all add: hdw_def)

lemma hdw_PACK_if:
  "word_of_nat (PACK sz (if pa then 4 else 0) (if a then 1 else 0)) = hdw sz pa a"
  by (simp add: hdw_def)

section \<open>Free lists\<close>

lemma aligned_apart: "8 dvd (a::nat) \<Longrightarrow> 8 dvd b \<Longrightarrow> a \<noteq> b \<Longrightarrow> a + 8 \<le> b \<or> b + 8 \<le> a"
  by (auto elim!: dvdE)

lemma lseg_frame: "lseg m h xs \<Longrightarrow> (\<And>x. x \<in> set xs \<Longrightarrow> GETL m' x = GETL m x) \<Longrightarrow> lseg m' h xs"
  by (induction xs arbitrary: h) auto

lemma lseg_nonzero: "lseg m h xs \<Longrightarrow> 0 \<notin> set xs"
  by (induction xs arbitrary: h) auto

lemma lseg_head: "lseg m h xs \<Longrightarrow> h = 0 \<or> h \<in> set xs"
  by (cases xs) auto

lemma lseg_zero: "lseg m 0 xs \<Longrightarrow> xs = []"
  by (cases xs) auto

lemma lseg_at: "lseg m x xs \<Longrightarrow> x \<noteq> 0 \<Longrightarrow> \<exists>ws. xs = x # ws \<and> lseg m (GETL m x) ws"
  by (cases xs) auto

lemma delete_walk_notfound:
  "lseg m h xs \<Longrightarrow> x \<notin> set xs \<Longrightarrow> x \<noteq> 0 \<Longrightarrow> delete_walk m h x nk = Some None"
proof (induction xs arbitrary: h)
  case Nil
  then show ?case by (simp add: delete_walk.simps)
next
  case (Cons y ys)
  then have h: "h = y" "y \<noteq> 0" and l: "lseg m (GETL m y) ys" by auto
  have "GETL m y \<noteq> x" using lseg_head[OF l] Cons.prems by auto
  then have "delete_walk m h x nk = delete_walk m (GETL m y) x nk"
    using h by (subst delete_walk.simps) simp
  also have "\<dots> = Some None" using Cons.IH[OF l] Cons.prems by simp
  finally show ?case .
qed

lemma delete_walk_found:
  assumes "lseg m h xs" "distinct xs" "x \<in> set xs" "h \<noteq> x" "\<And>y. y \<in> set xs \<Longrightarrow> 8 dvd y"
  shows "\<exists>y \<in> set xs. y \<noteq> x \<and> delete_walk m h x (GETL m x) = Some (Some (PUTL m y (GETL m x))) \<and>
            lseg (PUTL m y (GETL m x)) h (remove1 x xs)"
  using assms
proof (induction xs arbitrary: h)
  case Nil
  then show ?case by simp
next
  case (Cons z zs)
  let ?nk = "GETL m x"
  from Cons.prems have h: "h = z" "z \<noteq> 0" "z \<noteq> x" and l: "lseg m (GETL m z) zs"
    and xz: "x \<in> set zs" and d: "distinct zs" "z \<notin> set zs" by auto
  have x0: "x \<noteq> 0" using lseg_nonzero[OF l] xz by (cases "x = 0") auto
  have al: "\<And>y. y \<in> set (z # zs) \<Longrightarrow> 8 dvd y" using Cons.prems(5) by blast
  show ?case
  proof (cases "GETL m z = x")
    case True
    from lseg_at[OF l[unfolded True] x0] obtain ws where ws: "zs = x # ws" "lseg m ?nk ws" by blast
    let ?m' = "PUTL m z ?nk"
    have dw: "delete_walk m h x ?nk = Some (Some ?m')"
      using h True by (subst delete_walk.simps) simp
    have "\<And>w. w \<in> set ws \<Longrightarrow> GETL ?m' w = GETL m w"
    proof -
      fix w assume w: "w \<in> set ws"
      then have "w \<noteq> z" using d ws by auto
      moreover have "8 dvd w" "8 dvd z" using al w ws by auto
      ultimately have "z + 8 \<le> w \<or> w + 8 \<le> z" using aligned_apart by blast
      then show "GETL ?m' w = GETL m w" by (rule GETL_PUTL_other)
    qed
    then have "lseg ?m' ?nk ws" using lseg_frame[OF ws(2)] by blast
    moreover have "GETL ?m' z = ?nk" by (rule GETL_PUTL_same) (rule GETL_bound)
    ultimately have "lseg ?m' h (remove1 x (z # zs))" using h ws by simp
    then show ?thesis using dw h by auto
  next
    case False
    from Cons.IH[OF l d(1) xz False] al obtain y where y: "y \<in> set zs" "y \<noteq> x"
      "delete_walk m (GETL m z) x ?nk = Some (Some (PUTL m y ?nk))"
      "lseg (PUTL m y ?nk) (GETL m z) (remove1 x zs)" by auto
    have dw: "delete_walk m h x ?nk = Some (Some (PUTL m y ?nk))"
      using h False y(3) by (subst delete_walk.simps) simp
    have "y \<noteq> z" using y(1) d by auto
    moreover have "8 dvd y" "8 dvd z" using al y(1) by auto
    ultimately have "y + 8 \<le> z \<or> z + 8 \<le> y" using aligned_apart by blast
    then have "GETL (PUTL m y ?nk) z = GETL m z" by (rule GETL_PUTL_other)
    then have "lseg (PUTL m y ?nk) h (remove1 x (z # zs))" using h y(4) by simp
    then show ?thesis using dw y(1,2) by auto
  qed
qed

lemma first_fit_cases: "first_fit m a xs = 0 \<or> (first_fit m a xs \<in> set xs \<and> a \<le> GET_SIZE m (HDRP (first_fit m a xs)))"
  by (induction xs) auto

lemma first_fit_zero: "0 \<notin> set xs \<Longrightarrow> first_fit m a xs = 0 \<longleftrightarrow> (\<forall>x \<in> set xs. \<not> a \<le> GET_SIZE m (HDRP x))"
  by (induction xs) auto

lemma first_fit_append:
  "0 \<notin> set xs \<Longrightarrow> first_fit m a (xs @ ys) = (if first_fit m a xs \<noteq> 0 then first_fit m a xs else first_fit m a ys)"
  by (induction xs) auto

lemma fit_walk_lseg: "lseg m h xs \<Longrightarrow> fit_walk m h a = Some (first_fit m a xs)"
proof (induction xs arbitrary: h)
  case Nil
  then show ?case by (simp add: fit_walk.simps)
next
  case (Cons y ys)
  then have h: "h = y" "y \<noteq> 0" and l: "lseg m (GETL m y) ys" by auto
  show ?case
  proof (cases "a \<le> GET_SIZE m (HDRP y)")
    case True
    then show ?thesis using h by (subst fit_walk.simps) simp
  next
    case False
    show ?thesis
    proof (cases "GETL m y = 0")
      case True
      then have "ys = []" using l lseg_zero by auto
      then show ?thesis using h False True by (subst fit_walk.simps) simp
    next
      case nz: False
      have "fit_walk m h a = fit_walk m (GETL m y) a"
        using h False nz by (subst fit_walk.simps) simp
      then show ?thesis using Cons.IH[OF l] False by simp
    qed
  qed
qed

lemma list_of_lseg: "lseg m h xs \<Longrightarrow> list_of m h = Some xs"
proof (induction xs arbitrary: h)
  case Nil
  then show ?case by (simp add: list_of.simps)
next
  case (Cons y ys)
  then have h: "h = y" "y \<noteq> 0" and l: "lseg m (GETL m y) ys" by auto
  show ?case using h Cons.IH[OF l] by (subst list_of.simps) simp
qed

lemma FgoodD: "Fgood F \<Longrightarrow> (x, sz) \<in> F \<Longrightarrow> 8 dvd x \<and> x \<noteq> 0 \<and> x < 18446744073709551616"
  by (auto simp: Fgood_def)

lemma Fgood_unique: "Fgood F \<Longrightarrow> (x, s1) \<in> F \<Longrightarrow> (x, s2) \<in> F \<Longrightarrow> s1 = s2"
  unfolding Fgood_def by blast

lemma Fgood_subset: "Fgood F \<Longrightarrow> G \<subseteq> F \<Longrightarrow> Fgood G"
  unfolding Fgood_def by blast

lemma Fgood_insert:
  assumes "Fgood F" "x \<notin> fst ` F" "8 dvd x" "x \<noteq> 0" "x < 18446744073709551616"
  shows "Fgood (insert (x, sz) F)"
proof -
  have n: "\<And>s. (x, s) \<notin> F" using assms(2) by force
  have 1: "\<forall>(y, s) \<in> insert (x, sz) F. 8 dvd y \<and> y \<noteq> 0 \<and> y < 18446744073709551616"
    using assms(1,3,4,5) unfolding Fgood_def by simp
  have 2: "\<forall>y s1 s2. (y, s1) \<in> insert (x, sz) F \<longrightarrow> (y, s2) \<in> insert (x, sz) F \<longrightarrow> s1 = s2"
  proof (intro allI impI)
    fix y s1 s2 assume a: "(y, s1) \<in> insert (x, sz) F" "(y, s2) \<in> insert (x, sz) F"
    show "s1 = s2"
    proof (cases "y = x")
      case True
      then show ?thesis using a n by simp
    next
      case False
      then show ?thesis using a Fgood_unique[OF assms(1)] by simp
    qed
  qed
  show ?thesis unfolding Fgood_def using 1 2 by blast
qed

lemma lists_ok_member: "lists_ok m hs fl F \<Longrightarrow> (x, sz) \<in> F \<Longrightarrow> x \<in> set (fl (class_of sz))"
  unfolding lists_ok_def by blast

lemma lists_ok_in_F: "lists_ok m hs fl F \<Longrightarrow> x \<in> set (fl k) \<Longrightarrow> \<exists>sz. (x, sz) \<in> F \<and> class_of sz = k"
  unfolding lists_ok_def by blast

lemma lists_ok_lseg: "lists_ok m hs fl F \<Longrightarrow> lseg m (hs k) (fl k) \<and> distinct (fl k)"
  unfolding lists_ok_def by blast

lemma lists_ok_class:
  "lists_ok m hs fl F \<Longrightarrow> Fgood F \<Longrightarrow> x \<in> set (fl k) \<Longrightarrow> (x, sz) \<in> F \<Longrightarrow> k = class_of sz"
  using lists_ok_in_F Fgood_unique by blast

lemma lists_ok_aligned:
  "lists_ok m hs fl F \<Longrightarrow> Fgood F \<Longrightarrow> x \<in> set (fl k) \<Longrightarrow> 8 dvd x \<and> x \<noteq> 0 \<and> x < 18446744073709551616"
  using lists_ok_in_F FgoodD by blast

lemma lists_ok_head_bound:
  assumes "lists_ok m hs fl F" "Fgood F"
  shows "hs k < 18446744073709551616"
proof -
  from lseg_head[of m "hs k" "fl k"] lists_ok_lseg[OF assms(1)]
  have "hs k = 0 \<or> hs k \<in> set (fl k)" by blast
  then show ?thesis using lists_ok_aligned[OF assms] by auto
qed

lemma lists_ok_frame:
  assumes "lists_ok m hs fl F" "\<And>x sz. (x, sz) \<in> F \<Longrightarrow> GETL m' x = GETL m x"
  shows "lists_ok m' hs fl F"
proof -
  have "\<And>k. lseg m' (hs k) (fl k)"
  proof -
    fix k
    have "lseg m (hs k) (fl k)" using lists_ok_lseg[OF assms(1)] by blast
    moreover have "\<And>x. x \<in> set (fl k) \<Longrightarrow> GETL m' x = GETL m x"
      using lists_ok_in_F[OF assms(1)] assms(2) by blast
    ultimately show "lseg m' (hs k) (fl k)" by (rule lseg_frame)
  qed
  then show ?thesis using assms(1) unfolding lists_ok_def by blast
qed

text \<open>\<^verbatim>\<open>insertx\<close> of a block that is on no list.\<close>

lemma lists_ok_insert:
  assumes ok: "lists_ok m hs fl F" and g: "Fgood F"
    and x: "x \<notin> fst ` F" "8 dvd x" "x \<noteq> 0" and k: "k = class_of sz"
  shows "lists_ok (PUTL m x (hs k)) (hs(k := x)) (fl(k := x # fl k)) (insert (x, sz) F)"
proof -
  let ?m' = "PUTL m x (hs k)"
  have fr: "\<And>y. y \<in> fst ` F \<Longrightarrow> GETL ?m' y = GETL m y"
  proof -
    fix y assume y: "y \<in> fst ` F"
    then have "y \<noteq> x" using x(1) by auto
    moreover have "8 dvd y" using y FgoodD[OF g] by auto
    ultimately have "x + 8 \<le> y \<or> y + 8 \<le> x" using aligned_apart x(2) by blast
    then show "GETL ?m' y = GETL m y" by (rule GETL_PUTL_other)
  qed
  have ok': "lists_ok ?m' hs fl F"
    by (rule lists_ok_frame[OF ok]) (use fr in force)
  have hx: "GETL ?m' x = hs k"
    by (rule GETL_PUTL_same) (rule lists_ok_head_bound[OF ok g])
  have xn: "\<And>j. x \<notin> set (fl j)" using lists_ok_in_F[OF ok] x(1) by force
  have 1: "\<And>j. lseg ?m' ((hs(k := x)) j) ((fl(k := x # fl k)) j) \<and> distinct ((fl(k := x # fl k)) j)"
    using lists_ok_lseg[OF ok'] hx x(3) xn by auto
  have 2: "\<And>j y. y \<in> set ((fl(k := x # fl k)) j) \<longleftrightarrow> (\<exists>s. (y, s) \<in> insert (x, sz) F \<and> class_of s = j)"
  proof -
    fix j y
    have a: "y \<in> set (fl j) \<longleftrightarrow> (\<exists>s. (y, s) \<in> F \<and> class_of s = j)"
      using ok unfolding lists_ok_def by blast
    show "y \<in> set ((fl(k := x # fl k)) j) \<longleftrightarrow> (\<exists>s. (y, s) \<in> insert (x, sz) F \<and> class_of s = j)"
      using a k xn[of j] by (cases "j = k") auto
  qed
  show ?thesis unfolding lists_ok_def using 1 2 by blast
qed

lemma insertx_lists_ok:
  assumes ok: "lists_ok (mem s) (heads s) fl F" and g: "Fgood F"
    and x: "x \<notin> fst ` F" "8 dvd x" "x \<noteq> 0"
  shows "lists_ok (mem (insertx x sz s)) (heads (insertx x sz s))
           (fl(class_of sz := x # fl (class_of sz))) (insert (x, sz) F)"
  using lists_ok_insert[OF ok g x refl, of sz] by (simp add: insertx_def Let_def)

lemma insertx_mem: "mem (insertx x sz s) = PUTL (mem s) x (heads s (class_of sz))"
  by (simp add: insertx_def Let_def)

text \<open>\<^verbatim>\<open>deletex\<close> of a listed block, called with a size whose cascade reaches the list of
  the block.\<close>

lemma deletex_from_ok:
  assumes ok: "lists_ok (mem s) (heads s) fl F" and g: "Fgood F"
    and x: "(x, sz) \<in> F" and c: "c = class_of sz" "guard c a" "c \<in> set ks"
  shows "\<exists>s'. deletex_from ks x a (GETL (mem s) x) s = Some s' \<and>
           lists_ok (mem s') (heads s') (fl(c := remove1 x (fl c))) (F - {(x, sz)}) \<and>
           heap_listp s' = heap_listp s \<and> mem_brk s' = mem_brk s \<and>
           mem_start_brk s' = mem_start_brk s \<and> mem_max_addr s' = mem_max_addr s \<and>
           (mem s' = mem s \<or> (\<exists>y v. y \<in> fst ` (F - {(x, sz)}) \<and> mem s' = PUTL (mem s) y v))"
  using c(3)
proof (induction ks)
  case Nil
  then show ?case by simp
next
  case (Cons k ks)
  let ?m = "mem s" and ?nk = "GETL (mem s) x"
  have x0: "x \<noteq> 0" "8 dvd x" using FgoodD[OF g x] by auto
  have xc: "x \<in> set (fl c)" using lists_ok_member[OF ok x] c(1) by simp
  have lk: "\<And>j. lseg ?m (heads s j) (fl j)" "\<And>j. distinct (fl j)"
    using lists_ok_lseg[OF ok] by auto
  have memb: "\<And>j y. y \<in> set (fl j) \<longleftrightarrow> (\<exists>s. (y, s) \<in> F \<and> class_of s = j)"
    using ok unfolding lists_ok_def by blast
  have memb': "\<And>j y. y \<in> set ((fl(c := remove1 x (fl c))) j) \<longleftrightarrow> (\<exists>s. (y, s) \<in> F - {(x, sz)} \<and> class_of s = j)"
  proof -
    fix j y
    show "y \<in> set ((fl(c := remove1 x (fl c))) j) \<longleftrightarrow> (\<exists>s. (y, s) \<in> F - {(x, sz)} \<and> class_of s = j)"
    proof (cases "j = c")
      case True
      have "y \<in> set (remove1 x (fl c)) \<longleftrightarrow> y \<in> set (fl c) \<and> y \<noteq> x"
        using lk(2)[of c] by auto
      also have "\<dots> \<longleftrightarrow> (\<exists>s. (y, s) \<in> F - {(x, sz)} \<and> class_of s = c)"
        using memb[of y c] Fgood_unique[OF g x] c(1) by auto
      finally show ?thesis using True by simp
    next
      case False
      have "y \<in> set (fl j) \<Longrightarrow> y \<noteq> x"
        using lists_ok_class[OF ok g _ x] c(1) False by auto
      then show ?thesis using memb[of y j] False by auto
    qed
  qed
  show ?case
  proof (cases "k = c")
    case True
    show ?thesis
    proof (cases "heads s c = x")
      case hx: True
      from lseg_at[OF lk(1)[of c, unfolded hx] x0(1)] obtain ws where
        ws: "fl c = x # ws" "lseg ?m ?nk ws" by blast
      define s' where "s' = s\<lparr>heads := (heads s)(c := ?nk)\<rparr>"
      have f: "mem s' = mem s" "heads s' = (heads s)(c := ?nk)" "heap_listp s' = heap_listp s"
        "mem_brk s' = mem_brk s" "mem_start_brk s' = mem_start_brk s" "mem_max_addr s' = mem_max_addr s"
        by (simp_all add: s'_def)
      have d: "deletex_from (k # ks) x a ?nk s = Some s'"
        unfolding s'_def using True c(2) hx by simp
      have "\<And>j. lseg ?m (((heads s)(c := ?nk)) j) ((fl(c := remove1 x (fl c))) j) \<and>
                 distinct ((fl(c := remove1 x (fl c))) j)"
      proof -
        fix j
        have dws: "distinct ws" using lk(2)[of c] ws(1) by simp
        show "lseg ?m (((heads s)(c := ?nk)) j) ((fl(c := remove1 x (fl c))) j) \<and>
                 distinct ((fl(c := remove1 x (fl c))) j)"
          using lk[of j] ws dws by (cases "j = c") auto
      qed
      then have "lists_ok (mem s') (heads s') (fl(c := remove1 x (fl c))) (F - {(x, sz)})"
        unfolding lists_ok_def f using memb' by blast
      then show ?thesis using d f by blast
    next
      case hx: False
      have al: "\<And>y. y \<in> set (fl c) \<Longrightarrow> 8 dvd y" using lists_ok_aligned[OF ok g] by blast
      from delete_walk_found[OF lk(1)[of c] lk(2)[of c] xc hx al]
      obtain y where y: "y \<in> set (fl c)" "y \<noteq> x"
        "delete_walk ?m (heads s c) x ?nk = Some (Some (PUTL ?m y ?nk))"
        "lseg (PUTL ?m y ?nk) (heads s c) (remove1 x (fl c))" by blast
      let ?m' = "PUTL ?m y ?nk"
      define s' where "s' = s\<lparr>mem := ?m'\<rparr>"
      have f: "mem s' = ?m'" "heads s' = heads s" "heap_listp s' = heap_listp s"
        "mem_brk s' = mem_brk s" "mem_start_brk s' = mem_start_brk s" "mem_max_addr s' = mem_max_addr s"
        by (simp_all add: s'_def)
      have d: "deletex_from (k # ks) x a ?nk s = Some s'"
        unfolding s'_def using True c(2) hx y(3) by simp
      have yF: "y \<in> fst ` (F - {(x, sz)})"
        using memb'[of y c] y(1,2) lk(2)[of c] by force
      have y8: "8 dvd y" using al y(1) by blast
      have oth: "\<And>j. j \<noteq> c \<Longrightarrow> lseg ?m' (heads s j) (fl j)"
      proof -
        fix j assume j: "j \<noteq> c"
        have "\<And>w. w \<in> set (fl j) \<Longrightarrow> GETL ?m' w = GETL ?m w"
        proof -
          fix w assume w: "w \<in> set (fl j)"
          have "w \<noteq> y"
          proof
            assume "w = y"
            then obtain s1 s2 where "(y, s1) \<in> F" "class_of s1 = j" "(y, s2) \<in> F" "class_of s2 = c"
              using memb[of y j] memb[of y c] w y(1) by blast
            then show False using Fgood_unique[OF g] j by blast
          qed
          moreover have "8 dvd w" using lists_ok_aligned[OF ok g w] by blast
          ultimately have "y + 8 \<le> w \<or> w + 8 \<le> y" using aligned_apart y8 by blast
          then show "GETL ?m' w = GETL ?m w" by (rule GETL_PUTL_other)
        qed
        then show "lseg ?m' (heads s j) (fl j)" using lseg_frame[OF lk(1)[of j]] by blast
      qed
      have "\<And>j. lseg ?m' (heads s j) ((fl(c := remove1 x (fl c))) j) \<and>
                 distinct ((fl(c := remove1 x (fl c))) j)"
      proof -
        fix j
        show "lseg ?m' (heads s j) ((fl(c := remove1 x (fl c))) j) \<and>
                 distinct ((fl(c := remove1 x (fl c))) j)"
          using oth[of j] y(4) lk(2)[of j] by (cases "j = c") (auto simp: distinct_remove1)
      qed
      then have "lists_ok (mem s') (heads s') (fl(c := remove1 x (fl c))) (F - {(x, sz)})"
        unfolding lists_ok_def f using memb' by blast
      moreover have "\<exists>y v. y \<in> fst ` (F - {(x, sz)}) \<and> mem s' = PUTL (mem s) y v"
        unfolding f using yF by blast
      ultimately show ?thesis using d f(3-6) by blast
    qed
  next
    case False
    then have cks: "c \<in> set ks" using Cons.prems by simp
    have xk: "x \<notin> set (fl k)" using lists_ok_class[OF ok g _ x] c(1) False by auto
    have "heads s k \<noteq> x" using lseg_head[OF lk(1)[of k]] xk x0(1) by auto
    moreover have "delete_walk ?m (heads s k) x ?nk = Some None"
      by (rule delete_walk_notfound[OF lk(1)[of k] xk x0(1)])
    ultimately have "deletex_from (k # ks) x a ?nk s = deletex_from ks x a ?nk s"
      by simp
    then show ?thesis using Cons.IH[OF cks] by simp
  qed
qed

lemma class_of_range: "class_of sz \<in> set classes"
  by (simp add: class_of_def classes_def)

lemma guard_class_of: "guard (class_of sz) sz"
  by (simp add: class_of_def guard_def)

lemma deletex_ok:
  assumes "lists_ok (mem s) (heads s) fl F" "Fgood F" "(x, sz) \<in> F" "guard (class_of sz) a"
  shows "\<exists>s'. deletex x a s = Some s' \<and>
           lists_ok (mem s') (heads s') (fl(class_of sz := remove1 x (fl (class_of sz)))) (F - {(x, sz)}) \<and>
           heap_listp s' = heap_listp s \<and> mem_brk s' = mem_brk s \<and>
           mem_start_brk s' = mem_start_brk s \<and> mem_max_addr s' = mem_max_addr s \<and>
           (mem s' = mem s \<or> (\<exists>y v. y \<in> fst ` (F - {(x, sz)}) \<and> mem s' = PUTL (mem s) y v))"
  unfolding deletex_def
  by (rule deletex_from_ok[OF assms(1,2,3) refl assms(4) class_of_range])

text \<open>\<^verbatim>\<open>find_fit\<close> is first fit over the lists whose test holds, in ascending order.\<close>

lemma find_fit_from_ok:
  assumes ok: "lists_ok (mem s) (heads s) fl F" and g: "Fgood F"
  shows "find_fit_from ks a s = Some (first_fit (mem s) a (concat (map fl (filter (\<lambda>k. guard k a) ks))))"
proof (induction ks)
  case Nil
  then show ?case by simp
next
  case (Cons k ks)
  have l: "lseg (mem s) (heads s k) (fl k)" using lists_ok_lseg[OF ok] by blast
  have nz: "0 \<notin> set (fl k)" using lseg_nonzero[OF l] .
  have fw: "fit_walk (mem s) (heads s k) a = Some (first_fit (mem s) a (fl k))"
    by (rule fit_walk_lseg[OF l])
  show ?case
  proof (cases "guard k a")
    case False
    then show ?thesis using Cons.IH by simp
  next
    case True
    have ap: "first_fit (mem s) a (fl k @ concat (map fl (filter (\<lambda>k. guard k a) ks))) =
          (if first_fit (mem s) a (fl k) \<noteq> 0 then first_fit (mem s) a (fl k)
           else first_fit (mem s) a (concat (map fl (filter (\<lambda>k. guard k a) ks))))"
      by (rule first_fit_append[OF nz])
    show ?thesis
    proof (cases "first_fit (mem s) a (fl k) = 0")
      case z: True
      have "find_fit_from (k # ks) a s = find_fit_from ks a s"
        using True fw z by simp
      then show ?thesis using Cons.IH True ap z by simp
    next
      case nzr: False
      have "find_fit_from (k # ks) a s = Some (first_fit (mem s) a (fl k))"
        using True fw nzr by simp
      then show ?thesis using True ap nzr by simp
    qed
  qed
qed

section \<open>Frames\<close>

lemma agree_refl [simp]: "agree m m lo hi"
  by (simp add: agree_def)

lemma agree_trans: "agree m m' lo hi \<Longrightarrow> agree m' m'' lo hi \<Longrightarrow> agree m m'' lo hi"
  by (simp add: agree_def)

lemma agree_mono: "agree m m' lo hi \<Longrightarrow> lo \<le> lo' \<Longrightarrow> hi' \<le> hi \<Longrightarrow> agree m m' lo' hi'"
  by (simp add: agree_def)

lemma agree_PUT: "w + 4 \<le> lo \<or> hi \<le> w \<Longrightarrow> agree m (PUT m w v) lo hi"
  by (auto simp: agree_def PUT_outside)

lemma agree_PUTL: "w + 8 \<le> lo \<or> hi \<le> w \<Longrightarrow> agree m (PUTL m w v) lo hi"
  by (auto simp: agree_def PUTL_outside)

lemma agree_GET: "agree m m' lo hi \<Longrightarrow> lo \<le> w \<Longrightarrow> w + 4 \<le> hi \<Longrightarrow> GET m' w = GET m w"
  by (rule GET_frame) (simp add: agree_def)

lemma agree_GETL: "agree m m' lo hi \<Longrightarrow> lo \<le> w \<Longrightarrow> w + 8 \<le> hi \<Longrightarrow> GETL m' w = GETL m w"
  by (rule GETL_frame) (simp add: agree_def)

lemma blocks_ok_agree:
  "blocks_ok m p pa bs \<Longrightarrow> 4 \<le> p \<Longrightarrow> agree m m' (p - 4) (p + total bs - 4) \<Longrightarrow> blocks_ok m' p pa bs"
  by (rule blocks_ok_frame) (simp_all add: agree_def)

lemma tail_ok_append:
  "tail_ok m p pa (bs1 @ bs2) e \<longleftrightarrow>
     blocks_ok m p pa bs1 \<and> tail_ok m (p + total bs1) (outb pa bs1) bs2 e"
  by (auto simp: tail_ok_def blocks_ok_append)

lemma tail_ok_Cons:
  "tail_ok m p pa ((sz, a) # bs) e \<longleftrightarrow>
     16 \<le> sz \<and> 8 dvd sz \<and> GET m (p - 4) = hdw sz pa a \<and>
     (\<not> a \<longrightarrow> GET m (p + sz - 8) = hdw sz pa a) \<and> tail_ok m (p + sz) a bs e"
  by (auto simp: tail_ok_def add.assoc)

lemma tail_ok_Nil: "tail_ok m p pa [] e \<longleftrightarrow> p = e \<and> GET m (e - 4) = hdw 0 pa True"
  by (auto simp: tail_ok_def)

lemma tail_ok_le: "tail_ok m p pa bs e \<Longrightarrow> p \<le> e"
  by (auto simp: tail_ok_def)

lemma tail_ok_agree:
  assumes "tail_ok m p pa bs e" "4 \<le> p" "agree m m' (p - 4) e"
  shows "tail_ok m' p pa bs e"
proof -
  have e: "p + total bs = e" using assms(1) by (simp add: tail_ok_def)
  have "blocks_ok m' p pa bs"
    by (rule blocks_ok_agree[of m]) (use assms e in \<open>auto simp: tail_ok_def elim: agree_mono\<close>)
  moreover have "GET m' (e - 4) = GET m (e - 4)"
    by (rule agree_GET[OF assms(3)]) (use assms(2) e in auto)
  ultimately show ?thesis using assms(1) by (simp add: tail_ok_def)
qed

lemma tail_next_hdr:
  "tail_ok m q pa post e \<Longrightarrow> GET m (q - 4) = hdw (next_size post) pa (next_alloc post)"
  by (cases post) (auto simp: tail_ok_def)

lemma tail_next_size: "tail_ok m q pa post e \<Longrightarrow> 8 dvd next_size post \<and> next_size post \<le> e - q"
  by (cases post) (auto simp: tail_ok_def)

lemma hdw_PACK_more [simp]:
  "word_of_nat (PACK sz 4 (if a then 1 else 0)) = hdw sz True a"
  "word_of_nat (PACK sz 0 (if a then 1 else 0)) = hdw sz False a"
  "word_of_nat (PACK sz (if pa then 4 else 0) 1) = hdw sz pa True"
  "word_of_nat (PACK sz (if pa then 4 else 0) 0) = hdw sz pa False"
  "word_of_nat (PACK sz (if pa then 4 else 0) (if a then 1 else 0)) = hdw sz pa a"
  by (simp_all add: hdw_def)

text \<open>Rewriting the header of the block after a run (and its footer when it is free) with
  another prev-allocated bit.\<close>

lemma tail_set_prev:
  assumes t: "tail_ok m q pa post e" and q: "4 \<le> q"
    and m': "m' = (if next_alloc post then PUT m (q - 4) v
                   else PUT (PUT m (q - 4) v) (q + next_size post - 8) v)"
    and v: "word_of_nat v = hdw (next_size post) pa' (next_alloc post)"
  shows "tail_ok m' q pa' post e"
proof (cases post)
  case Nil
  then have "GET m' (q - 4) = hdw 0 pa' True" using m' v by (simp add: GET_PUT_same)
  then show ?thesis using t Nil by (simp add: tail_ok_Nil)
next
  case (Cons b post')
  obtain sz a where b: "b = (sz, a)" by (cases b)
  from t Cons b have sz: "16 \<le> sz" "8 dvd sz" and r: "tail_ok m (q + sz) a post' e"
    by (auto simp: tail_ok_Cons)
  have ag: "agree m m' (q + sz - 4) e"
  proof (cases a)
    case True
    then have "m' = PUT m (q - 4) v" using m' Cons b by simp
    then show ?thesis using sz q by (auto intro!: agree_PUT)
  next
    case False
    then have "m' = PUT (PUT m (q - 4) v) (q + sz - 8) v" using m' Cons b by simp
    moreover have "agree m (PUT m (q - 4) v) (q + sz - 4) e" using sz q by (auto intro!: agree_PUT)
    moreover have "agree (PUT m (q - 4) v) (PUT (PUT m (q - 4) v) (q + sz - 8) v) (q + sz - 4) e"
      using sz q by (auto intro!: agree_PUT)
    ultimately show ?thesis using agree_trans by metis
  qed
  have r': "tail_ok m' (q + sz) a post' e"
    by (rule tail_ok_agree[OF r]) (use ag sz in auto)
  have h: "GET m' (q - 4) = hdw sz pa' a"
  proof (cases a)
    case True
    then show ?thesis using m' v Cons b by (simp add: GET_PUT_same)
  next
    case False
    have "GET (PUT (PUT m (q - 4) v) (q + sz - 8) v) (q - 4) = GET (PUT m (q - 4) v) (q - 4)"
      by (rule GET_PUT_other) (use sz q in auto)
    then show ?thesis using m' v Cons b False by (simp add: GET_PUT_same)
  qed
  have f: "\<not> a \<Longrightarrow> GET m' (q + sz - 8) = hdw sz pa' a"
    using m' v Cons b by (simp add: GET_PUT_same)
  show ?thesis using Cons b sz h f r' by (simp add: tail_ok_Cons)
qed

text \<open>A link word written into a free block leaves the block structure alone.\<close>

lemma tail_ok_PUTL_free:
  assumes t: "tail_ok m p pa bs e" and p: "4 \<le> p" and y: "(y, s) \<in> set (frees p bs)"
  shows "tail_ok (PUTL m y v) p pa bs e"
proof -
  from frees_split[OF y] obtain pre post where bs: "bs = pre @ (s, False) # post" and yp: "y = p + total pre"
    by blast
  let ?m' = "PUTL m y v"
  from t bs yp have pre: "blocks_ok m p pa pre" and s: "16 \<le> s" "8 dvd s"
    and h: "GET m (y - 4) = hdw s (outb pa pre) False" and f: "GET m (y + s - 8) = hdw s (outb pa pre) False"
    and r: "tail_ok m (y + s) False post e"
    by (auto simp: tail_ok_append tail_ok_Cons)
  have 1: "blocks_ok ?m' p pa pre"
    by (rule blocks_ok_agree[OF pre p]) (use yp in \<open>auto intro!: agree_PUTL\<close>)
  have 2: "GET ?m' (y - 4) = GET m (y - 4)" using p yp by (auto intro!: GET_PUTL_other)
  have 3: "GET ?m' (y + s - 8) = GET m (y + s - 8)" using s by (auto intro!: GET_PUTL_other)
  have 4: "tail_ok ?m' (y + s) False post e"
    by (rule tail_ok_agree[OF r]) (use s in \<open>auto intro!: agree_PUTL\<close>)
  show ?thesis using bs yp 1 2 3 4 s h f by (simp add: tail_ok_append tail_ok_Cons)
qed

section \<open>The heap as a whole\<close>

lemma heap_ok_tail:
  "heap_ok s bs \<longleftrightarrow>
     heap_listp s = mem_start_brk s + 8 \<and> 8 dvd mem_start_brk s \<and>
     GET (mem s) (heap_listp s - 4) = hdw 8 True True \<and>
     tail_ok (mem s) (heap_listp s + 8) True bs (mem_brk s) \<and>
     mem_brk s \<le> mem_max_addr s \<and> mem_max_addr s < 18446744073709551616 \<and>
     mem_max_addr s < mem_start_brk s + 4294967296"
  by (auto simp: heap_ok_def tail_ok_def)

lemma heap_okD:
  assumes "heap_ok s bs"
  shows "heap_listp s = mem_start_brk s + 8" "8 dvd mem_start_brk s"
    "GET (mem s) (heap_listp s - 4) = hdw 8 True True"
    "blocks_ok (mem s) (heap_listp s + 8) True bs"
    "tail_ok (mem s) (heap_listp s + 8) True bs (mem_brk s)"
    "heap_listp s + 8 + total bs = mem_brk s"
    "mem_brk s \<le> mem_max_addr s" "mem_max_addr s < 18446744073709551616"
    "mem_max_addr s < mem_start_brk s + 4294967296"
  using assms unfolding heap_ok_def tail_ok_def by blast+

lemma heap_ok_bounds:
  assumes "heap_ok s bs"
  shows "16 \<le> heap_listp s + 8" "8 dvd (heap_listp s + 8)" "total bs < 4294967296"
    "heap_listp s + 8 + total bs = mem_brk s" "mem_brk s < 18446744073709551616"
  using heap_okD[OF assms] by auto

lemma heap_ok_frees:
  assumes "heap_ok s bs" "(x, sz) \<in> set (frees (heap_listp s + 8) bs)"
  shows "8 dvd x" "16 \<le> x" "x + sz \<le> mem_brk s" "16 \<le> sz" "8 dvd sz" "sz < 4294967296"
    "x < 18446744073709551616" "heap_listp s + 8 \<le> x"
proof -
  have b: "blocks_ok (mem s) (heap_listp s + 8) True bs" using heap_okD[OF assms(1)] by blast
  from frees_range[OF b assms(2)] frees_dvd[OF b _ assms(2)] heap_ok_bounds[OF assms(1)]
  show "8 dvd x" "16 \<le> x" "x + sz \<le> mem_brk s" "16 \<le> sz" "8 dvd sz" "sz < 4294967296"
    "x < 18446744073709551616" "heap_listp s + 8 \<le> x" by auto
qed

lemma heap_ok_Fgood:
  assumes "heap_ok s bs" "F \<subseteq> set (frees (heap_listp s + 8) bs)"
  shows "Fgood F"
proof -
  have b: "blocks_ok (mem s) (heap_listp s + 8) True bs" using heap_okD[OF assms(1)] by blast
  have 1: "\<forall>(x, sz) \<in> set (frees (heap_listp s + 8) bs). 8 dvd x \<and> x \<noteq> 0 \<and> x < 18446744073709551616"
    using heap_ok_frees[OF assms(1)] by fastforce
  have 2: "\<forall>x s1 s2. (x, s1) \<in> set (frees (heap_listp s + 8) bs) \<longrightarrow> (x, s2) \<in> set (frees (heap_listp s + 8) bs) \<longrightarrow> s1 = s2"
    using frees_unique[OF b] by blast
  have "Fgood (set (frees (heap_listp s + 8) bs))"
    unfolding Fgood_def using 1 2 by blast
  then show ?thesis using assms(2) by (rule Fgood_subset)
qed

lemma heap_ok_PUTL_free:
  assumes "heap_ok s bs" "(y, sz) \<in> set (frees (heap_listp s + 8) bs)"
    "mem s' = PUTL (mem s) y v" "heap_listp s' = heap_listp s" "mem_brk s' = mem_brk s"
    "mem_start_brk s' = mem_start_brk s" "mem_max_addr s' = mem_max_addr s"
  shows "heap_ok s' bs"
proof -
  note d = heap_okD[OF assms(1)]
  have y: "heap_listp s + 8 \<le> y" using heap_ok_frees[OF assms(1,2)] by simp
  have 1: "GET (PUTL (mem s) y v) (heap_listp s - 4) = GET (mem s) (heap_listp s - 4)"
    by (rule GET_PUTL_other) (use y d(1) in linarith)
  have 2: "tail_ok (PUTL (mem s) y v) (heap_listp s + 8) True bs (mem_brk s)"
    by (rule tail_ok_PUTL_free[OF d(5) _ assms(2)]) simp
  show ?thesis unfolding heap_ok_tail assms(3-7) using 1 2 d by simp
qed

section \<open>List operations on a well-formed heap\<close>

lemma deletex_heap:
  assumes h: "heap_ok s bs" and l: "lists_ok (mem s) (heads s) fl F"
    and F: "F \<subseteq> set (frees (heap_listp s + 8) bs)" and x: "(x, sz) \<in> F" and g: "guard (class_of sz) a"
  shows "\<exists>s'. deletex x a s = Some s' \<and> heap_ok s' bs \<and>
           lists_ok (mem s') (heads s') (fl(class_of sz := remove1 x (fl (class_of sz)))) (F - {(x, sz)}) \<and>
           heap_listp s' = heap_listp s \<and> mem_brk s' = mem_brk s \<and>
           mem_start_brk s' = mem_start_brk s \<and> mem_max_addr s' = mem_max_addr s"
proof -
  have gF: "Fgood F" by (rule heap_ok_Fgood[OF h F])
  from deletex_ok[OF l gF x g] obtain s' where s':
    "deletex x a s = Some s'"
    "lists_ok (mem s') (heads s') (fl(class_of sz := remove1 x (fl (class_of sz)))) (F - {(x, sz)})"
    "heap_listp s' = heap_listp s" "mem_brk s' = mem_brk s"
    "mem_start_brk s' = mem_start_brk s" "mem_max_addr s' = mem_max_addr s"
    "mem s' = mem s \<or> (\<exists>y v. y \<in> fst ` (F - {(x, sz)}) \<and> mem s' = PUTL (mem s) y v)"
    by blast
  have "heap_ok s' bs"
  proof (cases "mem s' = mem s")
    case True
    show ?thesis using h unfolding heap_ok_def True s'(3-6) .
  next
    case False
    then obtain y v where y: "y \<in> fst ` (F - {(x, sz)})" "mem s' = PUTL (mem s) y v"
      using s'(7) by blast
    then obtain sy where "(y, sy) \<in> F" by fastforce
    then have "(y, sy) \<in> set (frees (heap_listp s + 8) bs)" using F by blast
    then show ?thesis using heap_ok_PUTL_free[OF h _ y(2) s'(3-6)] by blast
  qed
  then show ?thesis using s' by blast
qed

lemma insertx_heap:
  assumes "heap_ok s bs" "(x, sz) \<in> set (frees (heap_listp s + 8) bs)"
  shows "heap_ok (insertx x a s) bs"
  by (rule heap_ok_PUTL_free[OF assms]) (simp_all add: insertx_def Let_def)

text \<open>Link words of free blocks before and after a region that is being rewritten.\<close>

lemma lists_frame_region:
  assumes l: "lists_ok m hs fl F"
    and F: "F \<subseteq> set (frees p0 pre) \<union> set (frees q post)"
    and b1: "blocks_ok m p0 pa pre" and b2: "blocks_ok m q pb post"
    and y: "y = p0 + total pre" "y \<le> q" "q + total post \<le> e"
    and a1: "agree m m' p0 (y - 4)" and a2: "agree m m' q e"
  shows "lists_ok m' hs fl F"
proof (rule lists_ok_frame[OF l])
  fix z sz assume "(z, sz) \<in> F"
  then consider "(z, sz) \<in> set (frees p0 pre)" | "(z, sz) \<in> set (frees q post)" using F by blast
  then show "GETL m' z = GETL m z"
  proof cases
    case 1
    from frees_range[OF b1 1] y have "p0 \<le> z" "z + 8 \<le> y - 4" by auto
    then show ?thesis using agree_GETL[OF a1] by blast
  next
    case 2
    from frees_range[OF b2 2] y have "q \<le> z" "z + 8 \<le> e" by auto
    then show ?thesis using agree_GETL[OF a2] by blast
  qed
qed

lemma blocks_all_free_total:
  "blocks_ok m p pa mid \<Longrightarrow> mid \<noteq> [] \<Longrightarrow> 16 \<le> total mid \<and> 8 dvd total mid"
  by (induction mid arbitrary: p pa) (auto dest: blocks_ok_total_dvd)

lemma outb_all_free: "mid \<noteq> [] \<Longrightarrow> \<forall>b \<in> set mid. \<not> snd b \<Longrightarrow> outb pa mid = False"
  by (induction mid arbitrary: pa) (auto simp: outb_def)

text \<open>A run of free blocks becomes one free block once header and footer are written.\<close>

lemma merge_tail:
  assumes t: "tail_ok m p0 True (pre @ mid @ post) e" and p0: "4 \<le> p0"
    and mid: "mid \<noteq> []" "\<forall>b \<in> set mid. \<not> snd b" and op: "outb True pre"
    and y: "y = p0 + total pre" and S: "S = total mid"
    and h: "GET m' (y - 4) = hdw S True False" and f: "GET m' (y + S - 8) = hdw S True False"
    and a1: "agree m m' (p0 - 4) (y - 4)" and a2: "agree m m' (y + S - 4) e"
  shows "tail_ok m' p0 True (pre @ (S, False) # post) e"
proof -
  from t y S have pre: "blocks_ok m p0 True pre" and md: "blocks_ok m y (outb True pre) mid"
    and r: "tail_ok m (y + S) (outb (outb True pre) mid) post e"
    by (auto simp: tail_ok_append blocks_ok_append tail_ok_def add.assoc)
  have S16: "16 \<le> S" "8 dvd S" using blocks_all_free_total[OF md mid(1)] S by auto
  have o: "outb (outb True pre) mid = False" by (rule outb_all_free[OF mid])
  have 1: "blocks_ok m' p0 True pre"
    by (rule blocks_ok_agree[OF pre p0]) (use a1 y in simp)
  have 2: "tail_ok m' (y + S) False post e"
    by (rule tail_ok_agree[OF r[unfolded o]]) (use a2 p0 y in auto)
  show ?thesis using 1 2 h f op S16 y by (simp add: tail_ok_append tail_ok_Cons)
qed

lemma frees_all_free: "\<forall>b \<in> set bs. snd b \<Longrightarrow> frees p bs = []"
  by (induction bs arbitrary: p) auto

lemma allocs_all_free: "\<forall>b \<in> set bs. \<not> snd b \<Longrightarrow> allocs p bs = []"
  by (induction bs arbitrary: p) auto

lemma naf_next: "naf True post \<Longrightarrow> next_alloc post \<Longrightarrow> naf False post"
  by (cases post) auto

text \<open>The last steps of \<^verbatim>\<open>coalesce\<close>, common to its four cases: the neighbours to merge
  are off their lists, header and footer of the merged block are written, and the block
  is inserted.\<close>

lemma coalesce_finish:
  assumes h: "heap_ok s1 (pre @ mid @ post)"
    and l: "lists_ok (mem s1) (heads s1) fl1 (set (frees (heap_listp s1 + 8) pre) \<union> set (frees (y + S) post))"
    and mid: "mid \<noteq> []" "\<forall>b \<in> set mid. \<not> snd b"
    and op: "outb True pre" and n1: "naf True pre" and n2: "naf True post" and na: "next_alloc post"
    and y: "y = heap_listp s1 + 8 + total pre" and S: "S = total mid"
    and hd: "GET m2 (y - 4) = hdw S True False" and ft: "GET m2 (y + S - 8) = hdw S True False"
    and a1: "agree (mem s1) m2 (heap_listp s1 - 4) (y - 4)" and a2: "agree (mem s1) m2 (y + S - 4) (mem_brk s1)"
  shows "Inv (insertx y S (s1\<lparr>mem := m2\<rparr>)) (pre @ (S, False) # post)
           (fl1(class_of S := y # fl1 (class_of S)))"
proof -
  let ?p0 = "heap_listp s1 + 8" and ?s2 = "s1\<lparr>mem := m2\<rparr>"
  let ?bs' = "pre @ (S, False) # post"
  note d = heap_okD[OF h]
  have t: "tail_ok m2 ?p0 True ?bs' (mem_brk s1)"
    by (rule merge_tail[OF d(5) _ mid op y S hd ft]) (use a1 a2 in \<open>auto elim: agree_mono\<close>)
  have pro: "GET m2 (heap_listp s1 - 4) = GET (mem s1) (heap_listp s1 - 4)"
    by (rule agree_GET[OF a1]) (use y d(1) in auto)
  have h2: "heap_ok ?s2 ?bs'"
    unfolding heap_ok_tail using t pro d by simp
  have xin: "(y, S) \<in> set (frees ?p0 ?bs')" using y by simp
  have h3: "heap_ok (insertx y S ?s2) ?bs'"
    using insertx_heap[OF h2, of y S S] xin by simp
  have bpre: "blocks_ok (mem s1) ?p0 True pre" and bpost: "blocks_ok (mem s1) (y + S) False post"
    and tot: "y + S + total post = mem_brk s1"
    using d(4,6) y S outb_all_free[OF mid, of "outb True pre"]
    by (auto simp: blocks_ok_append add.assoc)
  let ?F1 = "set (frees ?p0 pre) \<union> set (frees (y + S) post)"
  have l2: "lists_ok m2 (heads s1) fl1 ?F1"
    by (rule lists_frame_region[OF l subset_refl bpre bpost y])
       (use a1 a2 tot in \<open>auto elim: agree_mono\<close>)
  have F1sub: "?F1 \<subseteq> set (frees ?p0 ?bs')" using y by auto
  have g1: "Fgood ?F1" using heap_ok_Fgood[OF h2] F1sub by simp
  have ynot: "y \<notin> fst ` ?F1"
  proof
    assume "y \<in> fst ` ?F1"
    then obtain sy where "(y, sy) \<in> ?F1" by fastforce
    then have "(y, sy) \<in> set (frees ?p0 pre) \<or> (y, sy) \<in> set (frees (y + S) post)" by blast
    then show False
      using frees_range[OF bpre, of y sy] frees_range[OF bpost, of y sy] y
        blocks_all_free_total[of "mem s1" y "outb True pre" mid] d(4) mid(1) S
      by (auto simp: blocks_ok_append)
  qed
  have yal: "8 dvd y" "y \<noteq> 0" using heap_ok_frees[OF h2, of y S] xin by auto
  have l3: "lists_ok (mem (insertx y S ?s2)) (heads (insertx y S ?s2))
              (fl1(class_of S := y # fl1 (class_of S))) (insert (y, S) ?F1)"
    by (rule insertx_lists_ok) (use l2 g1 ynot yal in simp_all)
  have Feq: "insert (y, S) ?F1 = set (frees (heap_listp (insertx y S ?s2) + 8) ?bs')"
    using y by auto
  have nf: "naf True ?bs'" using n1 n2 op na by (simp add: naf_append naf_next)
  show ?thesis unfolding Inv_def using h3 nf l3 Feq by simp
qed

section \<open>Reading the block structure\<close>

lemma heap_block_at:
  assumes h: "heap_ok s (pre @ (sz, a) # post)" and x: "x = heap_listp s + 8 + total pre"
  shows "GET (mem s) (x - 4) = hdw sz (outb True pre) a"
    "\<not> a \<Longrightarrow> GET (mem s) (x + sz - 8) = hdw sz (outb True pre) a"
    "16 \<le> sz" "8 dvd sz" "sz < 4294967296" "16 \<le> x" "8 dvd x"
    "GET (mem s) (x + sz - 4) = hdw (next_size post) a (next_alloc post)"
    "8 dvd next_size post" "next_size post < 4294967296" "sz + next_size post < 4294967296"
    "x + sz + total post = mem_brk s" "x + sz \<le> mem_brk s"
    "GET_SIZE (mem s) (x - 4) = sz" "PREVX (mem s) (x - 4) = (if outb True pre then 4 else 0)"
    "GET_ALLOC (mem s) (x - 4) = (if a then 1 else 0)"
    "GET_SIZE (mem s) (x + sz - 4) = next_size post"
    "GET_ALLOC (mem s) (x + sz - 4) = (if next_alloc post then 1 else 0)"
    "\<not> a \<Longrightarrow> GET_SIZE (mem s) (x + sz - 8) = sz"
proof -
  note d = heap_okD[OF h] and b = heap_ok_bounds[OF h]
  from d(5) x have t: "tail_ok (mem s) x (outb True pre) ((sz, a) # post) (mem_brk s)"
    and bp: "blocks_ok (mem s) (heap_listp s + 8) True pre"
    by (auto simp: tail_ok_append)
  then have r: "tail_ok (mem s) (x + sz) a post (mem_brk s)" by (simp add: tail_ok_Cons)
  show 1: "GET (mem s) (x - 4) = hdw sz (outb True pre) a" and 3: "16 \<le> sz" and 4: "8 dvd sz"
    using t by (auto simp: tail_ok_Cons)
  show 2: "\<not> a \<Longrightarrow> GET (mem s) (x + sz - 8) = hdw sz (outb True pre) a"
    using t by (auto simp: tail_ok_Cons)
  show 5: "sz < 4294967296" using b(3) by simp
  show "16 \<le> x" using x b(1) by simp
  show "8 dvd x" using x b(2) blocks_ok_total_dvd[OF bp] by simp
  show 8: "GET (mem s) (x + sz - 4) = hdw (next_size post) a (next_alloc post)"
    using tail_next_hdr[OF r] by simp
  show 9: "8 dvd next_size post" using tail_next_size[OF r] by simp
  have ns: "next_size post \<le> total post" by (cases post) auto
  show 10: "next_size post < 4294967296" using ns b(3) by simp
  show "sz + next_size post < 4294967296" using ns b(3) by simp
  show "x + sz + total post = mem_brk s" "x + sz \<le> mem_brk s" using x b(4) by auto
  show "GET_SIZE (mem s) (x - 4) = sz" "PREVX (mem s) (x - 4) = (if outb True pre then 4 else 0)"
    "GET_ALLOC (mem s) (x - 4) = (if a then 1 else 0)"
    using read_hdw[OF 1 4 5] by auto
  show "GET_SIZE (mem s) (x + sz - 4) = next_size post"
    "GET_ALLOC (mem s) (x + sz - 4) = (if next_alloc post then 1 else 0)"
    using read_hdw[OF 8 9 10] by auto
  show "\<not> a \<Longrightarrow> GET_SIZE (mem s) (x + sz - 8) = sz"
    using read_hdw(1)[OF 2 4 5] by simp
qed

lemma outb_False_last: "\<not> outb True pre \<Longrightarrow> \<exists>pre' k. pre = pre' @ [(k, False)]"
proof (cases pre rule: rev_cases)
  case Nil
  assume "\<not> outb True pre"
  then show ?thesis using Nil by simp
next
  case (snoc ys b)
  assume "\<not> outb True pre"
  then show ?thesis using snoc by (cases b) (auto simp: outb_def)
qed

lemma next_alloc_False: "\<not> next_alloc post \<Longrightarrow> \<exists>k post'. post = (k, False) # post'"
  by (cases post) auto

lemma naf_snoc_free: "naf True (pre' @ [(k, False)]) \<Longrightarrow> outb True pre' \<and> naf True pre'"
  by (simp add: naf_append)

lemma naf_Cons_free: "naf True ((k, False) # post') \<Longrightarrow> next_alloc post' \<and> naf True post'"
  by (cases post') auto

section \<open>Coalescing\<close>

lemma coalesce_case1:
  assumes h: "heap_ok s (pre @ (sz, False) # post)" and x: "x = heap_listp s + 8 + total pre"
    and n1: "naf True pre" and n2: "naf True post"
    and l: "lists_ok (mem s) (heads s) fl (set (frees (heap_listp s + 8) pre) \<union> set (frees (x + sz) post))"
    and op: "outb True pre" and na: "next_alloc post"
  shows "coalesce x s = Some (x, insertx x sz s)"
    and "Inv (insertx x sz s) (pre @ (sz, False) # post) (fl(class_of sz := x # fl (class_of sz)))"
proof -
  note r = heap_block_at[OF h x]
  show "coalesce x s = Some (x, insertx x sz s)"
    unfolding coalesce_def Let_def HDRP_def NEXT_BLKP_def
    using r(14,15,18) op na by simp
  have "Inv (insertx x sz (s\<lparr>mem := mem s\<rparr>)) (pre @ (sz, False) # post)
          (fl(class_of sz := x # fl (class_of sz)))"
    by (rule coalesce_finish[where mid = "[(sz, False)]"])
       (use h l op n1 n2 na x r(1,2) in simp_all)
  then show "Inv (insertx x sz s) (pre @ (sz, False) # post) (fl(class_of sz := x # fl (class_of sz)))"
    by simp
qed

lemma frees_below: "blocks_ok m p pa bs \<Longrightarrow> (z, s) \<in> set (frees p bs) \<Longrightarrow> p + total bs \<le> q \<Longrightarrow> z < q"
  using frees_range by fastforce

lemma coalesce_case2:
  assumes h: "heap_ok s (pre @ (sz, False) # (k, False) # post')" and x: "x = heap_listp s + 8 + total pre"
    and n1: "naf True pre" and n2: "naf True ((k, False) # post')"
    and l: "lists_ok (mem s) (heads s) fl (set (frees (heap_listp s + 8) pre) \<union> set (frees (x + sz) ((k, False) # post')))"
    and op: "outb True pre"
  shows "\<exists>s' fl'. coalesce x s = Some (x, s') \<and> Inv s' (pre @ (sz + k, False) # post') fl' \<and>
           heap_listp s' = heap_listp s \<and> mem_brk s' = mem_brk s \<and>
           mem_start_brk s' = mem_start_brk s \<and> mem_max_addr s' = mem_max_addr s"
proof -
  let ?bs = "pre @ (sz, False) # (k, False) # post'" and ?p0 = "heap_listp s + 8"
  let ?F = "set (frees ?p0 pre) \<union> set (frees (x + sz) ((k, False) # post'))"
  note r = heap_block_at[OF h x]
  have Fsub: "?F \<subseteq> set (frees ?p0 ?bs)" using x by auto
  have kin: "(x + sz, k) \<in> ?F" by simp
  from deletex_heap[OF h l Fsub kin guard_class_of] obtain s1 where s1:
    "deletex (x + sz) k s = Some s1" "heap_ok s1 ?bs"
    "lists_ok (mem s1) (heads s1) (fl(class_of k := remove1 (x + sz) (fl (class_of k)))) (?F - {(x + sz, k)})"
    "heap_listp s1 = heap_listp s" "mem_brk s1 = mem_brk s"
    "mem_start_brk s1 = mem_start_brk s" "mem_max_addr s1 = mem_max_addr s" by blast
  have x1: "x = heap_listp s1 + 8 + total pre" using x s1(4) by simp
  note r1 = heap_block_at[OF s1(2) x1]
  note d = heap_okD[OF h]
  have bpre: "blocks_ok (mem s) ?p0 True pre" and bpost: "blocks_ok (mem s) (x + sz + k) False post'"
    using d(4) x by (auto simp: blocks_ok_append add.assoc)
  have F1: "?F - {(x + sz, k)} = set (frees (heap_listp s1 + 8) pre) \<union> set (frees (x + (sz + k)) post')"
  proof -
    have "(x + sz, k) \<notin> set (frees ?p0 pre)" using frees_range[OF bpre, of "x + sz" k] x r(3) by auto
    moreover have "(x + sz, k) \<notin> set (frees (x + sz + k) post')"
      using frees_range[OF bpost, of "x + sz" k] r1(9) by (auto dest: frees_range[OF bpost])
    ultimately show ?thesis using s1(4) by (auto simp: add.assoc)
  qed
  define S where "S = sz + k"
  define m1 where "m1 = PUT (mem s1) (x - 4) (PACK S 4 0)"
  define m2 where "m2 = PUT m1 (x + S - 8) (PACK S 4 0)"
  have k16: "16 \<le> k" "8 dvd k" using d(4) x by (auto simp: blocks_ok_append)
  have S8: "8 dvd S" "S < 4294967296" "16 \<le> S" using r(4,11) k16 by (auto simp: S_def)
  have g1: "GET m1 (x - 4) = hdw S True False" by (simp add: m1_def GET_PUT_same)
  have sz1: "GET_SIZE m1 (x - 4) = S" using read_hdw(1)[OF g1 S8(1,2)] .
  have hd: "GET m2 (x - 4) = hdw S True False"
    unfolding m2_def using g1 S8(3) r(6) by (subst GET_PUT_other) auto
  have ft: "GET m2 (x + S - 8) = hdw S True False" by (simp add: m2_def GET_PUT_same)
  have a1: "agree (mem s1) m2 (heap_listp s1 - 4) (x - 4)"
    unfolding m2_def m1_def
    by (rule agree_trans[OF agree_PUT agree_PUT]) (use S8(3) r(6) in auto)
  have a2: "agree (mem s1) m2 (x + S - 4) (mem_brk s1)"
    unfolding m2_def m1_def
    by (rule agree_trans[OF agree_PUT agree_PUT]) (use S8(3) r(6) in auto)
  have co: "coalesce x s = Some (x, insertx x S (s1\<lparr>mem := m2\<rparr>))"
    unfolding coalesce_def Let_def HDRP_def NEXT_BLKP_def FTRP_def
    using r(14,15,17,18) op s1(1) sz1 by (simp add: m2_def m1_def S_def)
  have n2': "next_alloc post'" "naf True post'" using naf_Cons_free[OF n2] by auto
  have inv: "Inv (insertx x S (s1\<lparr>mem := m2\<rparr>)) (pre @ (S, False) # post')
               ((fl(class_of k := remove1 (x + sz) (fl (class_of k))))
                  (class_of S := x # (fl(class_of k := remove1 (x + sz) (fl (class_of k)))) (class_of S)))"
    by (rule coalesce_finish[where mid = "[(sz, False), (k, False)]"])
       (use s1(2) s1(3)[unfolded F1] op n1 n2' x1 hd ft a1 a2 in \<open>simp_all add: S_def\<close>)
  define s' where "s' = insertx x S (s1\<lparr>mem := m2\<rparr>)"
  have f: "heap_listp s' = heap_listp s" "mem_brk s' = mem_brk s"
    "mem_start_brk s' = mem_start_brk s" "mem_max_addr s' = mem_max_addr s"
    using s1(4-7) by (simp_all add: s'_def)
  have co': "coalesce x s = Some (x, s')" using co by (simp add: s'_def)
  have "\<exists>fl'. Inv s' (pre @ (sz + k, False) # post') fl'"
    using inv unfolding s'_def S_def by blast
  then show ?thesis using co' f by blast
qed

lemma coalesce_case3:
  assumes h: "heap_ok s (pre' @ (k, False) # (sz, False) # post)"
    and y: "y = heap_listp s + 8 + total pre'" and x: "x = y + k"
    and n1: "naf True (pre' @ [(k, False)])" and n2: "naf True post" and na: "next_alloc post"
    and l: "lists_ok (mem s) (heads s) fl
              (set (frees (heap_listp s + 8) (pre' @ [(k, False)])) \<union> set (frees (x + sz) post))"
  shows "\<exists>s' fl'. coalesce x s = Some (y, s') \<and> Inv s' (pre' @ (k + sz, False) # post) fl' \<and>
           heap_listp s' = heap_listp s \<and> mem_brk s' = mem_brk s \<and>
           mem_start_brk s' = mem_start_brk s \<and> mem_max_addr s' = mem_max_addr s"
proof -
  let ?bs = "pre' @ (k, False) # (sz, False) # post" and ?p0 = "heap_listp s + 8"
  let ?F = "set (frees ?p0 (pre' @ [(k, False)])) \<union> set (frees (x + sz) post)"
  have h': "heap_ok s ((pre' @ [(k, False)]) @ (sz, False) # post)" using h by simp
  have x': "x = heap_listp s + 8 + total (pre' @ [(k, False)])" using x y by simp
  note ry = heap_block_at[OF h y] and rx = heap_block_at[OF h' x']
  have op: "outb True pre'" "naf True pre'" using naf_snoc_free[OF n1] by auto
  have Fsub: "?F \<subseteq> set (frees ?p0 ?bs)" using x y by auto
  have kin: "(y, k) \<in> ?F" using y by simp
  from deletex_heap[OF h l Fsub kin guard_class_of] obtain s1 where s1:
    "deletex y k s = Some s1" "heap_ok s1 ?bs"
    "lists_ok (mem s1) (heads s1) (fl(class_of k := remove1 y (fl (class_of k)))) (?F - {(y, k)})"
    "heap_listp s1 = heap_listp s" "mem_brk s1 = mem_brk s"
    "mem_start_brk s1 = mem_start_brk s" "mem_max_addr s1 = mem_max_addr s" by blast
  have y1: "y = heap_listp s1 + 8 + total pre'" using y s1(4) by simp
  have h1': "heap_ok s1 ((pre' @ [(k, False)]) @ (sz, False) # post)" using s1(2) by simp
  have x1': "x = heap_listp s1 + 8 + total (pre' @ [(k, False)])" using x y1 by simp
  note ry1 = heap_block_at[OF s1(2) y1] and rx1 = heap_block_at[OF h1' x1']
  note d = heap_okD[OF h]
  have bpre: "blocks_ok (mem s) ?p0 True pre'" and bpost: "blocks_ok (mem s) (x + sz) False post"
    using d(4) x y by (auto simp: blocks_ok_append add.assoc)
  have F1: "?F - {(y, k)} = set (frees (heap_listp s1 + 8) pre') \<union> set (frees (y + (k + sz)) post)"
  proof -
    have "(y, k) \<notin> set (frees ?p0 pre')" using frees_range[OF bpre, of y k] y ry(3) by auto
    moreover have "(y, k) \<notin> set (frees (x + sz) post)"
      using frees_range[OF bpost, of y k] x ry(3) by auto
    ultimately show ?thesis using s1(4) x y by (auto simp: add.assoc)
  qed
  define S where "S = sz + k"
  define m1 where "m1 = PUT (mem s1) (x + sz - 8) (PACK S 4 0)"
  define m2 where "m2 = PUT m1 (y - 4) (PACK S 4 0)"
  have S8: "8 dvd S" "S < 4294967296" "16 \<le> S" "S = k + sz" using ry(4,11) rx(3,4) by (auto simp: S_def)
  have fk: "GET_SIZE (mem s) (x - 8) = k" using ry(19) x by simp
  have fk1: "GET_SIZE (mem s1) (x - 8) = k" using ry1(19) x by simp
  have g1: "GET m1 (x - 8) = GET (mem s1) (x - 8)"
    unfolding m1_def by (rule GET_PUT_other) (use rx(3) in auto)
  have fk2: "GET_SIZE m1 (x - 8) = k" using fk1 g1 by (simp add: GET_SIZE_def)
  have g2: "GET m2 (x - 8) = GET m1 (x - 8)"
    unfolding m2_def by (rule GET_PUT_other) (use ry(3,6) x in auto)
  have fk3: "GET_SIZE m2 (x - 8) = k" using fk2 g2 by (simp add: GET_SIZE_def)
  have prevs: "PREV_BLKP (mem s) x = y" "PREV_BLKP m1 x = y" "PREV_BLKP m2 x = y"
    using fk fk2 fk3 x by (simp_all add: PREV_BLKP_def)
  have ftrp: "FTRP (mem s1) x = x + sz - 8" using rx1(14) by (simp add: FTRP_def HDRP_def)
  have hd: "GET m2 (y - 4) = hdw S True False" by (simp add: m2_def GET_PUT_same)
  have ft: "GET m2 (x + sz - 8) = hdw S True False"
    unfolding m2_def m1_def using ry(3,6) x by (subst GET_PUT_other) (auto simp: GET_PUT_same)
  have a1: "agree (mem s1) m2 (heap_listp s1 - 4) (y - 4)"
    unfolding m2_def m1_def
    by (rule agree_trans[OF agree_PUT agree_PUT]) (use x ry(3,6) in auto)
  have a2: "agree (mem s1) m2 (x + sz - 4) (mem_brk s1)"
    unfolding m2_def m1_def
    by (rule agree_trans[OF agree_PUT agree_PUT]) (use x ry(6) rx(3) in auto)
  have co: "coalesce x s = Some (y, insertx y S (s1\<lparr>mem := m2\<rparr>))"
    unfolding coalesce_def Let_def
    using rx(15,18) na prevs ftrp s1(1) ry(14) rx(14)
    by (simp add: HDRP_def NEXT_BLKP_def m2_def[symmetric] m1_def[symmetric] S_def[symmetric])
  have inv: "Inv (insertx y S (s1\<lparr>mem := m2\<rparr>)) (pre' @ (S, False) # post)
               ((fl(class_of k := remove1 y (fl (class_of k))))
                  (class_of S := y # (fl(class_of k := remove1 y (fl (class_of k)))) (class_of S)))"
    by (rule coalesce_finish[where mid = "[(k, False), (sz, False)]"])
       (use s1(2) s1(3)[unfolded F1] op n2 na y1 hd ft a1 a2 x S8(4) in \<open>simp_all add: add.assoc\<close>)
  define s' where "s' = insertx y S (s1\<lparr>mem := m2\<rparr>)"
  have f: "heap_listp s' = heap_listp s" "mem_brk s' = mem_brk s"
    "mem_start_brk s' = mem_start_brk s" "mem_max_addr s' = mem_max_addr s"
    using s1(4-7) by (simp_all add: s'_def)
  have co': "coalesce x s = Some (y, s')" using co by (simp add: s'_def)
  have "\<exists>fl'. Inv s' (pre' @ (k + sz, False) # post) fl'"
    using inv unfolding s'_def S8(4) by blast
  then show ?thesis using co' f by blast
qed

lemma coalesce_case4:
  assumes h: "heap_ok s (pre' @ (t1, False) # (sz, False) # (t2, False) # post')"
    and y: "y = heap_listp s + 8 + total pre'" and x: "x = y + t1"
    and n1: "naf True (pre' @ [(t1, False)])" and n2: "naf True ((t2, False) # post')"
    and l: "lists_ok (mem s) (heads s) fl
              (set (frees (heap_listp s + 8) (pre' @ [(t1, False)])) \<union>
               set (frees (x + sz) ((t2, False) # post')))"
  shows "\<exists>s' fl'. coalesce x s = Some (y, s') \<and> Inv s' (pre' @ (t1 + sz + t2, False) # post') fl' \<and>
           heap_listp s' = heap_listp s \<and> mem_brk s' = mem_brk s \<and>
           mem_start_brk s' = mem_start_brk s \<and> mem_max_addr s' = mem_max_addr s"
proof -
  let ?bs = "pre' @ (t1, False) # (sz, False) # (t2, False) # post'" and ?p0 = "heap_listp s + 8"
  let ?F = "set (frees ?p0 (pre' @ [(t1, False)])) \<union> set (frees (x + sz) ((t2, False) # post'))"
  define z where "z = x + sz"
  have hx: "heap_ok s ((pre' @ [(t1, False)]) @ (sz, False) # (t2, False) # post')" using h by simp
  have hz: "heap_ok s ((pre' @ [(t1, False), (sz, False)]) @ (t2, False) # post')" using h by simp
  have xx: "x = heap_listp s + 8 + total (pre' @ [(t1, False)])" using x y by simp
  have zz: "z = heap_listp s + 8 + total (pre' @ [(t1, False), (sz, False)])" using x y z_def by simp
  note ry = heap_block_at[OF h y] and rx = heap_block_at[OF hx xx] and rz = heap_block_at[OF hz zz]
  have op: "outb True pre'" "naf True pre'" using naf_snoc_free[OF n1] by auto
  have n2': "next_alloc post'" "naf True post'" using naf_Cons_free[OF n2] by auto
  have Fsub: "?F \<subseteq> set (frees ?p0 ?bs)" using x y by auto
  have kin: "(y, t1) \<in> ?F" using y by simp
  from deletex_heap[OF h l Fsub kin guard_class_of] obtain s1 where s1:
    "deletex y t1 s = Some s1" "heap_ok s1 ?bs"
    "lists_ok (mem s1) (heads s1) (fl(class_of t1 := remove1 y (fl (class_of t1)))) (?F - {(y, t1)})"
    "heap_listp s1 = heap_listp s" "mem_brk s1 = mem_brk s"
    "mem_start_brk s1 = mem_start_brk s" "mem_max_addr s1 = mem_max_addr s" by blast
  let ?fl1 = "fl(class_of t1 := remove1 y (fl (class_of t1)))"
  note d = heap_okD[OF h]
  have bpre: "blocks_ok (mem s) ?p0 True pre'" and bpost: "blocks_ok (mem s) (z + t2) False post'"
    using d(4) x y z_def by (auto simp: blocks_ok_append add.assoc)
  have ny: "(y, t1) \<notin> set (frees ?p0 pre')" "(y, t1) \<notin> set (frees (z + t2) post')" "y \<noteq> z"
    using frees_range[OF bpre, of y t1] frees_range[OF bpost, of y t1] y x z_def ry(3) by auto
  have nz: "(z, t2) \<notin> set (frees ?p0 pre')" "(z, t2) \<notin> set (frees (z + t2) post')"
    using frees_range[OF bpre, of z t2] frees_range[OF bpost, of z t2] y x z_def ry(3) rz(3) by auto
  have Fsub1: "?F - {(y, t1)} \<subseteq> set (frees (heap_listp s1 + 8) ?bs)" using Fsub s1(4) by auto
  have zin: "(z, t2) \<in> ?F - {(y, t1)}" using ny z_def by simp
  from deletex_heap[OF s1(2) s1(3) Fsub1 zin guard_class_of] obtain s2 where s2:
    "deletex z t2 s1 = Some s2" "heap_ok s2 ?bs"
    "lists_ok (mem s2) (heads s2) (?fl1(class_of t2 := remove1 z (?fl1 (class_of t2)))) (?F - {(y, t1)} - {(z, t2)})"
    "heap_listp s2 = heap_listp s1" "mem_brk s2 = mem_brk s1"
    "mem_start_brk s2 = mem_start_brk s1" "mem_max_addr s2 = mem_max_addr s1" by blast
  let ?fl2 = "?fl1(class_of t2 := remove1 z (?fl1 (class_of t2)))"
  have y1: "y = heap_listp s1 + 8 + total pre'" and y2: "y = heap_listp s2 + 8 + total pre'"
    using y s1(4) s2(4) by simp_all
  have hx1: "heap_ok s1 ((pre' @ [(t1, False)]) @ (sz, False) # (t2, False) # post')" using s1(2) by simp
  have xx1: "x = heap_listp s1 + 8 + total (pre' @ [(t1, False)])" using x y1 by simp
  have hx2: "heap_ok s2 ((pre' @ [(t1, False)]) @ (sz, False) # (t2, False) # post')" using s2(2) by simp
  have xx2: "x = heap_listp s2 + 8 + total (pre' @ [(t1, False)])" using x y2 by simp
  note rx1 = heap_block_at[OF hx1 xx1]
  note ry2 = heap_block_at[OF s2(2) y2] and rx2 = heap_block_at[OF hx2 xx2]
  have F2: "?F - {(y, t1)} - {(z, t2)} =
            set (frees (heap_listp s2 + 8) pre') \<union> set (frees (y + (t1 + sz + t2)) post')"
    using ny nz s1(4) s2(4) x y z_def by (auto simp: add.assoc)
  define S where "S = sz + (t1 + t2)"
  define m1 where "m1 = PUT (mem s2) (y - 4) (PACK S 4 0)"
  define m2 where "m2 = PUT m1 (z + t2 - 8) (PACK S 4 0)"
  have S8: "8 dvd S" "16 \<le> S" "S = t1 + sz + t2" using ry(4) rx(3,4) rz(4) by (auto simp: S_def)
  have Slt: "S < 4294967296"
  proof -
    have "total ?bs < 4294967296" using heap_ok_bounds(3)[OF h] .
    then show ?thesis by (simp add: S_def)
  qed
  have fk: "GET_SIZE (mem s) (x - 8) = t1" using ry(19) x by simp
  have fk2: "GET_SIZE (mem s2) (x - 8) = t1" using ry2(19) x by simp
  have g1: "GET m1 (x - 8) = GET (mem s2) (x - 8)"
    unfolding m1_def by (rule GET_PUT_other) (use ry(3) x in auto)
  have g2: "GET m2 (x - 8) = GET m1 (x - 8)"
    unfolding m2_def by (rule GET_PUT_other) (use rx(3) rz(3) z_def in auto)
  have fk3: "GET_SIZE m2 (x - 8) = t1" using fk2 g1 g2 by (simp add: GET_SIZE_def)
  have prevs: "PREV_BLKP (mem s) x = y" "PREV_BLKP (mem s2) x = y" "PREV_BLKP m2 x = y"
    using fk fk2 fk3 x by (simp_all add: PREV_BLKP_def)
  have nx: "NEXT_BLKP (mem s) x = z" "NEXT_BLKP (mem s1) x = z"
    using rx(14) rx1(14) by (simp_all add: NEXT_BLKP_def z_def)
  have gx: "GET m1 (x - 4) = GET (mem s2) (x - 4)"
    unfolding m1_def by (rule GET_PUT_other) (use ry(3,6) x in auto)
  have nx1: "NEXT_BLKP m1 x = z"
    using rx2(14) gx by (simp add: NEXT_BLKP_def GET_SIZE_def z_def)
  have gz: "GET m1 (z - 4) = GET (mem s2) (z - 4)"
    unfolding m1_def by (rule GET_PUT_other) (use ry(3,6) x z_def in auto)
  have ftz: "FTRP (mem s) z = z + t2 - 8" using rz(14) by (simp add: FTRP_def HDRP_def)
  have ftz1: "FTRP m1 z = z + t2 - 8"
    using rx2(17) gz by (simp add: FTRP_def HDRP_def GET_SIZE_def z_def)
  have t2r: "GET_SIZE (mem s) (z + t2 - 8) = t2" using rz(19) by simp
  have hd: "GET m2 (y - 4) = hdw S True False"
    unfolding m2_def m1_def using ry(3,6) rz(3) x z_def
    by (subst GET_PUT_other) (auto simp: GET_PUT_same)
  have ft: "GET m2 (z + t2 - 8) = hdw S True False" by (simp add: m2_def GET_PUT_same)
  have a1: "agree (mem s2) m2 (heap_listp s2 - 4) (y - 4)"
    unfolding m2_def m1_def
    by (rule agree_trans[OF agree_PUT agree_PUT]) (use x z_def ry(3,6) rz(3) in auto)
  have a2: "agree (mem s2) m2 (z + t2 - 4) (mem_brk s2)"
    unfolding m2_def m1_def
    by (rule agree_trans[OF agree_PUT agree_PUT]) (use x z_def ry(3,6) rz(3) in auto)
  have co: "coalesce x s = Some (y, insertx y S (s2\<lparr>mem := m2\<rparr>))"
    unfolding coalesce_def Let_def
    using rx(15) rz(16) prevs nx nx1 ftz ftz1 t2r s1(1) s2(1) ry(14) rx(14)
    by (simp add: HDRP_def z_def[symmetric] m2_def[symmetric] m1_def[symmetric] S_def[symmetric])
  have zS: "z + t2 = y + S" using x z_def S8(3) by simp
  have inv: "Inv (insertx y S (s2\<lparr>mem := m2\<rparr>)) (pre' @ (S, False) # post')
               (?fl2(class_of S := y # ?fl2 (class_of S)))"
    by (rule coalesce_finish[where mid = "[(t1, False), (sz, False), (t2, False)]"])
       (use s2(2) s2(3)[unfolded F2] op n2' y2 hd ft[unfolded zS] a1 a2[unfolded zS] S8(3)
         in \<open>simp_all add: add.assoc\<close>)
  define s' where "s' = insertx y S (s2\<lparr>mem := m2\<rparr>)"
  have f: "heap_listp s' = heap_listp s" "mem_brk s' = mem_brk s"
    "mem_start_brk s' = mem_start_brk s" "mem_max_addr s' = mem_max_addr s"
    using s1(4-7) s2(4-7) by (simp_all add: s'_def)
  have co': "coalesce x s = Some (y, s')" using co by (simp add: s'_def)
  have "\<exists>fl'. Inv s' (pre' @ (t1 + sz + t2, False) # post') fl'"
    using inv unfolding s'_def S8(3) by blast
  then show ?thesis using co' f by blast
qed

lemma coalesce_ok:
  assumes h: "heap_ok s (pre @ (sz, False) # post)" and x: "x = heap_listp s + 8 + total pre"
    and n1: "naf True pre" and n2: "naf True post"
    and l: "lists_ok (mem s) (heads s) fl (set (frees (heap_listp s + 8) pre) \<union> set (frees (x + sz) post))"
  shows "\<exists>x' s' bs' fl' sz'. coalesce x s = Some (x', s') \<and> Inv s' bs' fl' \<and>
           heap_listp s' = heap_listp s \<and> mem_brk s' = mem_brk s \<and>
           mem_start_brk s' = mem_start_brk s \<and> mem_max_addr s' = mem_max_addr s \<and>
           (x', sz') \<in> set (frees (heap_listp s + 8) bs') \<and> sz \<le> sz' \<and>
           allocs (heap_listp s + 8) bs' = allocs (heap_listp s + 8) (pre @ (sz, False) # post)"
proof (cases "outb True pre")
  case op: True
  show ?thesis
  proof (cases "next_alloc post")
    case True
    from coalesce_case1[OF h x n1 n2 l op True]
    have "coalesce x s = Some (x, insertx x sz s)"
      "Inv (insertx x sz s) (pre @ (sz, False) # post) (fl(class_of sz := x # fl (class_of sz)))"
      by auto
    moreover have "(x, sz) \<in> set (frees (heap_listp s + 8) (pre @ (sz, False) # post))"
      using x by simp
    ultimately show ?thesis
      by (intro exI[of _ x] exI[of _ "insertx x sz s"] exI[of _ "pre @ (sz, False) # post"]
            exI[of _ "fl(class_of sz := x # fl (class_of sz))"] exI[of _ sz]) simp
  next
    case False
    then obtain k post' where post: "post = (k, False) # post'" using next_alloc_False by blast
    from coalesce_case2[OF h[unfolded post] x n1 n2[unfolded post] l[unfolded post] op]
    obtain s' fl' where r: "coalesce x s = Some (x, s')" "Inv s' (pre @ (sz + k, False) # post') fl'"
      "heap_listp s' = heap_listp s" "mem_brk s' = mem_brk s"
      "mem_start_brk s' = mem_start_brk s" "mem_max_addr s' = mem_max_addr s" by blast
    have "(x, sz + k) \<in> set (frees (heap_listp s + 8) (pre @ (sz + k, False) # post'))"
      using x by simp
    moreover have "allocs (heap_listp s + 8) (pre @ (sz + k, False) # post') =
        allocs (heap_listp s + 8) (pre @ (sz, False) # post)"
      using post by (simp add: add.assoc)
    ultimately show ?thesis using r
      by (intro exI[of _ x] exI[of _ s'] exI[of _ "pre @ (sz + k, False) # post'"]
            exI[of _ fl'] exI[of _ "sz + k"]) simp
  qed
next
  case op: False
  then obtain pre' k where pre: "pre = pre' @ [(k, False)]" using outb_False_last by blast
  define y where "y = heap_listp s + 8 + total pre'"
  have xy: "x = y + k" using x pre y_def by simp
  have h': "heap_ok s (pre' @ (k, False) # (sz, False) # post)" using h pre by simp
  show ?thesis
  proof (cases "next_alloc post")
    case True
    from coalesce_case3[OF h' y_def xy n1[unfolded pre] n2 True l[unfolded pre]]
    obtain s' fl' where r: "coalesce x s = Some (y, s')" "Inv s' (pre' @ (k + sz, False) # post) fl'"
      "heap_listp s' = heap_listp s" "mem_brk s' = mem_brk s"
      "mem_start_brk s' = mem_start_brk s" "mem_max_addr s' = mem_max_addr s" by blast
    have "(y, k + sz) \<in> set (frees (heap_listp s + 8) (pre' @ (k + sz, False) # post))"
      using y_def by simp
    moreover have "allocs (heap_listp s + 8) (pre' @ (k + sz, False) # post) =
        allocs (heap_listp s + 8) (pre @ (sz, False) # post)"
      using pre by (simp add: add.assoc)
    ultimately show ?thesis using r
      by (intro exI[of _ y] exI[of _ s'] exI[of _ "pre' @ (k + sz, False) # post"]
            exI[of _ fl'] exI[of _ "k + sz"]) simp
  next
    case False
    then obtain t2 post' where post: "post = (t2, False) # post'" using next_alloc_False by blast
    from coalesce_case4[OF h'[unfolded post] y_def xy n1[unfolded pre] n2[unfolded post]
        l[unfolded pre post]]
    obtain s' fl' where r: "coalesce x s = Some (y, s')" "Inv s' (pre' @ (k + sz + t2, False) # post') fl'"
      "heap_listp s' = heap_listp s" "mem_brk s' = mem_brk s"
      "mem_start_brk s' = mem_start_brk s" "mem_max_addr s' = mem_max_addr s" by blast
    have "(y, k + sz + t2) \<in> set (frees (heap_listp s + 8) (pre' @ (k + sz + t2, False) # post'))"
      using y_def by simp
    moreover have "allocs (heap_listp s + 8) (pre' @ (k + sz + t2, False) # post') =
        allocs (heap_listp s + 8) (pre @ (sz, False) # post)"
      using pre post by (simp add: add.assoc)
    ultimately show ?thesis using r
      by (intro exI[of _ y] exI[of _ s'] exI[of _ "pre' @ (k + sz + t2, False) # post'"]
            exI[of _ fl'] exI[of _ "k + sz + t2"]) simp
  qed
qed

section \<open>Releasing a block\<close>

lemma frees_first:
  "blocks_ok m q pa post \<Longrightarrow> (z, s) \<in> set (frees q post) \<Longrightarrow>
   (z = q \<and> 16 \<le> next_size post) \<or> q + next_size post \<le> z"
proof (cases post)
  case Nil
  assume "(z, s) \<in> set (frees q post)"
  then show ?thesis using Nil by simp
next
  case (Cons b post')
  assume b: "blocks_ok m q pa post" and z: "(z, s) \<in> set (frees q post)"
  obtain sz a where bb: "b = (sz, a)" by (cases b)
  from b Cons bb have r: "blocks_ok m (q + sz) a post'" and s16: "16 \<le> sz" by auto
  show ?thesis using z Cons bb s16 frees_range[OF r, of z s] by (auto split: if_splits)
qed

lemma set_prev_GETL:
  assumes "blocks_ok m q pa post" "(z, s) \<in> set (frees q post)" "4 \<le> q"
  shows "GETL (set_prev m' q post v) z = GETL m' z"
proof -
  from frees_first[OF assms(1,2)] frees_range[OF assms(1,2)]
  have c: "(z = q \<and> 16 \<le> next_size post) \<or> q + next_size post \<le> z" and zq: "q \<le> z" by auto
  have 1: "GETL (PUT m' (q - 4) v) z = GETL m' z"
    by (rule GETL_PUT_other) (use zq assms(3) in auto)
  have 2: "\<not> next_alloc post \<Longrightarrow>
        GETL (PUT (PUT m' (q - 4) v) (q + next_size post - 8) v) z = GETL (PUT m' (q - 4) v) z"
  proof -
    assume "\<not> next_alloc post"
    then have "16 \<le> next_size post"
      using assms(1) by (cases post) auto
    then show ?thesis using c by (intro GETL_PUT_other) auto
  qed
  show ?thesis using 1 2 by (simp add: set_prev_def)
qed

lemma next_free_size: "blocks_ok m q pa post \<Longrightarrow> next_alloc post \<or> 16 \<le> next_size post"
  by (cases post) auto

lemma set_prev_GETL_below:
  assumes "z + 8 \<le> q - 4" "4 \<le> q" "next_alloc post \<or> 16 \<le> next_size post"
  shows "GETL (set_prev m' q post v) z = GETL m' z"
proof -
  have 1: "GETL (PUT m' (q - 4) v) z = GETL m' z"
    by (rule GETL_PUT_other) (use assms in auto)
  have 2: "\<not> next_alloc post \<Longrightarrow>
     GETL (PUT (PUT m' (q - 4) v) (q + next_size post - 8) v) z = GETL (PUT m' (q - 4) v) z"
    by (rule GETL_PUT_other) (use assms in auto)
  show ?thesis using 1 2 by (simp add: set_prev_def)
qed

lemma set_prev_agree_below:
  assumes "hi \<le> q - 4" "4 \<le> q" "next_alloc post \<or> 16 \<le> next_size post"
  shows "agree m (set_prev m q post v) lo hi"
proof -
  have 1: "agree m (PUT m (q - 4) v) lo hi" by (rule agree_PUT) (use assms in auto)
  have 2: "\<not> next_alloc post \<Longrightarrow>
     agree (PUT m (q - 4) v) (PUT (PUT m (q - 4) v) (q + next_size post - 8) v) lo hi"
    by (rule agree_PUT) (use assms in auto)
  show ?thesis using 1 agree_trans[OF 1 2] by (simp add: set_prev_def)
qed

lemma tail_set_prev':
  assumes "tail_ok m q pa post e" "4 \<le> q" "word_of_nat v = hdw (next_size post) pa' (next_alloc post)"
  shows "tail_ok (set_prev m q post v) q pa' post e"
  by (rule tail_set_prev[OF assms(1,2) _ assms(3)]) (simp add: set_prev_def)

lemma Inv_nonzero: "Inv s bs fl \<Longrightarrow> heap_listp s \<noteq> 0"
  unfolding Inv_def using heap_okD(1) by fastforce

lemma free_ok:
  assumes inv: "Inv s bs fl" and p: "(p, sz) \<in> set (allocs (heap_listp s + 8) bs)"
  shows "\<exists>s' bs' fl' pre post. free p s = Some s' \<and> Inv s' bs' fl' \<and>
           heap_listp s' = heap_listp s \<and> mem_brk s' = mem_brk s \<and>
           mem_start_brk s' = mem_start_brk s \<and> mem_max_addr s' = mem_max_addr s \<and>
           bs = pre @ (sz, True) # post \<and> p = heap_listp s + 8 + total pre \<and>
           allocs (heap_listp s + 8) bs' = allocs (heap_listp s + 8) (pre @ (sz, False) # post)"
proof -
  let ?p0 = "heap_listp s + 8" and ?m = "mem s"
  from allocs_split[OF p] obtain pre post where bs: "bs = pre @ (sz, True) # post"
    and pp: "p = ?p0 + total pre" by blast
  have h: "heap_ok s (pre @ (sz, True) # post)" and nf: "naf True bs"
    and l: "lists_ok ?m (heads s) fl (set (frees ?p0 bs))"
    using inv bs by (auto simp: Inv_def)
  note r = heap_block_at[OF h pp] and d = heap_okD[OF h]
  define cp :: nat where "cp = (if outb True pre then 4 else 0)"
  define q where "q = p + sz"
  define ns where "ns = next_size post"
  define v where "v = PACK ns 0 (if next_alloc post then 1 else 0)"
  define m1 where "m1 = PUT ?m (p - 4) (PACK sz cp 0)"
  define m2 where "m2 = PUT m1 (p + sz - 8) (PACK sz cp 0)"
  define m3 where "m3 = set_prev m2 q post v"
  have hl0: "heap_listp s \<noteq> 0" "p \<noteq> 0" using d(1) r(6) by auto
  have g1: "GET m1 (p - 4) = hdw sz (outb True pre) False"
    by (simp add: m1_def cp_def GET_PUT_same)
  have g2: "GET m2 (p - 4) = hdw sz (outb True pre) False"
    unfolding m2_def using g1 r(3,6) by (subst GET_PUT_other) auto
  have f2: "GET m2 (p + sz - 8) = hdw sz (outb True pre) False"
    by (simp add: m2_def cp_def GET_PUT_same)
  have am2: "\<And>lo hi. p + sz - 4 \<le> lo \<Longrightarrow> agree ?m m2 lo hi"
    unfolding m2_def m1_def
    by (rule agree_trans[OF agree_PUT agree_PUT]) (use r(3,6) in auto)
  have bm2: "\<And>lo hi. hi \<le> p - 4 \<Longrightarrow> agree ?m m2 lo hi"
    unfolding m2_def m1_def
    by (rule agree_trans[OF agree_PUT agree_PUT]) (use r(3,6) in auto)
  have gq: "GET m2 (q - 4) = hdw ns True (next_alloc post)"
    using agree_GET[OF am2[of "q - 4" q]] r(8,3) by (simp add: q_def ns_def)
  have t0: "tail_ok ?m q True post (mem_brk s)"
    using d(5) pp by (simp add: tail_ok_append tail_ok_Cons q_def)
  have bq: "blocks_ok ?m q True post" using t0 by (simp add: tail_ok_def)
  have nfs: "next_alloc post \<or> 16 \<le> next_size post" by (rule next_free_size[OF bq])
  have q4: "4 \<le> q" "p + 12 \<le> q - 4" using r(3,6) by (auto simp: q_def)
  have t2: "tail_ok m2 q True post (mem_brk s)"
    by (rule tail_ok_agree[OF t0 q4(1)]) (rule am2, simp add: q_def)
  have vw: "word_of_nat v = hdw (next_size post) False (next_alloc post)"
    by (simp add: v_def ns_def)
  have t3: "tail_ok m3 q False post (mem_brk s)"
    unfolding m3_def by (rule tail_set_prev'[OF t2 q4(1) vw])
  have a23: "\<And>lo hi. hi \<le> q - 4 \<Longrightarrow> agree m2 m3 lo hi"
    unfolding m3_def by (rule set_prev_agree_below) (use q4 nfs in auto)
  have g3: "GET m3 (p - 4) = hdw sz (outb True pre) False"
    using agree_GET[OF a23[of p "p - 4"]] g2 q4 r(6) by simp
  have f3: "GET m3 (p + sz - 8) = hdw sz (outb True pre) False"
    using agree_GET[OF a23[of "q - 4" "p + sz - 8"]] f2 q4 r(3) by (simp add: q_def)
  have bpre: "blocks_ok ?m ?p0 True pre" using d(4) by (simp add: blocks_ok_append)
  have apre: "agree ?m m3 (?p0 - 4) (p - 4)"
    by (rule agree_trans[OF bm2 a23]) (use q4 in auto)
  have bpre3: "blocks_ok m3 ?p0 True pre"
    by (rule blocks_ok_agree[OF bpre]) (use apre pp in auto)
  have pro3: "GET m3 (heap_listp s - 4) = hdw 8 True True"
  proof -
    have "agree ?m m3 (heap_listp s - 4) (heap_listp s)"
      by (rule agree_trans[OF bm2 a23]) (use q4 pp in auto)
    from agree_GET[OF this] d(3,1) show ?thesis by simp
  qed
  define s3 where "s3 = s\<lparr>mem := m3\<rparr>"
  have s3f: "mem s3 = m3" "heads s3 = heads s" "heap_listp s3 = heap_listp s" "mem_brk s3 = mem_brk s"
    "mem_start_brk s3 = mem_start_brk s" "mem_max_addr s3 = mem_max_addr s"
    by (simp_all add: s3_def)
  have h3: "heap_ok s3 (pre @ (sz, False) # post)"
    unfolding heap_ok_tail s3f
    using d(1,2,7,8,9) pro3 bpre3 g3 f3 t3 r(3,4) pp
    by (simp add: tail_ok_append tail_ok_Cons q_def)
  have Feq: "set (frees ?p0 bs) = set (frees ?p0 pre) \<union> set (frees (p + sz) post)"
    using bs pp by simp
  have l3: "lists_ok m3 (heads s) fl (set (frees ?p0 pre) \<union> set (frees (p + sz) post))"
  proof (rule lists_ok_frame[OF l[unfolded Feq]])
    fix z s' assume "(z, s') \<in> set (frees ?p0 pre) \<union> set (frees (p + sz) post)"
    then consider "(z, s') \<in> set (frees ?p0 pre)" | "(z, s') \<in> set (frees q post)"
      by (auto simp: q_def)
    then show "GETL m3 z = GETL ?m z"
    proof cases
      case 1
      from frees_range[OF bpre 1] pp have z: "z + 16 \<le> p" by auto
      have "GETL m3 z = GETL m2 z"
        unfolding m3_def by (rule set_prev_GETL_below) (use z q4 nfs in auto)
      also have "\<dots> = GETL ?m z"
        by (rule agree_GETL[OF bm2[of "z + 8" z]]) (use z in auto)
      finally show ?thesis .
    next
      case 2
      have "GETL m3 z = GETL m2 z"
        unfolding m3_def by (rule set_prev_GETL[OF bq 2 q4(1)])
      also have "\<dots> = GETL ?m z"
        by (rule agree_GETL[OF am2[of z "z + 8"]]) (use frees_range[OF bq 2] in \<open>auto simp: q_def\<close>)
      finally show ?thesis .
    qed
  qed
  have n12: "naf True pre" "naf True post" using nf bs by (auto simp: naf_append)
  have p3: "p = heap_listp s3 + 8 + total pre" using pp s3f by simp
  from coalesce_ok[OF h3 p3 n12, of fl] l3 s3f
  obtain x' s' bs' fl' sz' where c: "coalesce p s3 = Some (x', s')" "Inv s' bs' fl'"
    "heap_listp s' = heap_listp s" "mem_brk s' = mem_brk s"
    "mem_start_brk s' = mem_start_brk s" "mem_max_addr s' = mem_max_addr s"
    "allocs ?p0 bs' = allocs ?p0 (pre @ (sz, False) # post)" by auto
  have rd: "GET_SIZE ?m (p - 4) = sz" "PREVX ?m (p - 4) = cp" using r(14,15) by (simp_all add: cp_def)
  have ftrp1: "FTRP m1 p = p + sz - 8"
    using read_hdw(1)[OF g1 r(4,5)] by (simp add: FTRP_def HDRP_def)
  have nx2: "NEXT_BLKP m2 p = q"
    using read_hdw(1)[OF g2 r(4,5)] by (simp add: NEXT_BLKP_def q_def)
  have ns8: "8 dvd ns" "ns < 4294967296" using r(9,10) by (simp_all add: ns_def)
  have rq: "GET_SIZE m2 (q - 4) = ns" "GET_ALLOC m2 (q - 4) = (if next_alloc post then 1 else 0)"
    using read_hdw[OF gq ns8] by auto
  have fr: "free p s = map_option snd (coalesce p s3)"
  proof (cases "next_alloc post")
    case True
    have "m3 = PUT m2 (q - 4) (PACK ns 0 1)" using True by (simp add: m3_def set_prev_def v_def)
    then show ?thesis
      unfolding free_def using hl0 rd ftrp1 nx2 rq True
      by (simp add: Let_def HDRP_def m1_def[symmetric] m2_def[symmetric] s3_def)
  next
    case False
    define m3a where "m3a = PUT m2 (q - 4) (PACK ns 0 0)"
    have g3a: "GET m3a (p - 4) = GET m2 (p - 4)"
      unfolding m3a_def by (rule GET_PUT_other) (use q4 in auto)
    have nx3: "NEXT_BLKP m3a p = q"
      using read_hdw(1)[OF g2 r(4,5)] g3a by (simp add: NEXT_BLKP_def q_def GET_SIZE_def)
    have gq3: "GET m3a (q - 4) = hdw ns False False" by (simp add: m3a_def GET_PUT_same)
    have sq3: "GET_SIZE m3a (q - 4) = ns" using read_hdw(1)[OF gq3 ns8] .
    have "m3 = PUT m3a (q + ns - 8) (PACK ns 0 0)"
      using False by (simp add: m3_def set_prev_def v_def m3a_def ns_def)
    then show ?thesis
      unfolding free_def using hl0 rd ftrp1 nx2 rq False nx3 sq3
      by (simp add: Let_def HDRP_def FTRP_def m1_def[symmetric] m2_def[symmetric] m3a_def[symmetric] s3_def)
  qed
  have "free p s = Some s'" using fr c(1) by simp
  then show ?thesis using c(2-7) bs pp by blast
qed

section \<open>Extending the heap\<close>

lemma extend_heap_ok:
  assumes inv: "Inv s bs fl" and w: "3 \<le> words" "words < 4611686018427387903"
    and sz: "sz = 4 * (words + words mod 2)"
  shows "(mem_max_addr s < mem_brk s + sz \<and> extend_heap words s = Some (0, s)) \<or>
         (mem_brk s + sz \<le> mem_max_addr s \<and>
          (\<exists>x' s' bs' fl' sz'. extend_heap words s = Some (x', s') \<and> Inv s' bs' fl' \<and> x' \<noteq> 0 \<and>
             (x', sz') \<in> set (frees (heap_listp s + 8) bs') \<and> sz \<le> sz' \<and>
             allocs (heap_listp s + 8) bs' = allocs (heap_listp s + 8) bs \<and>
             heap_listp s' = heap_listp s \<and> mem_brk s' = mem_brk s + sz \<and>
             mem_start_brk s' = mem_start_brk s \<and> mem_max_addr s' = mem_max_addr s))"
proof -
  let ?p0 = "heap_listp s + 8" and ?m = "mem s"
  have h: "heap_ok s bs" and nf: "naf True bs" and l: "lists_ok ?m (heads s) fl (set (frees ?p0 bs))"
    using inv by (auto simp: Inv_def)
  note d = heap_okD[OF h] and b = heap_ok_bounds[OF h]
  have szc: "(if words mod 2 \<noteq> 0 then ((words + 1) * 4) mod 18446744073709551616
              else (words * 4) mod 18446744073709551616) = sz"
  proof -
    have "words mod 2 = 0 \<or> words mod 2 = 1" by auto
    then show ?thesis using w sz by auto
  qed
  have s16: "16 \<le> sz" "8 dvd sz"
  proof -
    have "even (words + words mod 2)" by presburger
    then obtain j where "words + words mod 2 = 2 * j" by (elim evenE)
    then show "8 dvd sz" using sz by simp
    show "16 \<le> sz" using w sz by presburger
  qed
  show ?thesis
  proof (cases "mem_max_addr s < mem_brk s + sz")
    case True
    then have "extend_heap words s = Some (0, s)"
      unfolding extend_heap_def szc Let_def by (simp add: mem_sbrk_def)
    then show ?thesis using True by simp
  next
    case False
    define bp where "bp = mem_brk s"
    define s1 where "s1 = s\<lparr>mem_brk := bp + sz\<rparr>"
    have ms1: "mem s1 = mem s" by (simp add: s1_def)
    have sb: "mem_sbrk sz s = (bp, s1)" using False by (simp add: mem_sbrk_def bp_def s1_def)
    have bpn: "bp \<noteq> FAIL" using False d(8) s16 by (simp add: bp_def FAIL_def)
    have "8 dvd ?p0 + total bs" using b(2) blocks_ok_total_dvd[OF d(4)] by (rule dvd_add)
    then have bp: "bp = ?p0 + total bs" "16 \<le> bp" "8 dvd bp" using d(6) b(1)
      by (auto simp: bp_def)
    have slt: "sz < 4294967296" using False d(1,9) bp(1) by (simp add: bp_def)
    define cp :: nat where "cp = (if outb True bs then 4 else 0)"
    have ep: "GET ?m (bp - 4) = hdw 0 (outb True bs) True" using d(5) by (simp add: tail_ok_def bp_def)
    have rcp: "PREVX ?m (bp - 4) = cp" using read_hdw(3)[OF ep] by (simp add: cp_def)
    define m1 where "m1 = PUT ?m (bp - 4) (PACK sz cp 0)"
    define m2 where "m2 = PUT m1 (bp + sz - 8) (PACK sz cp 0)"
    define m3 where "m3 = PUT m2 (bp + sz - 4) (PACK 0 0 1)"
    have g1: "GET m1 (bp - 4) = hdw sz (outb True bs) False" by (simp add: m1_def cp_def GET_PUT_same)
    have ftrp: "FTRP m1 bp = bp + sz - 8"
      using read_hdw(1)[OF g1 s16(2) slt] by (simp add: FTRP_def HDRP_def)
    have g2: "GET m2 (bp - 4) = hdw sz (outb True bs) False"
      unfolding m2_def using g1 s16 bp(2) by (subst GET_PUT_other) auto
    have nx: "NEXT_BLKP m2 bp = bp + sz"
      using read_hdw(1)[OF g2 s16(2) slt] by (simp add: NEXT_BLKP_def)
    have g3: "GET m3 (bp - 4) = hdw sz (outb True bs) False"
      unfolding m3_def using g2 s16 bp(2) by (subst GET_PUT_other) auto
    have f3: "GET m3 (bp + sz - 8) = hdw sz (outb True bs) False"
      unfolding m3_def m2_def using s16 by (subst GET_PUT_other) (auto simp: GET_PUT_same cp_def)
    have e3: "GET m3 (bp + sz - 4) = hdw 0 False True" by (simp only: m3_def GET_PUT_same hdw_PACK)
    have ab: "\<And>lo hi. hi \<le> bp - 4 \<Longrightarrow> agree ?m m3 lo hi"
      unfolding m3_def m2_def m1_def
      by (rule agree_trans[OF agree_trans[OF agree_PUT agree_PUT] agree_PUT]) (use s16 bp(2) in auto)
    have b3: "blocks_ok m3 ?p0 True bs"
      by (rule blocks_ok_agree[OF d(4)]) (use ab bp(1) in auto)
    have pro3: "GET m3 (heap_listp s - 4) = hdw 8 True True"
      using agree_GET[OF ab[of "heap_listp s" "heap_listp s - 4"]] d(3,1) bp(1) by simp
    define s3 where "s3 = s1\<lparr>mem := m3\<rparr>"
    have s3f: "mem s3 = m3" "heads s3 = heads s" "heap_listp s3 = heap_listp s"
      "mem_brk s3 = bp + sz" "mem_start_brk s3 = mem_start_brk s" "mem_max_addr s3 = mem_max_addr s"
      by (simp_all add: s3_def s1_def)
    have h3: "heap_ok s3 (bs @ (sz, False) # [])"
      unfolding heap_ok_tail s3f
      using d(1,2,8,9) pro3 b3 g3 f3 e3 s16 bp(1) False
      by (simp add: tail_ok_append tail_ok_Cons tail_ok_Nil bp_def)
    have l3: "lists_ok m3 (heads s) fl (set (frees ?p0 bs) \<union> set (frees (bp + sz) []))"
    proof -
      have "lists_ok m3 (heads s) fl (set (frees ?p0 bs))"
      proof (rule lists_ok_frame[OF l])
        fix z s' assume "(z, s') \<in> set (frees ?p0 bs)"
        from frees_range[OF d(4) this] bp(1) have "z + 8 \<le> bp - 4" by auto
        then show "GETL m3 z = GETL ?m z" using agree_GETL[OF ab[of "z + 8" z]] by simp
      qed
      then show ?thesis by simp
    qed
    have p3: "bp = heap_listp s3 + 8 + total bs" using bp(1) s3f by simp
    have nf0: "naf True []" by simp
    from coalesce_ok[OF h3 p3 nf nf0, of fl] l3 s3f
    obtain x' s' bs' fl' sz' where c: "coalesce bp s3 = Some (x', s')" "Inv s' bs' fl'"
      "heap_listp s' = heap_listp s" "mem_brk s' = bp + sz"
      "mem_start_brk s' = mem_start_brk s" "mem_max_addr s' = mem_max_addr s"
      "(x', sz') \<in> set (frees ?p0 bs')" "sz \<le> sz'"
      "allocs ?p0 bs' = allocs ?p0 (bs @ (sz, False) # [])" by auto
    have x0: "x' \<noteq> 0"
      using heap_ok_frees(2)[of s' bs' x' sz'] c(2,3,7) by (auto simp: Inv_def)
    have ex: "extend_heap words s = Some (x', s')"
      unfolding extend_heap_def szc Let_def sb
      using bpn rcp ftrp nx c(1) ms1
      by (simp add: HDRP_def m1_def[symmetric] m2_def[symmetric] m3_def[symmetric] s3_def
            del: One_nat_def)
    have al: "allocs ?p0 bs' = allocs ?p0 bs" using c(9) by simp
    show ?thesis using False ex c(2-8) x0 al unfolding bp_def by (intro disjI2) auto
  qed
qed

section \<open>Initialisation\<close>

lemma mm_init_ok:
  assumes pr: "provider_ok lo hi"
  shows "\<exists>r s. mm_init (fresh m lo hi) = Some (r, s) \<and> mem_start_brk s = lo \<and> mem_max_addr s = hi \<and>
           (r = 0 \<longrightarrow> (\<exists>bs fl. Inv s bs fl))"
proof (cases "hi < lo + 16")
  case True
  then have "mm_init (fresh m lo hi) =
      Some (- 1, (fresh m lo hi)\<lparr>heads := (\<lambda>k. 0), heap_listp := FAIL\<rparr>)"
    by (simp add: mm_init_def fresh_def mem_sbrk_def Let_def)
  then show ?thesis by (simp add: fresh_def)
next
  case False
  define m1 where "m1 = PUT m lo 0"
  define m2 where "m2 = PUT m1 (lo + 4) (PACK 8 4 1)"
  define m3 where "m3 = PUT m2 (lo + 8) (PACK 8 4 1)"
  define m4 where "m4 = PUT m3 (lo + 12) (PACK 0 4 1)"
  define s3 where "s3 = \<lparr>mem = m4, heap_listp = lo + 8, heads = (\<lambda>k. 0),
                          mem_start_brk = lo, mem_brk = lo + 16, mem_max_addr = hi\<rparr>"
  have lo: "8 dvd lo" "hi < 18446744073709551616" "hi < lo + 4294967296"
    using pr by (auto simp: provider_ok_def)
  have nF: "lo \<noteq> FAIL" using False lo by (simp add: FAIL_def)
  have mi: "mm_init (fresh m lo hi) =
      Option.bind (extend_heap 1024 s3) (\<lambda>(bp, s4). if bp = 0 then Some (- 1, s4) else Some (0, s4))"
    using False nF
    by (simp add: mm_init_def fresh_def mem_sbrk_def Let_def s3_def m1_def m2_def m3_def m4_def
          del: One_nat_def)
  have "GET m4 (lo + 4) = GET m3 (lo + 4)" unfolding m4_def by (rule GET_PUT_other) simp
  also have "\<dots> = GET m2 (lo + 4)" unfolding m3_def by (rule GET_PUT_other) simp
  also have "\<dots> = hdw 8 True True" unfolding m2_def by (simp only: GET_PUT_same hdw_PACK)
  finally have p: "GET m4 (lo + 4) = hdw 8 True True" .
  have e: "GET m4 (lo + 12) = hdw 0 True True"
    unfolding m4_def by (simp only: GET_PUT_same hdw_PACK)
  have h3: "heap_ok s3 []"
    unfolding heap_ok_def using lo False p e by (simp add: s3_def add.commute)
  have l3: "lists_ok (mem s3) (heads s3) (\<lambda>k. []) (set (frees (heap_listp s3 + 8) []))"
    by (simp add: lists_ok_def s3_def)
  have inv3: "Inv s3 [] (\<lambda>k. [])" unfolding Inv_def using h3 l3 by simp
  have f3: "mem_start_brk s3 = lo" "mem_max_addr s3 = hi" by (simp_all add: s3_def)
  from extend_heap_ok[OF inv3, of 1024 4096]
  consider "extend_heap 1024 s3 = Some (0, s3)"
    | x' s' bs' fl' where "extend_heap 1024 s3 = Some (x', s')" "Inv s' bs' fl'" "x' \<noteq> 0"
        "mem_start_brk s' = mem_start_brk s3" "mem_max_addr s' = mem_max_addr s3"
    by auto
  then show ?thesis
  proof cases
    case 1
    then show ?thesis using mi f3 by simp
  next
    case 2
    then have "mm_init (fresh m lo hi) = Some (0, s')" using mi by simp
    then show ?thesis using 2 f3 by auto
  qed
qed

section \<open>Placement\<close>

text \<open>A region of the heap rewritten into the blocks \<open>mid'\<close>.\<close>

lemma region_rewrite:
  assumes h: "heap_ok s1 bs0"
    and bpre: "blocks_ok (mem s1) (heap_listp s1 + 8) True pre"
    and y: "y = heap_listp s1 + 8 + total pre"
    and a1: "agree (mem s1) m2 (heap_listp s1 - 4) (y - 4)"
    and mid: "blocks_ok m2 y (outb True pre) mid'"
    and t: "tail_ok m2 (y + total mid') (outb (outb True pre) mid') post (mem_brk s1)"
  shows "heap_ok (s1\<lparr>mem := m2\<rparr>) (pre @ mid' @ post)"
proof -
  note d = heap_okD[OF h]
  have 1: "blocks_ok m2 (heap_listp s1 + 8) True pre"
    by (rule blocks_ok_agree[OF bpre]) (use a1 y in \<open>auto elim: agree_mono\<close>)
  have pro: "GET m2 (heap_listp s1 - 4) = GET (mem s1) (heap_listp s1 - 4)"
    by (rule agree_GET[OF a1]) (use y d(1) in auto)
  have "tail_ok m2 (heap_listp s1 + 8) True (pre @ mid' @ post) (mem_brk s1)"
    using 1 mid t y by (simp add: tail_ok_append tail_ok_def blocks_ok_append add.assoc)
  then show ?thesis unfolding heap_ok_tail using pro d by simp
qed

lemma Inv_insert:
  assumes h: "heap_ok s2 bs2" and nf: "naf True bs2"
    and l: "lists_ok (mem s2) (heads s2) fl F1"
    and F1: "F1 = set (frees (heap_listp s2 + 8) bs2) - {(z, r)}"
    and z: "(z, r) \<in> set (frees (heap_listp s2 + 8) bs2)"
  shows "Inv (insertx z r s2) bs2 (fl(class_of r := z # fl (class_of r)))"
proof -
  have h3: "heap_ok (insertx z r s2) bs2" by (rule insertx_heap[OF h z])
  have g: "Fgood F1" by (rule heap_ok_Fgood[OF h]) (use F1 in auto)
  have b: "blocks_ok (mem s2) (heap_listp s2 + 8) True bs2" using heap_okD(4)[OF h] .
  have zn: "z \<notin> fst ` F1"
  proof
    assume "z \<in> fst ` F1"
    then obtain r' where r': "(z, r') \<in> F1" by fastforce
    then have "(z, r') \<in> set (frees (heap_listp s2 + 8) bs2)" using F1 by simp
    then have "r' = r" using frees_unique[OF b _ z] by blast
    then show False using r' F1 by simp
  qed
  have za: "8 dvd z" "z \<noteq> 0" using heap_ok_frees[OF h z] by auto
  have l3: "lists_ok (mem (insertx z r s2)) (heads (insertx z r s2))
              (fl(class_of r := z # fl (class_of r))) (insert (z, r) F1)"
    by (rule insertx_lists_ok[OF l g zn za])
  have "insert (z, r) F1 = set (frees (heap_listp (insertx z r s2) + 8) bs2)"
    using F1 z by auto
  then show ?thesis unfolding Inv_def using h3 nf l3 by simp
qed

lemma sub64_le: "sub64 a b = a - b" if "b \<le> a" "a < 18446744073709551616"
proof -
  have "b mod 18446744073709551616 = b" using that by simp
  moreover have "a + 18446744073709551616 - b = (a - b) + 18446744073709551616" using that by simp
  moreover have "(a - b + 18446744073709551616) mod 18446744073709551616 = a - b"
  proof -
    have "a - b < 18446744073709551616" using that by simp
    then show ?thesis by (simp only: mod_add_self2 mod_less)
  qed
  ultimately show ?thesis unfolding sub64_def by (simp only:)
qed

text \<open>The state of \<^verbatim>\<open>place\<close> after the removal.\<close>

lemma place_prelude:
  assumes inv: "Inv s bs fl" and bs: "bs = pre @ (csize, False) # post"
    and x: "x = heap_listp s + 8 + total pre" and g: "guard (class_of csize) asize"
  shows "\<exists>s1. deletex x asize s = Some s1 \<and> heap_ok s1 bs \<and>
           lists_ok (mem s1) (heads s1) (fl(class_of csize := remove1 x (fl (class_of csize))))
             (set (frees (heap_listp s + 8) pre) \<union> set (frees (x + csize) post)) \<and>
           heap_listp s1 = heap_listp s \<and> mem_brk s1 = mem_brk s \<and>
           mem_start_brk s1 = mem_start_brk s \<and> mem_max_addr s1 = mem_max_addr s \<and>
           outb True pre \<and> next_alloc post \<and> naf True pre \<and> naf True post"
proof -
  let ?p0 = "heap_listp s + 8"
  have h: "heap_ok s bs" and nf: "naf True bs" and l: "lists_ok (mem s) (heads s) fl (set (frees ?p0 bs))"
    using inv by (auto simp: Inv_def)
  have xin: "(x, csize) \<in> set (frees ?p0 bs)" using bs x by simp
  from deletex_heap[OF h l subset_refl xin g] obtain s1 where s1:
    "deletex x asize s = Some s1" "heap_ok s1 bs"
    "lists_ok (mem s1) (heads s1) (fl(class_of csize := remove1 x (fl (class_of csize))))
       (set (frees ?p0 bs) - {(x, csize)})"
    "heap_listp s1 = heap_listp s" "mem_brk s1 = mem_brk s"
    "mem_start_brk s1 = mem_start_brk s" "mem_max_addr s1 = mem_max_addr s" by blast
  note d = heap_okD[OF h]
  have bpre: "blocks_ok (mem s) ?p0 True pre" and bpost: "blocks_ok (mem s) (x + csize) False post"
    and c16: "16 \<le> csize"
    using d(4) bs x by (auto simp: blocks_ok_append)
  have "(x, csize) \<notin> set (frees ?p0 pre)" "(x, csize) \<notin> set (frees (x + csize) post)"
    using frees_range[OF bpre, of x csize] frees_range[OF bpost, of x csize] x c16 by auto
  then have F1: "set (frees ?p0 bs) - {(x, csize)} = set (frees ?p0 pre) \<union> set (frees (x + csize) post)"
    using bs x by auto
  have n: "outb True pre" "naf True pre" "naf False post"
    using nf bs by (auto simp: naf_append)
  have na: "next_alloc post" "naf True post" using n(3) by (cases post; auto)+
  show ?thesis using s1(1,2,4-7) s1(3)[unfolded F1] n(1,2) na by blast
qed

lemma PUT_comm: "a + 4 \<le> b \<or> b + 4 \<le> a \<Longrightarrow> PUT (PUT m a u) b v = PUT (PUT m b v) a u"
  by (rule ext) (auto simp: PUT_def)

lemma PUT_PUTL_comm: "w + 4 \<le> x \<or> x + 8 \<le> w \<Longrightarrow> PUT (PUTL m x l) w v = PUTL (PUT m w v) x l"
proof -
  assume a: "w + 4 \<le> x \<or> x + 8 \<le> w"
  have 1: "PUT (PUT (PUT m x (l mod 4294967296)) (x + 4) (l div 4294967296 mod 4294967296)) w v
        = PUT (PUT (PUT m x (l mod 4294967296)) w v) (x + 4) (l div 4294967296 mod 4294967296)"
    by (rule PUT_comm) (use a in auto)
  have 2: "PUT (PUT m x (l mod 4294967296)) w v = PUT (PUT m w v) x (l mod 4294967296)"
    by (rule PUT_comm) (use a in auto)
  show ?thesis unfolding PUTL_def 1 2 ..
qed

text \<open>A free block followed by an allocated one (or by the epilogue) is rewritten into the
  blocks \<open>mid'\<close>; the header that follows may change its prev-allocated bit.\<close>

lemma place_region:
  assumes h1: "heap_ok s1 (pre @ (csize, False) # post)"
    and x: "x = heap_listp s1 + 8 + total pre"
    and l1: "lists_ok (mem s1) (heads s1) fl1
               (set (frees (heap_listp s1 + 8) pre) \<union> set (frees (x + csize) post))"
    and na: "next_alloc post"
    and a1: "agree (mem s1) mG (heap_listp s1 - 4) (x - 4)"
    and a2: "agree (mem s1) mG (x + csize) (mem_brk s1)"
    and mid: "blocks_ok mG x (outb True pre) mid'" and tm: "total mid' = csize"
    and gq: "GET mG (x + csize - 4) = hdw (next_size post) (outb (outb True pre) mid') True"
  shows "heap_ok (s1\<lparr>mem := mG\<rparr>) (pre @ mid' @ post)"
    and "lists_ok mG (heads s1) fl1
           (set (frees (heap_listp s1 + 8) pre) \<union> set (frees (x + csize) post))"
proof -
  let ?p0 = "heap_listp s1 + 8" and ?q = "x + csize" and ?e = "mem_brk s1"
  note d = heap_okD[OF h1] and r = heap_block_at[OF h1 x]
  have bpre: "blocks_ok (mem s1) ?p0 True pre" using d(4) by (simp add: blocks_ok_append)
  have t0: "tail_ok (mem s1) ?q False post ?e"
    using d(5) x by (simp add: tail_ok_append tail_ok_Cons)
  have bpost: "blocks_ok (mem s1) ?q False post" using t0 by (simp add: tail_ok_def)
  have t: "tail_ok mG (x + total mid') (outb (outb True pre) mid') post ?e"
  proof (cases post)
    case Nil
    then show ?thesis using t0 gq tm by (simp add: tail_ok_Nil)
  next
    case (Cons b post')
    obtain s' a' where b: "b = (s', a')" by (cases b)
    have a': "a'" using na Cons b by simp
    from t0 Cons b a' have s': "16 \<le> s'" "8 dvd s'"
      and r': "tail_ok (mem s1) (?q + s') True post' ?e" by (simp_all add: tail_ok_Cons)
    have "tail_ok mG (?q + s') True post' ?e"
      by (rule tail_ok_agree[OF r']) (use s' in \<open>auto intro: agree_mono[OF a2]\<close>)
    then show ?thesis using Cons b a' s' gq tm by (simp add: tail_ok_Cons)
  qed
  show "heap_ok (s1\<lparr>mem := mG\<rparr>) (pre @ mid' @ post)"
    by (rule region_rewrite[OF h1 bpre x a1 mid t])
  show "lists_ok mG (heads s1) fl1 (set (frees ?p0 pre) \<union> set (frees ?q post))"
  proof (rule lists_frame_region[OF l1 subset_refl bpre bpost x])
    show "x \<le> ?q" by simp
    show "?q + total post \<le> ?e" using r(12) by simp
    show "agree (mem s1) mG ?p0 (x - 4)" by (rule agree_mono[OF a1]) auto
    show "agree (mem s1) mG ?q ?e" by (rule a2)
  qed
qed

lemma place_nosplit:
  assumes inv: "Inv s bs fl" and bs: "bs = pre @ (csize, False) # post"
    and x: "x = heap_listp s + 8 + total pre" and ale: "asize \<le> csize"
    and g: "guard (class_of csize) asize" and small: "csize - asize < 16"
  shows "\<exists>s'. place x asize s = Some (x, s') \<and>
           Inv s' (pre @ (csize, True) # post) (fl(class_of csize := remove1 x (fl (class_of csize)))) \<and>
           heap_listp s' = heap_listp s \<and> mem_brk s' = mem_brk s \<and>
           mem_start_brk s' = mem_start_brk s \<and> mem_max_addr s' = mem_max_addr s"
proof -
  let ?fl1 = "fl(class_of csize := remove1 x (fl (class_of csize)))"
  from place_prelude[OF inv bs x g] obtain s1 where s1: "deletex x asize s = Some s1"
    and h1': "heap_ok s1 bs"
    and l1': "lists_ok (mem s1) (heads s1) ?fl1
               (set (frees (heap_listp s + 8) pre) \<union> set (frees (x + csize) post))"
    and f1: "heap_listp s1 = heap_listp s" "mem_brk s1 = mem_brk s"
      "mem_start_brk s1 = mem_start_brk s" "mem_max_addr s1 = mem_max_addr s"
    and ob: "outb True pre" and na: "next_alloc post" and nf: "naf True pre" "naf True post"
    by blast
  have h0: "heap_ok s (pre @ (csize, False) # post)" using inv bs by (simp add: Inv_def)
  have h1: "heap_ok s1 (pre @ (csize, False) # post)" using h1' bs by simp
  have x1: "x = heap_listp s1 + 8 + total pre" using x f1 by simp
  have l1: "lists_ok (mem s1) (heads s1) ?fl1
               (set (frees (heap_listp s1 + 8) pre) \<union> set (frees (x + csize) post))"
    using l1' f1 by simp
  note r0 = heap_block_at[OF h0 x] and r = heap_block_at[OF h1 x1] and d = heap_okD[OF h1]
  have rd: "GET_SIZE (mem s) (x - 4) = csize" "PREVX (mem s) (x - 4) = 4"
    using r0(14,15) ob by simp_all
  have sb: "sub64 csize asize = csize - asize" by (rule sub64_le[OF ale]) (use r(5) in simp)
  define q where "q = x + csize"
  define ns where "ns = next_size post"
  define m1 where "m1 = PUT (mem s1) (x - 4) (PACK csize 4 1)"
  define m2 where "m2 = PUT m1 (q - 8) (PACK csize 4 1)"
  define m3 where "m3 = PUT m2 (q - 4) (PACK ns 4 1)"
  have ar: "16 \<le> csize" "16 \<le> x" "x + 12 \<le> q - 4" "4 \<le> q" "x + 8 \<le> q - 8"
    using r(3,6) by (auto simp: q_def)
  have ns8: "8 dvd ns" "ns < 4294967296" using r(9,10) by (simp_all add: ns_def)
  have g1: "GET m1 (x - 4) = hdw csize True True" unfolding m1_def by (simp only: GET_PUT_same hdw_PACK)
  have g2: "GET m2 (x - 4) = hdw csize True True"
    unfolding m2_def using g1 ar by (subst GET_PUT_other) auto
  have g3: "GET m3 (x - 4) = hdw csize True True"
    unfolding m3_def using g2 ar by (subst GET_PUT_other) auto
  have gq0: "GET (mem s1) (q - 4) = hdw ns False True" using r(8) na by (simp add: q_def ns_def)
  have gq1: "GET m1 (q - 4) = hdw ns False True"
    unfolding m1_def using gq0 ar by (subst GET_PUT_other) auto
  have gq2: "GET m2 (q - 4) = hdw ns False True"
    unfolding m2_def using gq1 ar by (subst GET_PUT_other) auto
  have gq3: "GET m3 (q - 4) = hdw ns True True" unfolding m3_def by (simp only: GET_PUT_same hdw_PACK)
  have ftrp1: "FTRP m1 x = q - 8"
    using read_hdw(1)[OF g1 r(4,5)] by (simp add: FTRP_def HDRP_def q_def)
  have nx2: "NEXT_BLKP m2 x = q" using read_hdw(1)[OF g2 r(4,5)] by (simp add: NEXT_BLKP_def q_def)
  have nx3: "NEXT_BLKP m3 x = q" using read_hdw(1)[OF g3 r(4,5)] by (simp add: NEXT_BLKP_def q_def)
  have rq2: "GET_SIZE m2 (q - 4) = ns" "GET_ALLOC m2 (q - 4) = 1"
    using read_hdw[OF gq2 ns8] by auto
  have rq3: "GET_ALLOC m3 (q - 4) = 1" using read_hdw[OF gq3 ns8] by auto
  define s3 where "s3 = s1\<lparr>mem := m3\<rparr>"
  have pl: "place x asize s = Some (x, s3)"
    unfolding place_def using rd s1 sb small ftrp1 nx2 rq2 nx3 rq3
    by (simp add: Let_def HDRP_def m1_def[symmetric] m2_def[symmetric] m3_def[symmetric] s3_def
          del: One_nat_def)
  have a1: "agree (mem s1) m3 (heap_listp s1 - 4) (x - 4)"
    unfolding m3_def m2_def m1_def
    by (rule agree_trans[OF agree_trans[OF agree_PUT agree_PUT] agree_PUT]) (use ar in auto)
  have a2: "agree (mem s1) m3 (x + csize) (mem_brk s1)"
    unfolding m3_def m2_def m1_def
    by (rule agree_trans[OF agree_trans[OF agree_PUT agree_PUT] agree_PUT]) (use ar in \<open>auto simp: q_def\<close>)
  have mid: "blocks_ok m3 x (outb True pre) [(csize, True)]" using g3 r(3,4) ob by simp
  have gq: "GET m3 (x + csize - 4) = hdw (next_size post) (outb (outb True pre) [(csize, True)]) True"
    using gq3 by (simp add: q_def ns_def outb_def)
  from place_region[OF h1 x1 l1 na a1 a2 mid _ gq]
  have h3: "heap_ok s3 (pre @ (csize, True) # post)"
    and l3: "lists_ok m3 (heads s1) ?fl1
           (set (frees (heap_listp s1 + 8) pre) \<union> set (frees (x + csize) post))"
    by (simp_all add: s3_def)
  have "Inv s3 (pre @ (csize, True) # post) ?fl1"
    unfolding Inv_def using h3 l3 nf x1 by (simp add: naf_append s3_def)
  then show ?thesis using pl f1 by (auto simp: s3_def)
qed

lemma place_split_head:
  assumes inv: "Inv s bs fl" and bs: "bs = pre @ (csize, False) # post"
    and x: "x = heap_listp s + 8 + total pre" and ale: "asize \<le> csize"
    and a16: "16 \<le> asize" and a8: "8 dvd asize"
    and g: "guard (class_of csize) asize" and big: "16 \<le> csize - asize" and hd: "asize < 120"
  shows "\<exists>s'. place x asize s = Some (x, s') \<and>
           Inv s' (pre @ (asize, True) # (csize - asize, False) # post)
             ((fl(class_of csize := remove1 x (fl (class_of csize))))
                (class_of (csize - asize) := (x + asize) #
                   (fl(class_of csize := remove1 x (fl (class_of csize)))) (class_of (csize - asize)))) \<and>
           heap_listp s' = heap_listp s \<and> mem_brk s' = mem_brk s \<and>
           mem_start_brk s' = mem_start_brk s \<and> mem_max_addr s' = mem_max_addr s"
proof -
  let ?fl1 = "fl(class_of csize := remove1 x (fl (class_of csize)))"
  from place_prelude[OF inv bs x g] obtain s1 where s1: "deletex x asize s = Some s1"
    and h1': "heap_ok s1 bs"
    and l1': "lists_ok (mem s1) (heads s1) ?fl1
               (set (frees (heap_listp s + 8) pre) \<union> set (frees (x + csize) post))"
    and f1: "heap_listp s1 = heap_listp s" "mem_brk s1 = mem_brk s"
      "mem_start_brk s1 = mem_start_brk s" "mem_max_addr s1 = mem_max_addr s"
    and ob: "outb True pre" and na: "next_alloc post" and nf: "naf True pre" "naf True post"
    by blast
  have h0: "heap_ok s (pre @ (csize, False) # post)" using inv bs by (simp add: Inv_def)
  have h1: "heap_ok s1 (pre @ (csize, False) # post)" using h1' bs by simp
  have x1: "x = heap_listp s1 + 8 + total pre" using x f1 by simp
  have l1: "lists_ok (mem s1) (heads s1) ?fl1
               (set (frees (heap_listp s1 + 8) pre) \<union> set (frees (x + csize) post))"
    using l1' f1 by simp
  note r0 = heap_block_at[OF h0 x] and r = heap_block_at[OF h1 x1] and d = heap_okD[OF h1]
  have rd: "GET_SIZE (mem s) (x - 4) = csize" "PREVX (mem s) (x - 4) = 4"
    using r0(14,15) ob by simp_all
  define rr where "rr = csize - asize"
  have sb: "sub64 csize asize = rr" unfolding rr_def by (rule sub64_le[OF ale]) (use r(5) in simp)
  define q where "q = x + csize"
  define y where "y = x + asize"
  define ns where "ns = next_size post"
  define m1 where "m1 = PUT (mem s1) (x - 4) (PACK asize 4 1)"
  define m2 where "m2 = PUT m1 (y - 4) (PACK rr 4 0)"
  define m3 where "m3 = PUT m2 (q - 8) (PACK rr 4 0)"
  have rr: "16 \<le> rr" "8 dvd rr" "rr < 4294967296" "asize < 4294967296" "asize + rr = csize"
    using big a8 r(4,5) ale by (auto simp: rr_def)
  have ar: "16 \<le> csize" "16 \<le> x" "x + 12 \<le> y - 4" "4 \<le> q" "y + 8 \<le> q - 8" "y + rr = q"
    "x + 12 \<le> y"
    using r(3,6) rr a16 by (auto simp: q_def y_def)
  have ns8: "8 dvd ns" "ns < 4294967296" using r(9,10) by (simp_all add: ns_def)
  have g1: "GET m1 (x - 4) = hdw asize True True" unfolding m1_def by (simp only: GET_PUT_same hdw_PACK)
  have g2: "GET m2 (x - 4) = hdw asize True True"
    unfolding m2_def using g1 ar by (subst GET_PUT_other) auto
  have g3: "GET m3 (x - 4) = hdw asize True True"
    unfolding m3_def using g2 ar by (subst GET_PUT_other) auto
  have gy2: "GET m2 (y - 4) = hdw rr True False" unfolding m2_def by (simp only: GET_PUT_same hdw_PACK)
  have gy3: "GET m3 (y - 4) = hdw rr True False"
    unfolding m3_def using gy2 ar by (subst GET_PUT_other) auto
  have gf3: "GET m3 (q - 8) = hdw rr True False" unfolding m3_def by (simp only: GET_PUT_same hdw_PACK)
  have gq0: "GET (mem s1) (q - 4) = hdw ns False True" using r(8) na by (simp add: q_def ns_def)
  have gq1: "GET m1 (q - 4) = hdw ns False True"
    unfolding m1_def using gq0 ar by (subst GET_PUT_other) auto
  have gq2: "GET m2 (q - 4) = hdw ns False True"
    unfolding m2_def using gq1 ar by (subst GET_PUT_other) auto
  have gq3: "GET m3 (q - 4) = hdw ns False True"
    unfolding m3_def using gq2 ar by (subst GET_PUT_other) auto
  have nx1: "NEXT_BLKP m1 x = y" using read_hdw(1)[OF g1 a8 rr(4)] by (simp add: NEXT_BLKP_def y_def)
  have ftrp2: "FTRP m2 y = q - 8"
    using read_hdw(1)[OF gy2 rr(2,3)] ar by (simp add: FTRP_def HDRP_def)
  define s3 where "s3 = s1\<lparr>mem := m3\<rparr>"
  have pl: "place x asize s = Some (x, insertx y rr s3)"
    unfolding place_def using rd s1 sb rr(1) hd nx1 ftrp2
    by (simp add: Let_def HDRP_def m1_def[symmetric] m2_def[symmetric] m3_def[symmetric] s3_def
          del: One_nat_def)
  have a1: "agree (mem s1) m3 (heap_listp s1 - 4) (x - 4)"
    unfolding m3_def m2_def m1_def
    by (rule agree_trans[OF agree_trans[OF agree_PUT agree_PUT] agree_PUT]) (use ar in auto)
  have a2: "agree (mem s1) m3 (x + csize) (mem_brk s1)"
    unfolding m3_def m2_def m1_def
    by (rule agree_trans[OF agree_trans[OF agree_PUT agree_PUT] agree_PUT]) (use ar in \<open>auto simp: q_def\<close>)
  have yq: "x + asize + rr - 8 = q - 8" "x + asize - 4 = y - 4" using rr by (auto simp: q_def y_def)
  have mid: "blocks_ok m3 x (outb True pre) [(asize, True), (rr, False)]"
    using g3 gy3 gf3 a16 a8 rr(1,2) ob yq by simp
  have gq: "GET m3 (x + csize - 4) = hdw (next_size post) (outb (outb True pre) [(asize, True), (rr, False)]) True"
    using gq3 by (simp add: q_def ns_def outb_def)
  have tm: "total [(asize, True), (rr, False)] = csize" using rr by simp
  from place_region[OF h1 x1 l1 na a1 a2 mid tm gq]
  have h3: "heap_ok s3 (pre @ (asize, True) # (rr, False) # post)"
    and l3: "lists_ok (mem s3) (heads s3) ?fl1
           (set (frees (heap_listp s1 + 8) pre) \<union> set (frees (x + csize) post))"
    by (simp_all add: s3_def)
  have bpre: "blocks_ok (mem s1) (heap_listp s1 + 8) True pre"
    and bpost: "blocks_ok (mem s1) (x + csize) False post"
    using d(4) x1 by (auto simp: blocks_ok_append)
  have nin: "(y, rr) \<notin> set (frees (heap_listp s1 + 8) pre)" "(y, rr) \<notin> set (frees (x + csize) post)"
    using frees_range[OF bpre, of y rr] frees_range[OF bpost, of y rr] x1 ar by (auto simp: q_def y_def)
  have fr: "frees (heap_listp s3 + 8) (pre @ (asize, True) # (rr, False) # post)
          = frees (heap_listp s1 + 8) pre @ (y, rr) # frees (x + csize) post"
    using x1 rr(5) by (simp add: s3_def y_def add.assoc)
  have F1: "set (frees (heap_listp s1 + 8) pre) \<union> set (frees (x + csize) post)
          = set (frees (heap_listp s3 + 8) (pre @ (asize, True) # (rr, False) # post)) - {(y, rr)}"
    unfolding fr using nin by auto
  have yin: "(y, rr) \<in> set (frees (heap_listp s3 + 8) (pre @ (asize, True) # (rr, False) # post))"
    unfolding fr by simp
  have nf3: "naf True (pre @ (asize, True) # (rr, False) # post)"
    using nf na by (cases post) (auto simp: naf_append)
  have "Inv (insertx y rr s3) (pre @ (asize, True) # (rr, False) # post)
          (?fl1(class_of rr := y # ?fl1 (class_of rr)))"
    by (rule Inv_insert[OF h3 nf3 l3 F1 yin])
  then show ?thesis using pl f1 unfolding rr_def[symmetric] y_def[symmetric]
    by (auto simp: s3_def)
qed

lemma place_split_tail:
  assumes inv: "Inv s bs fl" and bs: "bs = pre @ (csize, False) # post"
    and x: "x = heap_listp s + 8 + total pre" and ale: "asize \<le> csize"
    and a16: "16 \<le> asize" and a8: "8 dvd asize"
    and g: "guard (class_of csize) asize" and big: "16 \<le> csize - asize" and tl: "\<not> asize < 120"
  shows "\<exists>s'. place x asize s = Some (x + (csize - asize), s') \<and>
           Inv s' (pre @ (csize - asize, False) # (asize, True) # post)
             ((fl(class_of csize := remove1 x (fl (class_of csize))))
                (class_of (csize - asize) := x #
                   (fl(class_of csize := remove1 x (fl (class_of csize)))) (class_of (csize - asize)))) \<and>
           heap_listp s' = heap_listp s \<and> mem_brk s' = mem_brk s \<and>
           mem_start_brk s' = mem_start_brk s \<and> mem_max_addr s' = mem_max_addr s"
proof -
  let ?fl1 = "fl(class_of csize := remove1 x (fl (class_of csize)))"
  from place_prelude[OF inv bs x g] obtain s1 where s1: "deletex x asize s = Some s1"
    and h1': "heap_ok s1 bs"
    and l1': "lists_ok (mem s1) (heads s1) ?fl1
               (set (frees (heap_listp s + 8) pre) \<union> set (frees (x + csize) post))"
    and f1: "heap_listp s1 = heap_listp s" "mem_brk s1 = mem_brk s"
      "mem_start_brk s1 = mem_start_brk s" "mem_max_addr s1 = mem_max_addr s"
    and ob: "outb True pre" and na: "next_alloc post" and nf: "naf True pre" "naf True post"
    by blast
  have h0: "heap_ok s (pre @ (csize, False) # post)" using inv bs by (simp add: Inv_def)
  have h1: "heap_ok s1 (pre @ (csize, False) # post)" using h1' bs by simp
  have x1: "x = heap_listp s1 + 8 + total pre" using x f1 by simp
  have l1: "lists_ok (mem s1) (heads s1) ?fl1
               (set (frees (heap_listp s1 + 8) pre) \<union> set (frees (x + csize) post))"
    using l1' f1 by simp
  note r0 = heap_block_at[OF h0 x] and r = heap_block_at[OF h1 x1] and d = heap_okD[OF h1]
  have rd: "GET_SIZE (mem s) (x - 4) = csize" "PREVX (mem s) (x - 4) = 4"
    using r0(14,15) ob by simp_all
  define rr where "rr = csize - asize"
  have sb: "sub64 csize asize = rr" unfolding rr_def by (rule sub64_le[OF ale]) (use r(5) in simp)
  define q where "q = x + csize"
  define y where "y = x + rr"
  define ns where "ns = next_size post"
  define hd where "hd = heads s1 (class_of rr)"
  define m1 where "m1 = PUT (mem s1) (x - 4) (PACK rr 4 0)"
  define m2 where "m2 = PUT m1 (y - 8) (PACK rr 4 0)"
  define m2L where "m2L = PUTL m2 x hd"
  define m3 where "m3 = PUT m2L (y - 4) (PACK asize 0 1)"
  define m4 where "m4 = PUT m3 (q - 4) (PACK ns 4 1)"
  define mG where "mG = PUT (PUT m2 (y - 4) (PACK asize 0 1)) (q - 4) (PACK ns 4 1)"
  have rr: "16 \<le> rr" "8 dvd rr" "rr < 4294967296" "asize < 4294967296" "rr + asize = csize"
    using big a8 r(4,5) ale by (auto simp: rr_def)
  have ar: "16 \<le> csize" "16 \<le> x" "x + 12 \<le> y - 4" "4 \<le> q" "y + 12 \<le> q - 4" "y + asize = q"
    "x + 8 \<le> y - 8" "x + 16 \<le> y"
    using r(3,6) rr a16 by (auto simp: q_def y_def)
  have ns8: "8 dvd ns" "ns < 4294967296" using r(9,10) by (simp_all add: ns_def)
  have cm: "m4 = PUTL mG x hd"
  proof -
    have "m3 = PUTL (PUT m2 (y - 4) (PACK asize 0 1)) x hd"
      unfolding m3_def m2L_def by (rule PUT_PUTL_comm) (use ar in auto)
    then have "m4 = PUT (PUTL (PUT m2 (y - 4) (PACK asize 0 1)) x hd) (q - 4) (PACK ns 4 1)"
      by (simp only: m4_def)
    also have "\<dots> = PUTL mG x hd"
      unfolding mG_def by (rule PUT_PUTL_comm) (use ar in auto)
    finally show ?thesis .
  qed
  have g1: "GET m1 (x - 4) = hdw rr True False" unfolding m1_def by (simp only: GET_PUT_same hdw_PACK)
  have g2: "GET m2 (x - 4) = hdw rr True False"
    unfolding m2_def using g1 ar by (subst GET_PUT_other) auto
  have g2L: "GET m2L (x - 4) = hdw rr True False"
    unfolding m2L_def using g2 ar by (subst GET_PUTL_other) auto
  have gf2: "GET m2 (y - 8) = hdw rr True False" unfolding m2_def by (simp only: GET_PUT_same hdw_PACK)
  have gy3: "GET m3 (y - 4) = hdw asize False True" unfolding m3_def by (simp only: GET_PUT_same hdw_PACK)
  have gy4: "GET m4 (y - 4) = hdw asize False True"
    unfolding m4_def using gy3 ar by (subst GET_PUT_other) auto
  have gq0: "GET (mem s1) (q - 4) = hdw ns False True" using r(8) na by (simp add: q_def ns_def)
  have gq1: "GET m1 (q - 4) = hdw ns False True"
    unfolding m1_def using gq0 ar by (subst GET_PUT_other) auto
  have gq2: "GET m2 (q - 4) = hdw ns False True"
    unfolding m2_def using gq1 ar by (subst GET_PUT_other) auto
  have gq2L: "GET m2L (q - 4) = hdw ns False True"
    unfolding m2L_def using gq2 ar by (subst GET_PUTL_other) auto
  have gq3: "GET m3 (q - 4) = hdw ns False True"
    unfolding m3_def using gq2L ar by (subst GET_PUT_other) auto
  have gq4: "GET m4 (q - 4) = hdw ns True True" unfolding m4_def by (simp only: GET_PUT_same hdw_PACK)
  have ftrp1: "FTRP m1 x = y - 8"
    using read_hdw(1)[OF g1 rr(2,3)] by (simp add: FTRP_def HDRP_def y_def)
  have nx2: "NEXT_BLKP m2L x = y" using read_hdw(1)[OF g2L rr(2,3)] by (simp add: NEXT_BLKP_def y_def)
  have nx3: "NEXT_BLKP m3 y = q" using read_hdw(1)[OF gy3 a8 rr(4)] ar by (simp add: NEXT_BLKP_def)
  have nx4: "NEXT_BLKP m4 y = q" using read_hdw(1)[OF gy4 a8 rr(4)] ar by (simp add: NEXT_BLKP_def)
  have rq3: "GET_SIZE m3 (q - 4) = ns" "GET_ALLOC m3 (q - 4) = 1"
    using read_hdw[OF gq3 ns8] by auto
  have rq4: "GET_ALLOC m4 (q - 4) = 1" using read_hdw[OF gq4 ns8] by auto
  define sG where "sG = s1\<lparr>mem := mG\<rparr>"
  have ms2: "mem (insertx x rr (s1\<lparr>mem := m2\<rparr>)) = m2L"
    by (simp add: insertx_mem m2L_def hd_def)
  have fin: "(insertx x rr (s1\<lparr>mem := m2\<rparr>))\<lparr>mem := m4\<rparr> = insertx x rr sG"
    unfolding cm by (simp add: insertx_def Let_def sG_def hd_def)
  have pl: "place x asize s = Some (y, insertx x rr sG)"
    unfolding place_def using rd s1 sb rr(1) tl ftrp1 
    by (simp add: Let_def HDRP_def m1_def[symmetric] m2_def[symmetric] ms2 nx2 m3_def[symmetric]
          nx3 rq3 m4_def[symmetric] nx4 rq4 fin del: One_nat_def)
  define mG1 where "mG1 = PUT m2 (y - 4) (PACK asize 0 1)"
  have mG: "mG = PUT mG1 (q - 4) (PACK ns 4 1)" by (simp only: mG_def mG1_def)
  have gG1': "GET mG1 (x - 4) = hdw rr True False"
    unfolding mG1_def using g2 ar by (subst GET_PUT_other) auto
  have gG1: "GET mG (x - 4) = hdw rr True False"
    unfolding mG using gG1' ar by (subst GET_PUT_other) auto
  have gGf': "GET mG1 (y - 8) = hdw rr True False"
    unfolding mG1_def using gf2 ar by (subst GET_PUT_other) auto
  have gGf: "GET mG (y - 8) = hdw rr True False"
    unfolding mG using gGf' ar by (subst GET_PUT_other) auto
  have gGy': "GET mG1 (y - 4) = hdw asize False True"
    unfolding mG1_def by (simp only: GET_PUT_same hdw_PACK)
  have gGy: "GET mG (y - 4) = hdw asize False True"
    unfolding mG using gGy' ar by (subst GET_PUT_other) auto
  have gGq: "GET mG (q - 4) = hdw ns True True" unfolding mG_def by (simp only: GET_PUT_same hdw_PACK)
  have a1: "agree (mem s1) mG (heap_listp s1 - 4) (x - 4)"
    unfolding mG_def m2_def m1_def
    by (rule agree_trans[OF agree_trans[OF agree_trans[OF agree_PUT agree_PUT] agree_PUT] agree_PUT])
       (use ar in auto)
  have a2: "agree (mem s1) mG (x + csize) (mem_brk s1)"
    unfolding mG_def m2_def m1_def
    by (rule agree_trans[OF agree_trans[OF agree_trans[OF agree_PUT agree_PUT] agree_PUT] agree_PUT])
       (use ar in \<open>auto simp: q_def\<close>)
  have yq: "x + rr - 8 = y - 8" "x + rr - 4 = y - 4" using rr by (auto simp: q_def y_def)
  have mid: "blocks_ok mG x (outb True pre) [(rr, False), (asize, True)]"
    using gG1 gGf gGy a16 a8 rr(1,2) ob yq by simp
  have gq: "GET mG (x + csize - 4) = hdw (next_size post) (outb (outb True pre) [(rr, False), (asize, True)]) True"
    using gGq by (simp add: q_def ns_def outb_def)
  have tm: "total [(rr, False), (asize, True)] = csize" using rr by simp
  from place_region[OF h1 x1 l1 na a1 a2 mid tm gq]
  have h3: "heap_ok sG (pre @ (rr, False) # (asize, True) # post)"
    and l3: "lists_ok (mem sG) (heads sG) ?fl1
           (set (frees (heap_listp s1 + 8) pre) \<union> set (frees (x + csize) post))"
    by (simp_all add: sG_def)
  have bpre: "blocks_ok (mem s1) (heap_listp s1 + 8) True pre"
    and bpost: "blocks_ok (mem s1) (x + csize) False post"
    using d(4) x1 by (auto simp: blocks_ok_append)
  have nin: "(x, rr) \<notin> set (frees (heap_listp s1 + 8) pre)" "(x, rr) \<notin> set (frees (x + csize) post)"
    using frees_range[OF bpre, of x rr] frees_range[OF bpost, of x rr] x1 ar by (auto simp: q_def y_def)
  have fr: "frees (heap_listp sG + 8) (pre @ (rr, False) # (asize, True) # post)
          = frees (heap_listp s1 + 8) pre @ (x, rr) # frees (x + csize) post"
    using x1 rr(5) by (simp add: sG_def add.assoc)
  have F1: "set (frees (heap_listp s1 + 8) pre) \<union> set (frees (x + csize) post)
          = set (frees (heap_listp sG + 8) (pre @ (rr, False) # (asize, True) # post)) - {(x, rr)}"
    unfolding fr using nin by auto
  have xin: "(x, rr) \<in> set (frees (heap_listp sG + 8) (pre @ (rr, False) # (asize, True) # post))"
    unfolding fr by simp
  have nf3: "naf True (pre @ (rr, False) # (asize, True) # post)"
    using nf ob by (auto simp: naf_append)
  have "Inv (insertx x rr sG) (pre @ (rr, False) # (asize, True) # post)
          (?fl1(class_of rr := x # ?fl1 (class_of rr)))"
    by (rule Inv_insert[OF h3 nf3 l3 F1 xin])
  then show ?thesis using pl f1 unfolding rr_def[symmetric] y_def[symmetric]
    by (auto simp: sG_def)
qed

lemma max_request_unat: "n \<le> max_request \<Longrightarrow> unat n \<le> 18446744073709551604"
  unfolding max_request_def by (simp add: word_le_nat_alt)

lemma adjust_bounded:
  assumes "n \<le> max_request"
  shows "adjust n = (if unat n \<le> 8 then 16 else 8 * ((unat n + 11) div 8))"
proof -
  have u: "unat n \<le> 18446744073709551604" by (rule max_request_unat[OF assms])
  have le8: "n \<le> 8 \<longleftrightarrow> unat n \<le> 8" by (simp add: word_le_nat_alt)
  have e: "4 + n + 7 = n + 11" by simp
  have "unat n + unat (11 :: 64 word) < 2 ^ LENGTH(64)" using u by simp
  then have a: "unat (n + 11) = unat n + 11" by (simp add: unat_add_lem[THEN iffD1])
  have d: "unat ((n + 11) div 8) = (unat n + 11) div 8" by (simp add: unat_div a)
  have "unat (8 :: 64 word) * unat ((n + 11) div 8) < 2 ^ LENGTH(64)" using u d by simp
  then have "unat (8 * ((n + 11) div 8)) = unat (8 :: 64 word) * unat ((n + 11) div 8)"
    by (simp only: unat_mult_lem[THEN iffD1])
  then have "unat (8 * ((n + 11) div 8)) = 8 * ((unat n + 11) div 8)" using d by simp
  then show ?thesis unfolding adjust_def e le8 by simp
qed

lemma adjust_props:
  assumes "n \<le> max_request"
  shows "16 \<le> adjust n" "8 dvd adjust n" "unat n + 4 \<le> adjust n"
    "adjust n < 18446744073709551616"
proof -
  note a = adjust_bounded[OF assms] and u = max_request_unat[OF assms]
  show "16 \<le> adjust n" unfolding a by auto
  show "8 dvd adjust n" unfolding a by auto
  show "unat n + 4 \<le> adjust n" unfolding a by auto
  have "adjust n \<le> unat n + 16" unfolding a using u by auto
  moreover have "8 * ((unat n + 11) div 8) \<le> unat n + 11" by simp
  ultimately have "adjust n \<le> max 16 (unat n + 11)" unfolding a by auto
  then show "adjust n < 18446744073709551616" using u by simp
qed

section \<open>Allocation\<close>

lemma Inv_free_hdr:
  assumes "Inv s bs fl" "(x, sz) \<in> set (frees (heap_listp s + 8) bs)"
  shows "GET_SIZE (mem s) (HDRP x) = sz" "GET_ALLOC (mem s) (HDRP x) = 0"
proof -
  from frees_split[OF assms(2)] obtain pre post where bs: "bs = pre @ (sz, False) # post"
    and x: "x = heap_listp s + 8 + total pre" by blast
  have h: "heap_ok s (pre @ (sz, False) # post)" using assms(1) bs by (simp add: Inv_def)
  show "GET_SIZE (mem s) (HDRP x) = sz" "GET_ALLOC (mem s) (HDRP x) = 0"
    using heap_block_at(14,16)[OF h x] by (simp_all add: HDRP_def)
qed

lemma Inv_alloc_hdr:
  assumes "Inv s bs fl" "(x, sz) \<in> set (allocs (heap_listp s + 8) bs)"
  shows "GET_SIZE (mem s) (HDRP x) = sz" "GET_ALLOC (mem s) (HDRP x) = 1" "x \<noteq> 0" "16 \<le> sz"
proof -
  from allocs_split[OF assms(2)] obtain pre post where bs: "bs = pre @ (sz, True) # post"
    and x: "x = heap_listp s + 8 + total pre" by blast
  have h: "heap_ok s (pre @ (sz, True) # post)" using assms(1) bs by (simp add: Inv_def)
  show "GET_SIZE (mem s) (HDRP x) = sz" "GET_ALLOC (mem s) (HDRP x) = 1" "x \<noteq> 0" "16 \<le> sz"
    using heap_block_at(14,16,6,3)[OF h x] by (simp_all add: HDRP_def)
qed

text \<open>\<^verbatim>\<open>find_fit\<close> returns \<^verbatim>\<open>NULL\<close> or a listed block that is large enough and that
  \<^verbatim>\<open>deletex\<close>, called with the same size, will find.\<close>

lemma find_fit_ok:
  assumes inv: "Inv s bs fl"
  shows "\<exists>bp. find_fit a s = Some bp \<and>
           (bp = 0 \<or> (\<exists>sz. (bp, sz) \<in> set (frees (heap_listp s + 8) bs) \<and> a \<le> sz \<and> guard (class_of sz) a))"
proof -
  let ?F = "set (frees (heap_listp s + 8) bs)"
  let ?L = "concat (map fl (filter (\<lambda>k. guard k a) classes))"
  have h: "heap_ok s bs" and l: "lists_ok (mem s) (heads s) fl ?F"
    using inv by (auto simp: Inv_def)
  have g: "Fgood ?F" by (rule heap_ok_Fgood[OF h subset_refl])
  have ff: "find_fit a s = Some (first_fit (mem s) a ?L)"
    unfolding find_fit_def by (rule find_fit_from_ok[OF l g])
  show ?thesis
  proof (cases "first_fit (mem s) a ?L = 0")
    case True
    then show ?thesis using ff by simp
  next
    case False
    define r where "r = first_fit (mem s) a ?L"
    from first_fit_cases[of "mem s" a ?L] False
    have rin: "r \<in> set ?L" and ge: "a \<le> GET_SIZE (mem s) (HDRP r)" by (auto simp: r_def)
    from rin obtain k where k: "guard k a" "r \<in> set (fl k)" by auto
    from lists_ok_in_F[OF l k(2)] obtain sz where sz: "(r, sz) \<in> ?F" "class_of sz = k" by blast
    have "GET_SIZE (mem s) (HDRP r) = sz" by (rule Inv_free_hdr[OF inv sz(1)])
    then have "a \<le> sz" "guard (class_of sz) a" using ge k(1) sz(2) by auto
    then show ?thesis using ff sz(1) unfolding r_def[symmetric] by blast
  qed
qed

lemma place_ok:
  assumes inv: "Inv s bs fl" and xin: "(x, csize) \<in> set (frees (heap_listp s + 8) bs)"
    and ale: "asize \<le> csize" and a16: "16 \<le> asize" and a8: "8 dvd asize"
    and g: "guard (class_of csize) asize"
  shows "\<exists>x' s' bs' fl' k. place x asize s = Some (x', s') \<and> Inv s' bs' fl' \<and>
           heap_listp s' = heap_listp s \<and> mem_brk s' = mem_brk s \<and>
           mem_start_brk s' = mem_start_brk s \<and> mem_max_addr s' = mem_max_addr s \<and>
           x' \<noteq> 0 \<and> asize \<le> k \<and> x' \<notin> fst ` set (allocs (heap_listp s + 8) bs) \<and>
           set (allocs (heap_listp s + 8) bs') = insert (x', k) (set (allocs (heap_listp s + 8) bs))"
proof -
  let ?p0 = "heap_listp s + 8"
  from frees_split[OF xin] obtain pre post where bs: "bs = pre @ (csize, False) # post"
    and x: "x = ?p0 + total pre" by blast
  have h: "heap_ok s (pre @ (csize, False) # post)" using inv bs by (simp add: Inv_def)
  note r = heap_block_at[OF h x] and d = heap_okD[OF h]
  have a0: "set (allocs ?p0 bs) = set (allocs ?p0 pre) \<union> set (allocs (x + csize) post)"
    using bs x by (simp add: add.assoc)
  have bpre: "blocks_ok (mem s) ?p0 True pre" and bpost: "blocks_ok (mem s) (x + csize) False post"
    using d(4) x by (auto simp: blocks_ok_append)
  have fresh: "z \<notin> fst ` set (allocs ?p0 bs)" if "x \<le> z" "z < x + csize" for z
  proof
    assume "z \<in> fst ` set (allocs ?p0 bs)"
    then obtain k where "(z, k) \<in> set (allocs ?p0 pre) \<or> (z, k) \<in> set (allocs (x + csize) post)"
      unfolding a0 by fastforce
    then show False
      using allocs_range[OF bpre, of z k] allocs_range[OF bpost, of z k] x that by auto
  qed
  consider (C) "csize - asize < 16" | (A) "16 \<le> csize - asize" "asize < 120"
    | (B) "16 \<le> csize - asize" "\<not> asize < 120" by linarith
  then show ?thesis
  proof cases
    case C
    from place_nosplit[OF inv bs x ale g C] obtain s' where s':
      "place x asize s = Some (x, s')"
      "Inv s' (pre @ (csize, True) # post) (fl(class_of csize := remove1 x (fl (class_of csize))))"
      "heap_listp s' = heap_listp s" "mem_brk s' = mem_brk s"
      "mem_start_brk s' = mem_start_brk s" "mem_max_addr s' = mem_max_addr s" by blast
    have "set (allocs ?p0 (pre @ (csize, True) # post)) = insert (x, csize) (set (allocs ?p0 bs))"
      unfolding a0 using x by (simp add: add.assoc)
    moreover have "x \<noteq> 0" using r(6) by simp
    moreover have "x \<notin> fst ` set (allocs ?p0 bs)" by (rule fresh) (use r(3) in auto)
    ultimately show ?thesis using s' ale by blast
  next
    case A
    define rr where "rr = csize - asize"
    have e: "x + asize + rr = x + csize" using ale by (simp add: rr_def)
    from place_split_head[OF inv bs x ale a16 a8 g A] obtain s' fl' where s':
      "place x asize s = Some (x, s')"
      "Inv s' (pre @ (asize, True) # (rr, False) # post) fl'"
      "heap_listp s' = heap_listp s" "mem_brk s' = mem_brk s"
      "mem_start_brk s' = mem_start_brk s" "mem_max_addr s' = mem_max_addr s"
      unfolding rr_def by blast
    have "set (allocs ?p0 (pre @ (asize, True) # (rr, False) # post))
        = insert (x, asize) (set (allocs ?p0 bs))"
      unfolding a0 using x e by (simp add: add.assoc)
    moreover have "x \<noteq> 0" using r(6) by simp
    moreover have "x \<notin> fst ` set (allocs ?p0 bs)" by (rule fresh) (use r(3) in auto)
    ultimately show ?thesis using s' by blast
  next
    case B
    define rr where "rr = csize - asize"
    have e: "x + rr + asize = x + csize" using ale by (simp add: rr_def)
    from place_split_tail[OF inv bs x ale a16 a8 g B] obtain s' fl' where s':
      "place x asize s = Some (x + rr, s')"
      "Inv s' (pre @ (rr, False) # (asize, True) # post) fl'"
      "heap_listp s' = heap_listp s" "mem_brk s' = mem_brk s"
      "mem_start_brk s' = mem_start_brk s" "mem_max_addr s' = mem_max_addr s"
      unfolding rr_def by blast
    have "set (allocs ?p0 (pre @ (rr, False) # (asize, True) # post))
        = insert (x + rr, asize) (set (allocs ?p0 bs))"
      unfolding a0 using x e by (simp add: add.assoc)
    moreover have "x + rr \<noteq> 0" using r(6) by simp
    moreover have "x + rr \<notin> fst ` set (allocs ?p0 bs)"
      by (rule fresh) (use a16 ale in \<open>auto simp: rr_def\<close>)
    ultimately show ?thesis using s' by blast
  qed
qed

lemma guard_large: "4096 \<le> sz \<Longrightarrow> a \<le> sz \<Longrightarrow> guard (class_of sz) a"
  by (simp add: class_of_def guard_def)

lemma malloc_ok:
  assumes inv: "Inv s bs fl" and n: "n \<le> max_request"
  shows "\<exists>p s' bs' fl'. malloc n s = Some (p, s') \<and> Inv s' bs' fl' \<and>
           heap_listp s' = heap_listp s \<and>
           mem_start_brk s' = mem_start_brk s \<and> mem_max_addr s' = mem_max_addr s \<and>
           ((p = 0 \<and> s' = s \<and> bs' = bs) \<or>
            (p \<noteq> 0 \<and> n \<noteq> 0 \<and>
             (\<exists>k. adjust n \<le> k \<and> p \<notin> fst ` set (allocs (heap_listp s + 8) bs) \<and>
                set (allocs (heap_listp s + 8) bs') = insert (p, k) (set (allocs (heap_listp s + 8) bs)))))"
proof (cases "n = 0")
  case True
  have "malloc n s = Some (0, s)" using True Inv_nonzero[OF inv] by (simp add: malloc_def)
  then show ?thesis using inv by blast
next
  case n0: False
  let ?p0 = "heap_listp s + 8"
  define a where "a = adjust n"
  note ap = adjust_props[OF n, folded a_def]
  have hl: "heap_listp s \<noteq> 0" by (rule Inv_nonzero[OF inv])
  from find_fit_ok[OF inv, of a] obtain bp where bp: "find_fit a s = Some bp"
    "bp = 0 \<or> (\<exists>sz. (bp, sz) \<in> set (frees ?p0 bs) \<and> a \<le> sz \<and> guard (class_of sz) a)" by blast
  show ?thesis
  proof (cases "bp = 0")
    case False
    then obtain sz where sz: "(bp, sz) \<in> set (frees ?p0 bs)" "a \<le> sz" "guard (class_of sz) a"
      using bp(2) by blast
    from place_ok[OF inv sz(1,2) ap(1,2) sz(3)] obtain x' s' bs' fl' k where p:
      "place bp a s = Some (x', s')" "Inv s' bs' fl'"
      "heap_listp s' = heap_listp s" "mem_start_brk s' = mem_start_brk s"
      "mem_max_addr s' = mem_max_addr s" "x' \<noteq> 0" "a \<le> k"
      "set (allocs ?p0 bs') = insert (x', k) (set (allocs ?p0 bs))"
      "x' \<notin> fst ` set (allocs ?p0 bs)" by blast
    have "malloc n s = Some (x', s')"
      using n0 hl bp(1) False p(1) by (simp add: malloc_def a_def Let_def)
    then show ?thesis using p(2-9) n0 unfolding a_def by blast
  next
    case True
    define w where "w = max a 4096 div 4"
    have m8: "8 dvd max a 4096" using ap(2) by (simp add: max_def)
    then have w2: "w mod 2 = 0" unfolding w_def by (auto elim!: dvdE)
    have w4: "4 * w = max a 4096" using m8 unfolding w_def by (auto elim!: dvdE)
    have "4 * w < 18446744073709551616" "4096 \<le> 4 * w" "2 dvd w"
      using w4 ap(4) w2 by auto
    then have wb: "3 \<le> w" "w < 4611686018427387903" by presburger+
    have ws: "max a 4096 = 4 * (w + w mod 2)" using w2 w4 by simp
    have ml: "malloc n s = Option.bind (extend_heap w s)
                (\<lambda>(bp, s2). if bp = 0 then Some (0, s2) else place bp a s2)"
      using n0 hl bp(1) True by (simp add: malloc_def a_def[symmetric] Let_def w_def)
    from extend_heap_ok[OF inv wb ws]
    consider (fail) "extend_heap w s = Some (0, s)"
      | (ok) x' s2 bs2 fl2 sz2 where "extend_heap w s = Some (x', s2)" "Inv s2 bs2 fl2" "x' \<noteq> 0"
          "(x', sz2) \<in> set (frees ?p0 bs2)" "max a 4096 \<le> sz2"
          "allocs ?p0 bs2 = allocs ?p0 bs" "heap_listp s2 = heap_listp s"
          "mem_start_brk s2 = mem_start_brk s" "mem_max_addr s2 = mem_max_addr s"
      by blast
    then show ?thesis
    proof cases
      case fail
      then have "malloc n s = Some (0, s)" using ml by simp
      then show ?thesis using inv by blast
    next
      case ok
      have le: "a \<le> sz2" and g: "guard (class_of sz2) a"
        using ok(5) by (auto intro: guard_large)
      have xin: "(x', sz2) \<in> set (frees (heap_listp s2 + 8) bs2)" using ok(4,7) by simp
      from place_ok[OF ok(2) xin le ap(1,2) g] obtain x'' s' bs' fl' k where p:
        "place x' a s2 = Some (x'', s')" "Inv s' bs' fl'"
        "heap_listp s' = heap_listp s2" "mem_start_brk s' = mem_start_brk s2"
        "mem_max_addr s' = mem_max_addr s2" "x'' \<noteq> 0" "a \<le> k"
        "set (allocs (heap_listp s2 + 8) bs') = insert (x'', k) (set (allocs (heap_listp s2 + 8) bs2))"
        "x'' \<notin> fst ` set (allocs (heap_listp s2 + 8) bs2)"
        by blast
      have "malloc n s = Some (x'', s')" using ml ok(1,3) p(1) by simp
      moreover have "set (allocs ?p0 bs') = insert (x'', k) (set (allocs ?p0 bs))"
        using p(8) ok(6,7) by simp
      moreover have "x'' \<notin> fst ` set (allocs ?p0 bs)" using p(9) ok(6,7) by simp
      ultimately show ?thesis using p(2-7) ok(7-9) n0 unfolding a_def by auto
    qed
  qed
qed

lemma agree_memcpy: "hi \<le> dst \<or> dst + n \<le> lo \<Longrightarrow> agree m (memcpy m dst src n) lo hi"
  by (auto simp: agree_def memcpy_def)

text \<open>Writes inside the payload of an allocated block.\<close>

lemma Inv_payload_write:
  assumes inv: "Inv s bs fl" and pin: "(p, k) \<in> set (allocs (heap_listp s + 8) bs)"
    and ag1: "agree (mem s) m' (heap_listp s - 4) p"
    and ag2: "agree (mem s) m' (p + k - 4) (mem_brk s)"
  shows "Inv (s\<lparr>mem := m'\<rparr>) bs fl"
proof -
  let ?p0 = "heap_listp s + 8"
  from allocs_split[OF pin] obtain pre post where bs: "bs = pre @ (k, True) # post"
    and x: "p = ?p0 + total pre" by blast
  have h: "heap_ok s (pre @ (k, True) # post)" and nf: "naf True bs"
    and l: "lists_ok (mem s) (heads s) fl (set (frees ?p0 bs))"
    using inv bs by (auto simp: Inv_def)
  note r = heap_block_at[OF h x] and d = heap_okD[OF h]
  have bpre: "blocks_ok (mem s) ?p0 True pre" using d(4) by (simp add: blocks_ok_append)
  have t0: "tail_ok (mem s) (p + k) True post (mem_brk s)"
    using d(5) x by (simp add: tail_ok_append tail_ok_Cons)
  have bpost: "blocks_ok (mem s) (p + k) True post" using t0 by (simp add: tail_ok_def)
  have a1: "agree (mem s) m' (heap_listp s - 4) (p - 4)" by (rule agree_mono[OF ag1]) auto
  have "GET m' (p - 4) = GET (mem s) (p - 4)"
    by (rule agree_GET[OF ag1]) (use r(6) x in auto)
  then have mid: "blocks_ok m' p (outb True pre) [(k, True)]" using r(1,3,4) by simp
  have t: "tail_ok m' (p + total [(k, True)]) (outb (outb True pre) [(k, True)]) post (mem_brk s)"
  proof -
    have "tail_ok m' (p + k) True post (mem_brk s)"
      by (rule tail_ok_agree[OF t0]) (use r(3) ag2 in auto)
    then show ?thesis by (simp add: outb_def)
  qed
  from region_rewrite[OF h bpre x a1 mid t]
  have h': "heap_ok (s\<lparr>mem := m'\<rparr>) bs" using bs by simp
  have F: "set (frees ?p0 bs) \<subseteq> set (frees ?p0 pre) \<union> set (frees (p + k) post)"
    using bs x by (simp add: add.assoc)
  have l': "lists_ok m' (heads s) fl (set (frees ?p0 bs))"
  proof (rule lists_frame_region[OF l F bpre bpost x])
    show "p \<le> p + k" by simp
    show "p + k + total post \<le> mem_brk s" using r(12) by simp
    show "agree (mem s) m' ?p0 (p - 4)" by (rule agree_mono[OF ag1]) auto
    show "agree (mem s) m' (p + k) (mem_brk s)" by (rule agree_mono[OF ag2]) auto
  qed
  show ?thesis unfolding Inv_def using h' nf l' by simp
qed

lemma free_null: "free 0 s = Some s"
  by (simp add: free_def)

lemma realloc_ok:
  assumes inv: "Inv s bs fl" and n: "n \<le> max_request"
    and p: "p = 0 \<or> (\<exists>sz. (p, sz) \<in> set (allocs (heap_listp s + 8) bs))"
  shows "\<exists>q s' bs' fl'. realloc p n s = Some (q, s') \<and> Inv s' bs' fl' \<and>
           heap_listp s' = heap_listp s \<and>
           mem_start_brk s' = mem_start_brk s \<and> mem_max_addr s' = mem_max_addr s"
proof -
  let ?p0 = "heap_listp s + 8"
  consider (z) "n = 0" "p = 0" | (f) sz where "n = 0" "(p, sz) \<in> set (allocs ?p0 bs)"
    | (m) "n \<noteq> 0" "p = 0" | (r) sz where "n \<noteq> 0" "p \<noteq> 0" "(p, sz) \<in> set (allocs ?p0 bs)"
    using p by blast
  then show ?thesis
  proof cases
    case z
    then have "realloc p n s = Some (0, s)" by (simp add: realloc_def free_null)
    then show ?thesis using inv by blast
  next
    case f
    from free_ok[OF inv f(2)] obtain s' bs' fl' where
      "free p s = Some s'" "Inv s' bs' fl'" "heap_listp s' = heap_listp s"
      "mem_start_brk s' = mem_start_brk s" "mem_max_addr s' = mem_max_addr s" by blast
    then show ?thesis using f(1) by (auto simp: realloc_def)
  next
    case m
    from malloc_ok[OF inv n] obtain q s' bs' fl' where
      "malloc n s = Some (q, s')" "Inv s' bs' fl'" "heap_listp s' = heap_listp s"
      "mem_start_brk s' = mem_start_brk s" "mem_max_addr s' = mem_max_addr s" by blast
    then show ?thesis using m by (auto simp: realloc_def)
  next
    case r
    from malloc_ok[OF inv n] obtain q s1 bs1 fl1 where ml:
      "malloc n s = Some (q, s1)" "Inv s1 bs1 fl1" "heap_listp s1 = heap_listp s"
      "mem_start_brk s1 = mem_start_brk s" "mem_max_addr s1 = mem_max_addr s"
      "(q = 0 \<and> s1 = s \<and> bs1 = bs) \<or>
       (q \<noteq> 0 \<and> n \<noteq> 0 \<and> (\<exists>k. adjust n \<le> k \<and> q \<notin> fst ` set (allocs ?p0 bs) \<and>
           set (allocs ?p0 bs1) = insert (q, k) (set (allocs ?p0 bs))))" by blast
    show ?thesis
    proof (cases "q = 0")
      case True
      then have "realloc p n s = Some (0, s1)" using r ml(1) by (simp add: realloc_def)
      then show ?thesis using ml(2-5) by blast
    next
      case False
      then obtain k where k: "adjust n \<le> k"
        "set (allocs ?p0 bs1) = insert (q, k) (set (allocs ?p0 bs))" using ml(6) by blast
      have qin: "(q, k) \<in> set (allocs (heap_listp s1 + 8) bs1)"
        and pin: "(p, sz) \<in> set (allocs (heap_listp s1 + 8) bs1)"
        using k(2) r(3) ml(3) by auto
      define os where "os = (if unat n < sz then unat n else sz)"
      define s2 where "s2 = s1\<lparr>mem := memcpy (mem s1) q p os\<rparr>"
      have rd: "GET_SIZE (mem s1) (HDRP p) = sz" by (rule Inv_alloc_hdr(1)[OF ml(2) pin])
      have "os \<le> unat n" by (simp add: os_def)
      then have le: "q + os \<le> q + k - 4" using adjust_props(3)[OF n] k(1) by linarith
      have i2: "Inv s2 bs1 fl1"
        unfolding s2_def
        by (rule Inv_payload_write[OF ml(2) qin]) (rule agree_memcpy, use le in simp)+
      have pin2: "(p, sz) \<in> set (allocs (heap_listp s2 + 8) bs1)" using pin by (simp add: s2_def)
      from free_ok[OF i2 pin2] obtain s' bs' fl' where fr:
        "free p s2 = Some s'" "Inv s' bs' fl'" "heap_listp s' = heap_listp s2"
        "mem_start_brk s' = mem_start_brk s2" "mem_max_addr s' = mem_max_addr s2" by blast
      have "realloc p n s = map_option (Pair q) (free p s2)"
        using r(1,2) ml(1) False rd
        by (simp add: realloc_def Let_def os_def s2_def)
      then have "realloc p n s = Some (q, s')" using fr(1) by simp
      then show ?thesis using fr(2-5) ml(3-5) by (auto simp: s2_def)
    qed
  qed
qed

section \<open>The block walk on a well-formed heap\<close>

lemma heap_blocks_tail:
  "tail_ok m p pa bs e \<Longrightarrow> total bs < 4294967296 \<Longrightarrow> heap_blocks m e p = addrs p bs @ [e]"
proof (induction bs arbitrary: p pa)
  case Nil
  then have "p = e" by (simp add: tail_ok_Nil)
  then show ?case by (subst heap_blocks.simps) simp
next
  case (Cons b bs)
  obtain sz a where b: "b = (sz, a)" by (cases b)
  from Cons.prems b have s: "16 \<le> sz" "8 dvd sz" "sz < 4294967296"
    and g: "GET m (p - 4) = hdw sz pa a" and t: "tail_ok m (p + sz) a bs e"
    and tb: "total bs < 4294967296"
    by (simp_all add: tail_ok_Cons)
  have rd: "GET_SIZE m (p - 4) = sz" by (rule read_hdw(1)[OF g s(2,3)])
  have "p < e" using tail_ok_le[OF t] s(1) by simp
  then have "heap_blocks m e p = p # heap_blocks m e (p + sz)"
    using rd s(1) by (subst heap_blocks.simps) (simp add: HDRP_def NEXT_BLKP_def)
  then show ?case using Cons.IH[OF t tb] b by simp
qed

lemma heap_ok_blocks:
  assumes h: "heap_ok s bs"
  shows "blocks s = heap_listp s # addrs (heap_listp s + 8) bs @ [mem_brk s]"
proof -
  note d = heap_okD[OF h] and b = heap_ok_bounds[OF h]
  have rd: "GET_SIZE (mem s) (heap_listp s - 4) = 8" by (rule read_hdw(1)[OF d(3)]) simp_all
  have "heap_listp s < mem_brk s" using d(6) by simp
  then have "blocks s = heap_listp s # heap_blocks (mem s) (mem_brk s) (heap_listp s + 8)"
    unfolding blocks_def using rd by (subst heap_blocks.simps) (simp add: HDRP_def NEXT_BLKP_def)
  then show ?thesis using heap_blocks_tail[OF d(5) b(3)] by simp
qed

lemma prev_bits_tail:
  "tail_ok m p pa bs e \<Longrightarrow> total bs < 4294967296 \<Longrightarrow>
   GET_ALLOC m (HDRP b) = (if pa then 1 else 0) \<Longrightarrow> prev_bits_ok m (b # addrs p bs @ [e])"
proof (induction bs arbitrary: p pa b)
  case Nil
  then have g: "GET m (e - 4) = hdw 0 pa True" by (simp add: tail_ok_Nil)
  have "PREVX m (e - 4) = (if pa then 4 else 0)" by (rule read_hdw(3)[OF g]) simp_all
  then show ?case using Nil.prems(3) by (simp add: HDRP_def)
next
  case (Cons c bs)
  obtain sz a where c: "c = (sz, a)" by (cases c)
  from Cons.prems c have s: "16 \<le> sz" "8 dvd sz" "sz < 4294967296"
    and g: "GET m (p - 4) = hdw sz pa a" and t: "tail_ok m (p + sz) a bs e"
    and tb: "total bs < 4294967296"
    by (simp_all add: tail_ok_Cons)
  note rd = read_hdw[OF g s(2,3)]
  have ih: "prev_bits_ok m (p # addrs (p + sz) bs @ [e])"
    by (rule Cons.IH[OF t tb]) (simp add: HDRP_def rd)
  have "PREVX m (HDRP p) = (if GET_ALLOC m (HDRP b) = 0 then 0 else 4)"
    using rd(3) Cons.prems(3) by (simp add: HDRP_def)
  then show ?case using ih c by (cases "addrs (p + sz) bs @ [e]") simp_all
qed

lemma no_adjacent_free_tail:
  "tail_ok m p pa bs e \<Longrightarrow> total bs < 4294967296 \<Longrightarrow> naf pa bs \<Longrightarrow>
   GET_ALLOC m (HDRP b) = (if pa then 1 else 0) \<Longrightarrow> no_adjacent_free m (b # addrs p bs @ [e])"
proof (induction bs arbitrary: p pa b)
  case Nil
  then have g: "GET m (e - 4) = hdw 0 pa True" by (simp add: tail_ok_Nil)
  have "GET_ALLOC m (e - 4) = (if True then 1 else 0)" by (rule read_hdw(2)[OF g]) simp_all
  then show ?case by (simp add: HDRP_def)
next
  case (Cons c bs)
  obtain sz a where c: "c = (sz, a)" by (cases c)
  from Cons.prems c have s: "16 \<le> sz" "8 dvd sz" "sz < 4294967296"
    and g: "GET m (p - 4) = hdw sz pa a" and t: "tail_ok m (p + sz) a bs e"
    and tb: "total bs < 4294967296" and nf: "pa \<or> a" "naf a bs"
    by (simp_all add: tail_ok_Cons)
  note rd = read_hdw[OF g s(2,3)]
  have ih: "no_adjacent_free m (p # addrs (p + sz) bs @ [e])"
    by (rule Cons.IH[OF t tb nf(2)]) (simp add: HDRP_def rd)
  have "\<not> (GET_ALLOC m (HDRP b) = 0 \<and> GET_ALLOC m (HDRP p) = 0)"
    using rd(2) Cons.prems(4) nf(1) by (auto simp: HDRP_def)
  then show ?case using ih c by (cases "addrs (p + sz) bs @ [e]") simp_all
qed

lemma footers_tail:
  "tail_ok m p pa bs e \<Longrightarrow> total bs < 4294967296 \<Longrightarrow>
   list_all (\<lambda>b. GET_ALLOC m (HDRP b) = 0 \<longrightarrow> GET m (HDRP b) = GET m (FTRP m b)) (addrs p bs @ [e])"
proof (induction bs arbitrary: p pa)
  case Nil
  then have g: "GET m (e - 4) = hdw 0 pa True" by (simp add: tail_ok_Nil)
  have "GET_ALLOC m (e - 4) = (if True then 1 else 0)" by (rule read_hdw(2)[OF g]) simp_all
  then show ?case by (simp add: HDRP_def)
next
  case (Cons c bs)
  obtain sz a where c: "c = (sz, a)" by (cases c)
  from Cons.prems c have s: "16 \<le> sz" "8 dvd sz" "sz < 4294967296"
    and g: "GET m (p - 4) = hdw sz pa a" and f: "\<not> a \<Longrightarrow> GET m (p + sz - 8) = hdw sz pa a"
    and t: "tail_ok m (p + sz) a bs e" and tb: "total bs < 4294967296"
    by (simp_all add: tail_ok_Cons)
  note rd = read_hdw[OF g s(2,3)]
  have "GET_ALLOC m (HDRP p) = 0 \<longrightarrow> GET m (HDRP p) = GET m (FTRP m p)"
    using rd(1,2) g f by (auto simp: HDRP_def FTRP_def)
  then show ?case using Cons.IH[OF t tb] c by simp
qed

lemma live_tail:
  "tail_ok m p pa bs e \<Longrightarrow> total bs < 4294967296 \<Longrightarrow>
   filter (\<lambda>b. GET_ALLOC m (HDRP b) \<noteq> 0) (addrs p bs) = map fst (allocs p bs)"
proof (induction bs arbitrary: p pa)
  case Nil
  then show ?case by simp
next
  case (Cons c bs)
  obtain sz a where c: "c = (sz, a)" by (cases c)
  from Cons.prems c have s: "16 \<le> sz" "8 dvd sz" "sz < 4294967296"
    and g: "GET m (p - 4) = hdw sz pa a"
    and t: "tail_ok m (p + sz) a bs e" and tb: "total bs < 4294967296"
    by (simp_all add: tail_ok_Cons)
  note rd = read_hdw[OF g s(2,3)]
  show ?case using Cons.IH[OF t tb] c rd(2) by (simp add: HDRP_def)
qed

lemma heap_ok_I4: "heap_ok s bs \<Longrightarrow> I4 s"
proof -
  assume h: "heap_ok s bs"
  note d = heap_okD[OF h] and b = heap_ok_bounds[OF h]
  have "GET_ALLOC (mem s) (heap_listp s - 4) = (if True then 1 else 0)"
    by (rule read_hdw(2)[OF d(3)]) simp_all
  then have "prev_bits_ok (mem s) (heap_listp s # addrs (heap_listp s + 8) bs @ [mem_brk s])"
    by (intro prev_bits_tail[OF d(5) b(3)]) (simp add: HDRP_def)
  then show ?thesis unfolding I4_def heap_ok_blocks[OF h] .
qed

lemma Inv_I4: "Inv s bs fl \<Longrightarrow> I4 s"
  unfolding Inv_def using heap_ok_I4 by blast

lemma heap_ok_I5: "heap_ok s bs \<Longrightarrow> naf True bs \<Longrightarrow> I5 s"
proof -
  assume h: "heap_ok s bs" and nf: "naf True bs"
  note d = heap_okD[OF h] and b = heap_ok_bounds[OF h]
  have "GET_ALLOC (mem s) (heap_listp s - 4) = (if True then 1 else 0)"
    by (rule read_hdw(2)[OF d(3)]) simp_all
  then have "no_adjacent_free (mem s) (heap_listp s # addrs (heap_listp s + 8) bs @ [mem_brk s])"
    by (intro no_adjacent_free_tail[OF d(5) b(3) nf]) (simp add: HDRP_def)
  then show ?thesis unfolding I5_def heap_ok_blocks[OF h] .
qed

lemma Inv_I5: "Inv s bs fl \<Longrightarrow> I5 s"
  unfolding Inv_def using heap_ok_I5 by blast

lemma heap_ok_I3: "heap_ok s bs \<Longrightarrow> I3 s"
proof -
  assume h: "heap_ok s bs"
  note d = heap_okD[OF h] and b = heap_ok_bounds[OF h]
  have "GET_ALLOC (mem s) (heap_listp s - 4) = (if True then 1 else 0)"
    by (rule read_hdw(2)[OF d(3)]) simp_all
  then show ?thesis
    unfolding I3_def heap_ok_blocks[OF h] using footers_tail[OF d(5) b(3)]
    by (simp add: HDRP_def)
qed

lemma Inv_I3: "Inv s bs fl \<Longrightarrow> I3 s"
  unfolding Inv_def using heap_ok_I3 by blast

lemma heap_ok_live: "heap_ok s bs \<Longrightarrow> live s = map fst (allocs (heap_listp s + 8) bs)"
proof -
  assume h: "heap_ok s bs"
  note d = heap_okD[OF h] and b = heap_ok_bounds[OF h]
  show ?thesis unfolding live_def heap_ok_blocks[OF h]
    using live_tail[OF d(5) b(3)] by (simp add: butlast_append)
qed

lemma Inv_live: "Inv s bs fl \<Longrightarrow> live s = map fst (allocs (heap_listp s + 8) bs)"
  unfolding Inv_def using heap_ok_live by blast

lemma Inv_live_alloc:
  "Inv s bs fl \<Longrightarrow> p \<in> set (live s) \<Longrightarrow> \<exists>sz. (p, sz) \<in> set (allocs (heap_listp s + 8) bs)"
  by (auto simp: Inv_live)

text \<open>Every reachable state is well formed.\<close>

lemma reach_valid: "reach s \<Longrightarrow> valid s"
proof (induction rule: reach.induct)
  case (reach_init lo hi m s)
  from mm_init_ok[OF reach_init(1), of m] reach_init(2) show ?case by (auto simp: valid_def)
next
  case (reach_malloc s n p s')
  then obtain bs fl where inv: "Inv s bs fl" by (auto simp: valid_def)
  from malloc_ok[OF inv reach_malloc(2)] reach_malloc(3) show ?case by (auto simp: valid_def)
next
  case (reach_free s p s')
  then obtain bs fl where inv: "Inv s bs fl" by (auto simp: valid_def)
  show ?case
  proof (cases "p = 0")
    case True
    then show ?thesis using reach_free(3,4) by (simp add: free_null)
  next
    case False
    then obtain sz where "(p, sz) \<in> set (allocs (heap_listp s + 8) bs)"
      using reach_free(2) Inv_live_alloc[OF inv] by blast
    from free_ok[OF inv this] reach_free(3) show ?thesis by (auto simp: valid_def)
  qed
next
  case (reach_realloc s p n q s')
  then obtain bs fl where inv: "Inv s bs fl" by (auto simp: valid_def)
  have "p = 0 \<or> (\<exists>sz. (p, sz) \<in> set (allocs (heap_listp s + 8) bs))"
    using reach_realloc(2) Inv_live_alloc[OF inv] by blast
  from realloc_ok[OF inv reach_realloc(3) this] reach_realloc(4) show ?case by (auto simp: valid_def)
next
  case (reach_extend s words bp s')
  then obtain bs fl where inv: "Inv s bs fl" by (auto simp: valid_def)
  from extend_heap_ok[OF inv reach_extend(2,3) refl] reach_extend(4) inv show ?case
    by (auto simp: valid_def)
qed

section \<open>Concrete heaps\<close>

lemma heap1_init: "map_option fst (mm_init heap0) = Some 0"
  by (simp add: eval_defs)

lemma heap1_reach: "heap1 = Some (the heap1) \<and> reach (the heap1)"
proof -
  from heap1_init obtain s where s: "mm_init heap0 = Some (0, s)" by (cases "mm_init heap0") auto
  then have h: "heap1 = Some s" by (simp add: heap1_def initS_def)
  have "provider_ok 65536 131072" by (simp add: provider_ok_def)
  from reach_init[OF this s[unfolded heap0_def]] have "reach s" .
  then show ?thesis unfolding h by simp
qed

lemma reach_mallocS:
  assumes "so = Some (the so) \<and> reach (the so)" "n \<le> max_request"
  shows "mallocS n so = Some (the (mallocS n so)) \<and> reach (the (mallocS n so))"
proof -
  from assms(1) obtain s where s: "so = Some s" "reach s" by (cases so) auto
  from reach_valid[OF s(2)] obtain bs fl where inv: "Inv s bs fl" by (auto simp: valid_def)
  from malloc_ok[OF inv assms(2)] obtain p s' where m: "malloc n s = Some (p, s')" by blast
  from reach_malloc[OF s(2) assms(2) m] have "reach s'" .
  moreover have "mallocS n so = Some s'" using s(1) m by (simp add: mallocS_def)
  ultimately show ?thesis by simp
qed

lemma adjust_adjust_spec: "n \<le> max_request \<Longrightarrow> adjust n = adjust_spec (unat n)"
  by (simp add: adjust_bounded adjust_spec_def add.commute)

lemma malloc_block:
  assumes inv: "Inv s bs fl" and n: "n \<le> max_request"
  shows "\<exists>p s'. malloc n s = Some (p, s') \<and> (n = 0 \<longrightarrow> p = 0) \<and> (p = 0 \<longrightarrow> s' = s) \<and>
           (p \<noteq> 0 \<longrightarrow> p \<in> set (live s') \<and> p \<notin> set (live s) \<and>
              adjust n \<le> GET_SIZE (mem s') (HDRP p))"
proof -
  let ?p0 = "heap_listp s + 8"
  from malloc_ok[OF inv n] obtain p s' bs' fl' where m:
    "malloc n s = Some (p, s')" "Inv s' bs' fl'" "heap_listp s' = heap_listp s"
    "(p = 0 \<and> s' = s \<and> bs' = bs) \<or>
     (p \<noteq> 0 \<and> n \<noteq> 0 \<and> (\<exists>k. adjust n \<le> k \<and> p \<notin> fst ` set (allocs ?p0 bs) \<and>
         set (allocs ?p0 bs') = insert (p, k) (set (allocs ?p0 bs))))" by blast
  have z: "n = 0 \<longrightarrow> p = 0" using m(4) by blast
  have f: "p = 0 \<longrightarrow> s' = s" using m(4) by blast
  have "p \<in> set (live s') \<and> p \<notin> set (live s) \<and> adjust n \<le> GET_SIZE (mem s') (HDRP p)" if "p \<noteq> 0"
  proof -
    from m(4) that obtain k where k: "adjust n \<le> k" "p \<notin> fst ` set (allocs ?p0 bs)"
      "set (allocs ?p0 bs') = insert (p, k) (set (allocs ?p0 bs))" by blast
    have pin: "(p, k) \<in> set (allocs (heap_listp s' + 8) bs')" using k(3) m(3) by simp
    have "GET_SIZE (mem s') (HDRP p) = k" by (rule Inv_alloc_hdr(1)[OF m(2) pin])
    moreover have "p \<in> set (live s')" unfolding Inv_live[OF m(2)] using pin by force
    moreover have "p \<notin> set (live s)" unfolding Inv_live[OF inv] using k(2) by simp
    ultimately show ?thesis using k(1) by simp
  qed
  then show ?thesis using m(1) z f by blast
qed

section \<open>Free blocks and lists of a well-formed heap\<close>

lemma idle_tail:
  "tail_ok m p pa bs e \<Longrightarrow> total bs < 4294967296 \<Longrightarrow>
   filter (\<lambda>b. GET_ALLOC m (HDRP b) = 0) (addrs p bs) = map fst (frees p bs)"
proof (induction bs arbitrary: p pa)
  case Nil
  then show ?case by simp
next
  case (Cons c bs)
  obtain sz a where c: "c = (sz, a)" by (cases c)
  from Cons.prems c have s: "16 \<le> sz" "8 dvd sz" "sz < 4294967296"
    and g: "GET m (p - 4) = hdw sz pa a"
    and t: "tail_ok m (p + sz) a bs e" and tb: "total bs < 4294967296"
    by (simp_all add: tail_ok_Cons)
  note rd = read_hdw[OF g s(2,3)]
  show ?case using Cons.IH[OF t tb] c rd(2) by (simp add: HDRP_def)
qed

lemma heap_ok_idle: "heap_ok s bs \<Longrightarrow> idle s = map fst (frees (heap_listp s + 8) bs)"
proof -
  assume h: "heap_ok s bs"
  note d = heap_okD[OF h] and b = heap_ok_bounds[OF h]
  show ?thesis unfolding idle_def heap_ok_blocks[OF h]
    using idle_tail[OF d(5) b(3)] by (simp add: butlast_append)
qed

lemma Inv_idle: "Inv s bs fl \<Longrightarrow> idle s = map fst (frees (heap_listp s + 8) bs)"
  unfolding Inv_def using heap_ok_idle by blast

lemma Inv_idle_free:
  assumes "Inv s bs fl" "x \<in> set (idle s)"
  shows "(x, GET_SIZE (mem s) (HDRP x)) \<in> set (frees (heap_listp s + 8) bs)"
proof -
  from assms obtain sz where sz: "(x, sz) \<in> set (frees (heap_listp s + 8) bs)"
    by (auto simp: Inv_idle)
  then show ?thesis using Inv_free_hdr(1)[OF assms(1) sz] by simp
qed

lemma lists_ok_free_list: "lists_ok (mem s) (heads s) fl F \<Longrightarrow> free_list s k = Some (fl k)"
  unfolding free_list_def using lists_ok_lseg list_of_lseg by blast

lemma Inv_free_list: "Inv s bs fl \<Longrightarrow> free_list s k = Some (fl k)"
  unfolding Inv_def using lists_ok_free_list by blast

lemma Inv_lists_idle:
  assumes inv: "Inv s bs fl"
  shows "\<exists>xs. free_list s k = Some xs \<and> set xs \<subseteq> set (idle s)"
proof -
  have l: "lists_ok (mem s) (heads s) fl (set (frees (heap_listp s + 8) bs))"
    using inv by (simp add: Inv_def)
  have "set (fl k) \<subseteq> set (idle s)"
    unfolding Inv_idle[OF inv] using lists_ok_in_F[OF l] by force
  then show ?thesis using Inv_free_list[OF inv] by blast
qed

lemma guard_cases:
  "k \<in> set classes \<Longrightarrow>
   guard k a \<longleftrightarrow> class_of a \<le> k \<and> (k = 4 \<longrightarrow> a = 64) \<and> (k = 5 \<longrightarrow> a = 112)"
  unfolding classes_def
  by (elim disjE emptyE | simp only: set_simps insert_iff empty_iff)+
     (simp_all add: guard_def class_of_def)

lemma tail_same_headers:
  "tail_ok m p pa bs e \<Longrightarrow> tail_ok m' p pa bs e \<Longrightarrow>
   list_all (\<lambda>b. GET m' (HDRP b) = GET m (HDRP b)) (addrs p bs @ [e])"
proof (induction bs arbitrary: p pa)
  case Nil
  then show ?case by (simp add: tail_ok_Nil HDRP_def)
next
  case (Cons c bs)
  obtain sz a where c: "c = (sz, a)" by (cases c)
  from Cons.prems c have g: "GET m (p - 4) = hdw sz pa a" "GET m' (p - 4) = hdw sz pa a"
    and t: "tail_ok m (p + sz) a bs e" "tail_ok m' (p + sz) a bs e"
    by (simp_all add: tail_ok_Cons)
  show ?case using Cons.IH[OF t] g c by (simp add: HDRP_def)
qed

lemma heap_ok_same_headers:
  assumes "heap_ok s bs" "heap_ok s1 bs" "heap_listp s1 = heap_listp s" "mem_brk s1 = mem_brk s"
  shows "list_all (\<lambda>b. GET (mem s1) (HDRP b) = GET (mem s) (HDRP b)) (blocks s)"
proof -
  note d = heap_okD[OF assms(1)] and d1 = heap_okD[OF assms(2)]
  have "GET (mem s1) (HDRP (heap_listp s)) = GET (mem s) (HDRP (heap_listp s))"
    using d(3) d1(3) assms(3) by (simp add: HDRP_def)
  moreover have "list_all (\<lambda>b. GET (mem s1) (HDRP b) = GET (mem s) (HDRP b))
                   (addrs (heap_listp s + 8) bs @ [mem_brk s])"
    by (rule tail_same_headers[OF d(5)]) (use d1(5) assms(3,4) in simp)
  ultimately show ?thesis unfolding heap_ok_blocks[OF assms(1)] by simp
qed

text \<open>The three outcomes of \<^verbatim>\<open>place\<close> on a listed block that \<^verbatim>\<open>deletex\<close> finds.\<close>

lemma place_cases:
  assumes inv: "Inv s bs fl" and xin: "(x, csize) \<in> set (frees (heap_listp s + 8) bs)"
    and ale: "asize \<le> csize" and a16: "16 \<le> asize" and a8: "8 dvd asize"
    and g: "guard (class_of csize) asize"
  shows "\<exists>pre post s' fl1. bs = pre @ (csize, False) # post \<and> x = heap_listp s + 8 + total pre \<and>
           fl1 = fl(class_of csize := remove1 x (fl (class_of csize))) \<and>
           (\<forall>k. x \<notin> set (fl1 k)) \<and> heap_listp s' = heap_listp s \<and>
           place x asize s =
             Some (if 16 \<le> csize - asize \<and> \<not> asize < 120 then x + (csize - asize) else x, s') \<and>
           Inv s'
             (if 16 \<le> csize - asize
              then (if asize < 120 then pre @ (asize, True) # (csize - asize, False) # post
                    else pre @ (csize - asize, False) # (asize, True) # post)
              else pre @ (csize, True) # post)
             (if 16 \<le> csize - asize
              then fl1(class_of (csize - asize) :=
                         (if asize < 120 then x + asize else x) # fl1 (class_of (csize - asize)))
              else fl1)"
proof -
  let ?p0 = "heap_listp s + 8"
  let ?fl1 = "fl(class_of csize := remove1 x (fl (class_of csize)))"
  from frees_split[OF xin] obtain pre post where bs: "bs = pre @ (csize, False) # post"
    and x: "x = ?p0 + total pre" by blast
  have h: "heap_ok s bs" and l: "lists_ok (mem s) (heads s) fl (set (frees ?p0 bs))"
    using inv by (auto simp: Inv_def)
  have gF: "Fgood (set (frees ?p0 bs))" by (rule heap_ok_Fgood[OF h subset_refl])
  have nx: "x \<notin> set (?fl1 k)" for k
  proof (cases "k = class_of csize")
    case True
    have "distinct (fl k)" using lists_ok_lseg[OF l] by blast
    then show ?thesis using True by simp
  next
    case False
    then have "x \<notin> set (fl k)" using lists_ok_class[OF l gF _ xin] by blast
    then show ?thesis using False by simp
  qed
  consider (C) "csize - asize < 16" | (A) "16 \<le> csize - asize" "asize < 120"
    | (B) "16 \<le> csize - asize" "\<not> asize < 120" by linarith
  then show ?thesis
  proof cases
    case C
    from place_nosplit[OF inv bs x ale g C] obtain s' where
      "place x asize s = Some (x, s')" "Inv s' (pre @ (csize, True) # post) ?fl1"
      "heap_listp s' = heap_listp s" by blast
    then show ?thesis using C bs x nx by (intro exI[of _ pre] exI[of _ post] exI[of _ s'] exI[of _ ?fl1]) simp
  next
    case A
    from place_split_head[OF inv bs x ale a16 a8 g A] obtain s' where
      "place x asize s = Some (x, s')"
      "Inv s' (pre @ (asize, True) # (csize - asize, False) # post)
         (?fl1(class_of (csize - asize) := (x + asize) # ?fl1 (class_of (csize - asize))))"
      "heap_listp s' = heap_listp s" by blast
    then show ?thesis using A bs x nx by (intro exI[of _ pre] exI[of _ post] exI[of _ s'] exI[of _ ?fl1]) simp
  next
    case B
    from place_split_tail[OF inv bs x ale a16 a8 g B] obtain s' where
      "place x asize s = Some (x + (csize - asize), s')"
      "Inv s' (pre @ (csize - asize, False) # (asize, True) # post)
         (?fl1(class_of (csize - asize) := x # ?fl1 (class_of (csize - asize))))"
      "heap_listp s' = heap_listp s" by blast
    then show ?thesis using B bs x nx by (intro exI[of _ pre] exI[of _ post] exI[of _ s'] exI[of _ ?fl1]) simp
  qed
qed

lemma heap_block_hdr:
  assumes h: "heap_ok s (pre @ (sz, a) # post)" and x: "x = heap_listp s + 8 + total pre"
  shows "GET_SIZE (mem s) (HDRP x) = sz" "GET_ALLOC (mem s) (HDRP x) = (if a then 1 else 0)"
    "PREVX (mem s) (HDRP x) = (if outb True pre then 4 else 0)"
    "\<not> a \<Longrightarrow> GET (mem s) (FTRP (mem s) x) = GET (mem s) (HDRP x)"
    "NEXT_BLKP (mem s) x = x + sz"
    "PREVX (mem s) (HDRP (x + sz)) = (if a then 4 else 0)"
    "a \<Longrightarrow> x \<in> set (live s)" "\<not> a \<Longrightarrow> x \<in> set (idle s)"
proof -
  note r = heap_block_at[OF h x]
  show 1: "GET_SIZE (mem s) (HDRP x) = sz" using r(14) by (simp add: HDRP_def)
  show "GET_ALLOC (mem s) (HDRP x) = (if a then 1 else 0)" using r(16) by (simp add: HDRP_def)
  show "PREVX (mem s) (HDRP x) = (if outb True pre then 4 else 0)" using r(15) by (simp add: HDRP_def)
  show "\<not> a \<Longrightarrow> GET (mem s) (FTRP (mem s) x) = GET (mem s) (HDRP x)"
    using r(1,2) 1 by (simp add: FTRP_def HDRP_def)
  show "NEXT_BLKP (mem s) x = x + sz" using r(14) by (simp add: NEXT_BLKP_def)
  show "PREVX (mem s) (HDRP (x + sz)) = (if a then 4 else 0)"
    using read_hdw(3)[OF r(8,9,10)] by (simp add: HDRP_def)
  show "a \<Longrightarrow> x \<in> set (live s)" unfolding heap_ok_live[OF h] using x by (simp add: add.assoc)
  show "\<not> a \<Longrightarrow> x \<in> set (idle s)" unfolding heap_ok_idle[OF h] using x by (simp add: add.assoc)
qed

lemma find_fit_lists:
  assumes inv: "Inv s bs fl"
  shows "find_fit a s = Some (first_fit (mem s) a (concat (map fl (filter (\<lambda>k. guard k a) classes))))"
    "find_fit a s = Some r \<Longrightarrow> r \<in> set (fl k) \<Longrightarrow> guard k a"
proof -
  let ?F = "set (frees (heap_listp s + 8) bs)"
  let ?L = "concat (map fl (filter (\<lambda>k. guard k a) classes))"
  have h: "heap_ok s bs" and l: "lists_ok (mem s) (heads s) fl ?F"
    using inv by (auto simp: Inv_def)
  have g: "Fgood ?F" by (rule heap_ok_Fgood[OF h subset_refl])
  show ff: "find_fit a s = Some (first_fit (mem s) a ?L)"
    unfolding find_fit_def by (rule find_fit_from_ok[OF l g])
  show "guard k a" if r: "find_fit a s = Some r" "r \<in> set (fl k)"
  proof -
    have r0: "r \<noteq> 0" using lists_ok_aligned[OF l g r(2)] by simp
    have "r = first_fit (mem s) a ?L" using ff r(1) by simp
    then have "r \<in> set ?L" using first_fit_cases[of "mem s" a ?L] r0 by auto
    then obtain j where j: "guard j a" "r \<in> set (fl j)" by auto
    from lists_ok_in_F[OF l j(2)] obtain sz where sz: "(r, sz) \<in> ?F" "class_of sz = j" by blast
    have "k = class_of sz" by (rule lists_ok_class[OF l g r(2) sz(1)])
    then show ?thesis using j(1) sz(2) by simp
  qed
qed

section \<open>The heap that \<^verbatim>\<open>mm_init\<close> builds\<close>

lemma mm_init_state:
  assumes b: "lo + 4112 \<le> hi" "hi < 18446744073709551616"
    and s: "s = \<lparr>mem = m, heap_listp = 0, heads = hs,
                 mem_start_brk = lo, mem_brk = lo, mem_max_addr = hi\<rparr>"
  shows "\<exists>s1. mm_init s = Some (0, s1) \<and> heap_listp s1 = lo + 8 \<and> mem_brk s1 = lo + 4112 \<and>
           mem_start_brk s1 = lo \<and> mem_max_addr s1 = hi \<and> heads s1 = (\<lambda>k. 0)(13 := lo + 16) \<and>
           GET (mem s1) lo = 0 \<and> GET (mem s1) (lo + 4) = hdw 8 True True \<and>
           GET (mem s1) (lo + 8) = hdw 8 True True \<and>
           GET (mem s1) (lo + 12) = hdw 4096 True False \<and>
           GET (mem s1) (lo + 4104) = hdw 4096 True False \<and>
           GET (mem s1) (lo + 4108) = hdw 0 False True \<and> GETL (mem s1) (lo + 16) = 0"
proof -
  define a12 where "a12 = lo + 12"
  define x where "x = lo + 16"
  define f where "f = lo + 4104"
  define e where "e = lo + 4108"
  define q where "q = lo + 4112"
  define m1 where "m1 = PUT m lo 0"
  define m2 where "m2 = PUT m1 (lo + 4) (PACK 8 4 1)"
  define m3 where "m3 = PUT m2 (lo + 8) (PACK 8 4 1)"
  define m4 where "m4 = PUT m3 a12 (PACK 0 4 1)"
  define m5 where "m5 = PUT m4 a12 (PACK 4096 4 0)"
  define m6 where "m6 = PUT m5 f (PACK 4096 4 0)"
  define m7 where "m7 = PUT m6 e (PACK 0 0 1)"
  define s3 where "s3 = \<lparr>mem = m4, heap_listp = lo + 8, heads = (\<lambda>k. 0),
                          mem_start_brk = lo, mem_brk = x, mem_max_addr = hi\<rparr>"
  define s7 where "s7 = s3\<lparr>mem_brk := q, mem := m7\<rparr>"
  define s1 where "s1 = insertx x 4096 s7"
  have ar: "a12 + 4 \<le> f" "f + 4 \<le> e" "a12 + 4 \<le> e" "a12 + 4 \<le> x" "x + 8 \<le> f" "x + 8 \<le> e"
    "lo + 4 \<le> a12" "lo + 8 \<le> a12" "lo + 12 \<le> a12"
    by (simp_all add: a12_def f_def e_def x_def)
  have nF: "lo \<noteq> FAIL" "x \<noteq> FAIL" using b by (simp_all add: FAIL_def x_def)
  have mi: "mm_init s =
      Option.bind (extend_heap 1024 s3) (\<lambda>(bp, s4). if bp = 0 then Some (- 1, s4) else Some (0, s4))"
    using b nF(1)
    by (simp add: mm_init_def s mem_sbrk_def Let_def s3_def m1_def m2_def m3_def m4_def a12_def x_def
          del: One_nat_def)
  have e4: "GET m4 a12 = hdw 0 True True"
    unfolding m4_def by (simp only: GET_PUT_same hdw_PACK)
  have g5: "GET m5 a12 = hdw 4096 True False"
    unfolding m5_def by (simp only: GET_PUT_same hdw_PACK)
  have g6: "GET m6 a12 = hdw 4096 True False"
    unfolding m6_def using g5 ar by (subst GET_PUT_other) auto
  have g7: "GET m7 a12 = hdw 4096 True False"
    unfolding m7_def using g6 ar by (subst GET_PUT_other) auto
  have f6: "GET m6 f = hdw 4096 True False"
    unfolding m6_def by (simp only: GET_PUT_same hdw_PACK)
  have f7: "GET m7 f = hdw 4096 True False"
    unfolding m7_def using f6 ar by (subst GET_PUT_other) auto
  have e7: "GET m7 e = hdw 0 False True"
    unfolding m7_def by (simp only: GET_PUT_same hdw_PACK)
  have r4: "PREVX m4 a12 = 4" using read_hdw(3)[OF e4] by simp
  have r5: "GET_SIZE m5 a12 = 4096" using read_hdw(1)[OF g5] by simp
  have r6: "GET_SIZE m6 a12 = 4096" using read_hdw(1)[OF g6] by simp
  have r7: "GET_SIZE m7 a12 = 4096" "PREVX m7 a12 = 4"
    using read_hdw(1,3)[OF g7] by simp_all
  have a7: "GET_ALLOC m7 e = 1" using read_hdw(2)[OF e7] by simp
  have hx: "HDRP x = a12" "x - 4 = a12" "HDRP q = e" by (simp_all add: HDRP_def x_def a12_def q_def e_def)
  have xq: "x + 4096 = q" "x + 4096 - 8 = f" "q - 8 = f" by (simp_all add: x_def q_def f_def)
  have f5: "FTRP m5 x = f" by (simp only: FTRP_def hx r5 xq)
  have n6: "NEXT_BLKP m6 x = q" by (simp only: NEXT_BLKP_def hx r6 xq)
  have n7: "NEXT_BLKP m7 x = q" by (simp only: NEXT_BLKP_def hx r7 xq)
  have sb: "mem_sbrk 4096 s3 = (x, s3\<lparr>mem_brk := q\<rparr>)"
    using b by (simp add: mem_sbrk_def s3_def x_def q_def)
  have sz: "(if (1024::nat) mod 2 \<noteq> 0 then ((1024 + 1) * 4) mod 18446744073709551616
             else (1024 * 4) mod 18446744073709551616) = (4096::nat)" by simp
  have m3b: "mem (s3\<lparr>mem_brk := q\<rparr>) = m4" by (simp add: s3_def)
  have ex: "extend_heap 1024 s3 = coalesce x s7"
    unfolding extend_heap_def sz
    by (simp only: Let_def sb prod.case nF if_False m3b hx r4 m5_def[symmetric] f5
          m6_def[symmetric] n6 m7_def[symmetric]) (simp add: s7_def)
  have m7s: "mem s7 = m7" by (simp add: s7_def)
  have co: "coalesce x s7 = Some (x, s1)"
    unfolding coalesce_def
    by (simp only: Let_def m7s hx r7 n7 a7 s1_def) simp
  have ms: "mm_init s = Some (0, s1)" using mi ex co b by (simp add: x_def)
  have fs: "heap_listp s1 = lo + 8" "mem_brk s1 = lo + 4112" "mem_start_brk s1 = lo"
    "mem_max_addr s1 = hi" "heads s1 = (\<lambda>k. 0)(13 := lo + 16)" "mem s1 = PUTL m7 x 0"
    by (simp_all add: s1_def insertx_def Let_def class_of_def s7_def s3_def q_def x_def)
  have "GET m4 lo = GET m3 lo" unfolding m4_def using ar by (subst GET_PUT_other) auto
  also have "\<dots> = GET m2 lo" unfolding m3_def by (subst GET_PUT_other) auto
  also have "\<dots> = GET m1 lo" unfolding m2_def by (subst GET_PUT_other) auto
  also have "\<dots> = 0" unfolding m1_def by (simp add: GET_PUT_same)
  finally have p4: "GET m4 lo = 0" .
  have "GET m4 (lo + 4) = GET m3 (lo + 4)" unfolding m4_def using ar by (subst GET_PUT_other) auto
  also have "\<dots> = GET m2 (lo + 4)" unfolding m3_def by (subst GET_PUT_other) auto
  also have "\<dots> = hdw 8 True True" unfolding m2_def by (simp only: GET_PUT_same hdw_PACK)
  finally have h4: "GET m4 (lo + 4) = hdw 8 True True" .
  have "GET m4 (lo + 8) = GET m3 (lo + 8)" unfolding m4_def using ar by (subst GET_PUT_other) auto
  also have "\<dots> = hdw 8 True True" unfolding m3_def by (simp only: GET_PUT_same hdw_PACK)
  finally have t4: "GET m4 (lo + 8) = hdw 8 True True" .
  have low: "GET (PUTL m7 x 0) w = GET m4 w" if "w + 4 \<le> a12" for w
  proof -
    have "GET (PUTL m7 x 0) w = GET m7 w" using that ar by (subst GET_PUTL_other) auto
    also have "\<dots> = GET m6 w" unfolding m7_def using that ar by (subst GET_PUT_other) auto
    also have "\<dots> = GET m5 w" unfolding m6_def using that ar by (subst GET_PUT_other) auto
    also have "\<dots> = GET m4 w" unfolding m5_def using that ar by (subst GET_PUT_other) auto
    finally show ?thesis .
  qed
  have 1: "GET (mem s1) lo = 0" unfolding fs(6) using low[of lo] p4 ar by simp
  have 2: "GET (mem s1) (lo + 4) = hdw 8 True True" unfolding fs(6) using low[of "lo + 4"] h4 ar by simp
  have 3: "GET (mem s1) (lo + 8) = hdw 8 True True" unfolding fs(6) using low[of "lo + 8"] t4 ar by simp
  have 4: "GET (mem s1) a12 = hdw 4096 True False"
    unfolding fs(6) using g7 ar by (subst GET_PUTL_other) auto
  have 5: "GET (mem s1) f = hdw 4096 True False"
    unfolding fs(6) using f7 ar by (subst GET_PUTL_other) auto
  have 6: "GET (mem s1) e = hdw 0 False True"
    unfolding fs(6) using e7 ar by (subst GET_PUTL_other) auto
  have 7: "GETL (mem s1) x = 0" unfolding fs(6) by (rule GETL_PUTL_same) simp
  show ?thesis
    using ms fs(1-5) 1 2 3 4[unfolded a12_def] 5[unfolded f_def] 6[unfolded e_def] 7[unfolded x_def]
    by blast
qed

lemma mm_init_heads: "mm_init (s\<lparr>heads := hs\<rparr>) = mm_init s"
  by (simp add: mm_init_def)

lemma malloc_fit:
  assumes inv: "Inv s bs fl" and n: "n \<le> max_request" "n \<noteq> 0"
    and x: "(x, sz) \<in> set (frees (heap_listp s + 8) bs)" "adjust n \<le> sz"
      "guard (class_of sz) (adjust n)"
  shows "\<exists>p s'. malloc n s = Some (p, s') \<and> p \<noteq> 0"
proof -
  let ?p0 = "heap_listp s + 8" and ?a = "adjust n"
  let ?L = "concat (map fl (filter (\<lambda>k. guard k ?a) classes))"
  note ap = adjust_props[OF n(1)]
  have hl: "heap_listp s \<noteq> 0" by (rule Inv_nonzero[OF inv])
  have l: "lists_ok (mem s) (heads s) fl (set (frees ?p0 bs))" and h: "heap_ok s bs"
    using inv by (auto simp: Inv_def)
  have g: "Fgood (set (frees ?p0 bs))" by (rule heap_ok_Fgood[OF h subset_refl])
  have ff: "find_fit ?a s = Some (first_fit (mem s) ?a ?L)" by (rule find_fit_lists(1)[OF inv])
  have xin: "x \<in> set ?L" using lists_ok_member[OF l x(1)] x(3) class_of_range[of sz] by auto
  have z: "0 \<notin> set ?L" using lists_ok_aligned[OF l g] by fastforce
  have "?a \<le> GET_SIZE (mem s) (HDRP x)" using Inv_free_hdr(1)[OF inv x(1)] x(2) by simp
  then have nz: "first_fit (mem s) ?a ?L \<noteq> 0" using first_fit_zero[OF z] xin by blast
  from find_fit_ok[OF inv, of ?a] ff nz obtain sz' where s':
    "(first_fit (mem s) ?a ?L, sz') \<in> set (frees ?p0 bs)" "?a \<le> sz'" "guard (class_of sz') ?a"
    by auto
  from place_ok[OF inv s'(1,2) ap(1,2) s'(3)] obtain x' s'' where
    "place (first_fit (mem s) ?a ?L) ?a s = Some (x', s'')" "x' \<noteq> 0" by blast
  then show ?thesis using n(2) hl ff nz by (simp add: malloc_def Let_def)
qed

text \<open>Releasing the one block of a heap that holds a single free block of 4096 bytes.\<close>

lemma free_only_block:
  assumes hl: "heap_listp s \<noteq> 0"
    and g: "GET (mem s) (x - 4) = hdw 4096 True False"
    and e: "GET (mem s) (x + 4092) = hdw 0 False True" and x: "16 \<le> x"
  shows "\<exists>s'. free x s = Some s' \<and> heap_listp s' = heap_listp s \<and> mem_brk s' = mem_brk s \<and>
           heads s' = (heads s)(13 := x) \<and>
           (\<forall>w. w + 4 \<le> x - 4 \<longrightarrow> GET (mem s') w = GET (mem s) w)"
proof -
  define a where "a = x - 4"
  define f where "f = x + 4088"
  define q where "q = x + 4096"
  define ep where "ep = x + 4092"
  define n1 where "n1 = PUT (mem s) a (PACK 4096 4 0)"
  define n2 where "n2 = PUT n1 f (PACK 4096 4 0)"
  define n3 where "n3 = PUT n2 ep (PACK 0 0 1)"
  define s3 where "s3 = s\<lparr>mem := n3\<rparr>"
  define s' where "s' = insertx x 4096 s3"
  have ar: "a + 4 \<le> f" "f + 4 \<le> ep" "a + 4 \<le> ep" "a + 4 \<le> x" "x + 8 \<le> f" "x + 8 \<le> ep"
    using x by (simp_all add: a_def f_def ep_def)
  have hx: "HDRP x = a" "x - 4 = a" "HDRP q = ep" by (simp_all add: HDRP_def a_def q_def ep_def)
  have xq: "x + 4096 = q" "x + 4096 - 8 = f" "q - 8 = f" by (simp_all add: q_def f_def)
  have g0: "GET (mem s) a = hdw 4096 True False" using g by (simp add: a_def)
  have e0: "GET (mem s) ep = hdw 0 False True" using e by (simp add: ep_def)
  have g1: "GET n1 a = hdw 4096 True False" unfolding n1_def by (simp only: GET_PUT_same hdw_PACK)
  have g2: "GET n2 a = hdw 4096 True False"
    unfolding n2_def using g1 ar by (subst GET_PUT_other) auto
  have g3: "GET n3 a = hdw 4096 True False"
    unfolding n3_def using g2 ar by (subst GET_PUT_other) auto
  have "GET n2 ep = GET n1 ep" unfolding n2_def using ar by (subst GET_PUT_other) auto
  also have "\<dots> = GET (mem s) ep" unfolding n1_def using ar by (subst GET_PUT_other) auto
  finally have e2: "GET n2 ep = hdw 0 False True" using e0 by simp
  have e3: "GET n3 ep = hdw 0 False True" unfolding n3_def by (simp only: GET_PUT_same hdw_PACK)
  have r0: "GET_SIZE (mem s) a = 4096" "PREVX (mem s) a = 4" using read_hdw(1,3)[OF g0] by simp_all
  have r1: "GET_SIZE n1 a = 4096" using read_hdw(1)[OF g1] by simp
  have r2: "GET_SIZE n2 a = 4096" using read_hdw(1)[OF g2] by simp
  have r3: "GET_SIZE n3 a = 4096" "PREVX n3 a = 4" using read_hdw(1,3)[OF g3] by simp_all
  have q2: "GET_ALLOC n2 ep = 1" "GET_SIZE n2 ep = 0" using read_hdw(1,2)[OF e2] by simp_all
  have q3: "GET_ALLOC n3 ep = 1" using read_hdw(2)[OF e3] by simp
  have f1: "FTRP n1 x = f" by (simp only: FTRP_def hx r1 xq)
  have x2: "NEXT_BLKP n2 x = q" by (simp only: NEXT_BLKP_def hx r2 xq)
  have x3: "NEXT_BLKP n3 x = q" by (simp only: NEXT_BLKP_def hx r3 xq)
  have x0: "x \<noteq> 0" using x by simp
  have m3: "mem s3 = n3" by (simp add: s3_def)
  have co: "coalesce x s3 = Some (x, s')"
    unfolding coalesce_def
    by (simp only: Let_def m3 hx r3 x3 q3 s'_def) simp
  have fr: "free x s = map_option snd (coalesce x s3)"
    unfolding free_def
    by (simp only: x0 hl if_False Let_def bind.bind_lunit hx r0 n1_def[symmetric] f1
          n2_def[symmetric] x2 q2 n3_def[symmetric] s3_def[symmetric]) simp
  have fs: "heap_listp s' = heap_listp s" "mem_brk s' = mem_brk s" "heads s' = (heads s)(13 := x)"
    "mem s' = PUTL n3 x (heads s 13)"
    by (simp_all add: s'_def insertx_def Let_def class_of_def s3_def)
  have low: "GET (mem s') w = GET (mem s) w" if "w + 4 \<le> x - 4" for w
  proof -
    have w: "w + 4 \<le> a" using that by (simp add: a_def)
    have "GET (mem s') w = GET n3 w" unfolding fs(4) using w ar by (subst GET_PUTL_other) auto
    also have "\<dots> = GET n2 w" unfolding n3_def using w ar by (subst GET_PUT_other) auto
    also have "\<dots> = GET n1 w" unfolding n2_def using w ar by (subst GET_PUT_other) auto
    also have "\<dots> = GET (mem s) w" unfolding n1_def using w ar by (subst GET_PUT_other) auto
    finally show ?thesis .
  qed
  have "free x s = Some s'" using fr co by simp
  then show ?thesis using fs(1-3) low by blast
qed

lemma single_block:
  assumes inv: "Inv s bs fl" and hl: "heap_listp s = lo + 8" and br: "mem_brk s = lo + 4112"
    and g: "GET (mem s) (lo + 12) = hdw 4096 True False"
  shows "bs = [(4096, False)]"
proof -
  have h: "heap_ok s bs" using inv by (simp add: Inv_def)
  note d = heap_okD[OF h]
  have t: "total bs = 4096" using d(6) hl br by simp
  have b: "blocks_ok (mem s) (lo + 16) True bs" using d(4) hl by (simp add: add.assoc)
  show ?thesis
  proof (cases bs)
    case Nil
    then show ?thesis using t by simp
  next
    case (Cons c rest)
    obtain sz a where c: "c = (sz, a)" by (cases c)
    have e: "lo + 16 - 4 = lo + 12" by simp
    have bb: "blocks_ok (mem s) (lo + 16) True ((sz, a) # rest)" using b Cons c by simp
    have s: "8 dvd sz" "GET (mem s) (lo + 12) = hdw sz True a"
      and r: "blocks_ok (mem s) (lo + 16 + sz) a rest"
      using bb unfolding blocks_ok.simps e by blast+
    have sl: "sz < 4294967296" using t Cons c by simp
    from hdw_inj[OF s(1) sl _ _ s(2)[unfolded g, symmetric]] have e: "sz = 4096" "a = False" by simp_all
    have "rest = []"
    proof (cases rest)
      case Nil
      then show ?thesis .
    next
      case (Cons c' rest')
      obtain sz' a' where "c' = (sz', a')" by (cases c')
      then have "16 \<le> sz'" using r Cons by simp
      then show ?thesis using t \<open>bs = c # rest\<close> c e Cons \<open>c' = (sz', a')\<close> by simp
    qed
    then show ?thesis using Cons c e by simp
  qed
qed

lemma adjust_small: "n \<le> 4092 \<Longrightarrow> n \<le> max_request \<and> adjust n \<le> 4096"
proof -
  assume a: "n \<le> (4092 :: 64 word)"
  then have u: "unat n \<le> 4092" by (simp add: word_le_nat_alt)
  have m: "n \<le> max_request" using u by (simp add: max_request_def word_le_nat_alt)
  have "8 * ((unat n + 11) div 8) \<le> 4096" using u by simp
  then show ?thesis using m adjust_bounded[OF m] by simp
qed

section \<open>Requests that do not wrap\<close>

text \<open>When every request is at most \<open>max_request\<close> bytes, the reachable states satisfy
  I3, I4 and I5, and \<^verbatim>\<open>malloc\<close> computes the adjusted size of the specification and returns
  a block of at least that size.\<close>

lemma reach_prev_bits: "reach s \<Longrightarrow> I4 s \<and> I3 s"
proof -
  assume "reach s"
  from reach_valid[OF this] obtain bs fl where "Inv s bs fl" by (auto simp: valid_def)
  then show ?thesis using Inv_I4 Inv_I3 by blast
qed

lemma reach_no_adjacent_free: "reach s \<Longrightarrow> I5 s"
proof -
  assume "reach s"
  from reach_valid[OF this] obtain bs fl where "Inv s bs fl" by (auto simp: valid_def)
  then show ?thesis by (rule Inv_I5)
qed

lemma malloc_adjusted_size:
  assumes "reach s" "n \<le> max_request"
  shows "adjust n = adjust_spec (unat n) \<and>
         (\<exists>p s'. malloc n s = Some (p, s') \<and> (n = 0 \<longrightarrow> p = 0) \<and>
            (p \<noteq> 0 \<longrightarrow> p \<in> set (live s') \<and> p \<notin> set (live s) \<and>
               adjust n \<le> GET_SIZE (mem s') (HDRP p) \<and>
               unat n + 4 \<le> GET_SIZE (mem s') (HDRP p)))"
proof -
  from reach_valid[OF assms(1)] obtain bs fl where inv: "Inv s bs fl" by (auto simp: valid_def)
  from malloc_block[OF inv assms(2)] obtain p s' where m:
    "malloc n s = Some (p, s')" "n = 0 \<longrightarrow> p = 0"
    "p \<noteq> 0 \<longrightarrow> p \<in> set (live s') \<and> p \<notin> set (live s) \<and> adjust n \<le> GET_SIZE (mem s') (HDRP p)"
    by blast
  have "p \<noteq> 0 \<longrightarrow> unat n + 4 \<le> GET_SIZE (mem s') (HDRP p)"
    using m(3) adjust_props(3)[OF assms(2)] by auto
  then show ?thesis using m adjust_adjust_spec[OF assms(2)] by blast
qed

section \<open>Placement when \<^verbatim>\<open>deletex\<close> does not reach the list of the block\<close>

lemma deletex_from_skip:
  assumes ok: "lists_ok (mem s) (heads s) fl F" and x0: "x \<noteq> 0"
    and nx: "\<And>k. k \<in> set ks \<Longrightarrow> guard k a \<Longrightarrow> x \<notin> set (fl k)"
  shows "deletex_from ks x a nk s = Some s"
  using nx
proof (induction ks)
  case Nil
  then show ?case by simp
next
  case (Cons k ks)
  have ih: "deletex_from ks x a nk s = Some s" using Cons by simp
  show ?case
  proof (cases "guard k a")
    case False
    then show ?thesis using ih by simp
  next
    case True
    have xk: "x \<notin> set (fl k)" using Cons.prems True by simp
    have l: "lseg (mem s) (heads s k) (fl k)" using lists_ok_lseg[OF ok] by blast
    have hd: "heads s k \<noteq> x" using lseg_head[OF l] xk x0 by auto
    have "delete_walk (mem s) (heads s k) x nk = Some None"
      by (rule delete_walk_notfound[OF l xk x0])
    then show ?thesis using True hd ih by simp
  qed
qed

lemma deletex_skip:
  assumes ok: "lists_ok (mem s) (heads s) fl F" and g: "Fgood F" and x: "(x, sz) \<in> F"
    and ng: "\<not> guard (class_of sz) a"
  shows "deletex x a s = Some s"
  unfolding deletex_def
proof (rule deletex_from_skip[OF ok])
  show "x \<noteq> 0" using FgoodD[OF g x] by simp
  fix k assume "k \<in> set classes" "guard k a"
  then show "x \<notin> set (fl k)" using lists_ok_class[OF ok g _ x] ng by blast
qed

text \<open>Whether or not it finds the block, \<^verbatim>\<open>deletex\<close> returns and leaves the blocks of
  the heap as they are.\<close>

lemma deletex_total:
  assumes inv: "Inv s bs fl" and xin: "(x, sz) \<in> set (frees (heap_listp s + 8) bs)"
  shows "\<exists>s1. deletex x a s = Some s1 \<and> heap_ok s1 bs \<and> heap_listp s1 = heap_listp s \<and>
           mem_brk s1 = mem_brk s \<and> mem_start_brk s1 = mem_start_brk s \<and>
           mem_max_addr s1 = mem_max_addr s"
proof (cases "guard (class_of sz) a")
  case True
  have h: "heap_ok s bs" and l: "lists_ok (mem s) (heads s) fl (set (frees (heap_listp s + 8) bs))"
    using inv by (auto simp: Inv_def)
  from deletex_heap[OF h l subset_refl xin True] show ?thesis by blast
next
  case False
  have h: "heap_ok s bs" and l: "lists_ok (mem s) (heads s) fl (set (frees (heap_listp s + 8) bs))"
    using inv by (auto simp: Inv_def)
  have g: "Fgood (set (frees (heap_listp s + 8) bs))" by (rule heap_ok_Fgood[OF h subset_refl])
  have "deletex x a s = Some s" by (rule deletex_skip[OF l g xin False])
  then show ?thesis using h by simp
qed

lemma place_region_heap:
  assumes h1: "heap_ok s1 (pre @ (csize, False) # post)"
    and x: "x = heap_listp s1 + 8 + total pre"
    and na: "next_alloc post"
    and a1: "agree (mem s1) mG (heap_listp s1 - 4) (x - 4)"
    and a2: "agree (mem s1) mG (x + csize) (mem_brk s1)"
    and mid: "blocks_ok mG x (outb True pre) mid'" and tm: "total mid' = csize"
    and gq: "GET mG (x + csize - 4) = hdw (next_size post) (outb (outb True pre) mid') True"
  shows "heap_ok (s1\<lparr>mem := mG\<rparr>) (pre @ mid' @ post)"
proof -
  let ?p0 = "heap_listp s1 + 8" and ?q = "x + csize" and ?e = "mem_brk s1"
  note d = heap_okD[OF h1] and r = heap_block_at[OF h1 x]
  have bpre: "blocks_ok (mem s1) ?p0 True pre" using d(4) by (simp add: blocks_ok_append)
  have t0: "tail_ok (mem s1) ?q False post ?e"
    using d(5) x by (simp add: tail_ok_append tail_ok_Cons)
  have t: "tail_ok mG (x + total mid') (outb (outb True pre) mid') post ?e"
  proof (cases post)
    case Nil
    then show ?thesis using t0 gq tm by (simp add: tail_ok_Nil)
  next
    case (Cons b post')
    obtain s' a' where b: "b = (s', a')" by (cases b)
    have a': "a'" using na Cons b by simp
    from t0 Cons b a' have s': "16 \<le> s'" "8 dvd s'"
      and r': "tail_ok (mem s1) (?q + s') True post' ?e" by (simp_all add: tail_ok_Cons)
    have "tail_ok mG (?q + s') True post' ?e"
      by (rule tail_ok_agree[OF r']) (use s' in \<open>auto intro: agree_mono[OF a2]\<close>)
    then show ?thesis using Cons b a' s' gq tm by (simp add: tail_ok_Cons)
  qed
  show ?thesis by (rule region_rewrite[OF h1 bpre x a1 mid t])
qed

lemma place_nosplit_heap:
  assumes h0: "heap_ok s (pre @ (csize, False) # post)"
    and x: "x = heap_listp s + 8 + total pre" and ale: "asize \<le> csize"
    and small: "csize - asize < 16"
    and s1: "deletex x asize s = Some s1" and h1: "heap_ok s1 (pre @ (csize, False) # post)"
    and f1: "heap_listp s1 = heap_listp s"
    and ob: "outb True pre" and na: "next_alloc post"
  shows "\<exists>s'. place x asize s = Some (x, s') \<and> heap_ok s' (pre @ (csize, True) # post) \<and>
           heap_listp s' = heap_listp s"
proof -
  have x1: "x = heap_listp s1 + 8 + total pre" using x f1 by simp
  note r0 = heap_block_at[OF h0 x] and r = heap_block_at[OF h1 x1] and d = heap_okD[OF h1]
  have rd: "GET_SIZE (mem s) (x - 4) = csize" "PREVX (mem s) (x - 4) = 4"
    using r0(14,15) ob by simp_all
  have sb: "sub64 csize asize = csize - asize" by (rule sub64_le[OF ale]) (use r(5) in simp)
  define q where "q = x + csize"
  define ns where "ns = next_size post"
  define m1 where "m1 = PUT (mem s1) (x - 4) (PACK csize 4 1)"
  define m2 where "m2 = PUT m1 (q - 8) (PACK csize 4 1)"
  define m3 where "m3 = PUT m2 (q - 4) (PACK ns 4 1)"
  have ar: "16 \<le> csize" "16 \<le> x" "x + 12 \<le> q - 4" "4 \<le> q" "x + 8 \<le> q - 8"
    using r(3,6) by (auto simp: q_def)
  have ns8: "8 dvd ns" "ns < 4294967296" using r(9,10) by (simp_all add: ns_def)
  have g1: "GET m1 (x - 4) = hdw csize True True" unfolding m1_def by (simp only: GET_PUT_same hdw_PACK)
  have g2: "GET m2 (x - 4) = hdw csize True True"
    unfolding m2_def using g1 ar by (subst GET_PUT_other) auto
  have g3: "GET m3 (x - 4) = hdw csize True True"
    unfolding m3_def using g2 ar by (subst GET_PUT_other) auto
  have gq0: "GET (mem s1) (q - 4) = hdw ns False True" using r(8) na by (simp add: q_def ns_def)
  have gq1: "GET m1 (q - 4) = hdw ns False True"
    unfolding m1_def using gq0 ar by (subst GET_PUT_other) auto
  have gq2: "GET m2 (q - 4) = hdw ns False True"
    unfolding m2_def using gq1 ar by (subst GET_PUT_other) auto
  have gq3: "GET m3 (q - 4) = hdw ns True True" unfolding m3_def by (simp only: GET_PUT_same hdw_PACK)
  have ftrp1: "FTRP m1 x = q - 8"
    using read_hdw(1)[OF g1 r(4,5)] by (simp add: FTRP_def HDRP_def q_def)
  have nx2: "NEXT_BLKP m2 x = q" using read_hdw(1)[OF g2 r(4,5)] by (simp add: NEXT_BLKP_def q_def)
  have nx3: "NEXT_BLKP m3 x = q" using read_hdw(1)[OF g3 r(4,5)] by (simp add: NEXT_BLKP_def q_def)
  have rq2: "GET_SIZE m2 (q - 4) = ns" "GET_ALLOC m2 (q - 4) = 1"
    using read_hdw[OF gq2 ns8] by auto
  have rq3: "GET_ALLOC m3 (q - 4) = 1" using read_hdw[OF gq3 ns8] by auto
  define s3 where "s3 = s1\<lparr>mem := m3\<rparr>"
  have pl: "place x asize s = Some (x, s3)"
    unfolding place_def using rd s1 sb small ftrp1 nx2 rq2 nx3 rq3
    by (simp add: Let_def HDRP_def m1_def[symmetric] m2_def[symmetric] m3_def[symmetric] s3_def
          del: One_nat_def)
  have a1: "agree (mem s1) m3 (heap_listp s1 - 4) (x - 4)"
    unfolding m3_def m2_def m1_def
    by (rule agree_trans[OF agree_trans[OF agree_PUT agree_PUT] agree_PUT]) (use ar in auto)
  have a2: "agree (mem s1) m3 (x + csize) (mem_brk s1)"
    unfolding m3_def m2_def m1_def
    by (rule agree_trans[OF agree_trans[OF agree_PUT agree_PUT] agree_PUT]) (use ar in \<open>auto simp: q_def\<close>)
  have mid: "blocks_ok m3 x (outb True pre) [(csize, True)]" using g3 r(3,4) ob by simp
  have gq: "GET m3 (x + csize - 4) = hdw (next_size post) (outb (outb True pre) [(csize, True)]) True"
    using gq3 by (simp add: q_def ns_def outb_def)
  from place_region_heap[OF h1 x1 na a1 a2 mid _ gq]
  have h3: "heap_ok s3 (pre @ (csize, True) # post)" by (simp add: s3_def)
  show ?thesis using pl h3 f1 by (auto simp: s3_def)
qed

lemma place_split_head_heap:
  assumes h0: "heap_ok s (pre @ (csize, False) # post)"
    and x: "x = heap_listp s + 8 + total pre" and ale: "asize \<le> csize"
    and a16: "16 \<le> asize" and a8: "8 dvd asize"
    and big: "16 \<le> csize - asize" and hd: "asize < 120"
    and s1: "deletex x asize s = Some s1" and h1: "heap_ok s1 (pre @ (csize, False) # post)"
    and f1: "heap_listp s1 = heap_listp s"
    and ob: "outb True pre" and na: "next_alloc post"
  shows "\<exists>s'. place x asize s = Some (x, s') \<and>
           heap_ok s' (pre @ (asize, True) # (csize - asize, False) # post) \<and>
           heap_listp s' = heap_listp s \<and> heads s' (class_of (csize - asize)) = x + asize"
proof -
  have x1: "x = heap_listp s1 + 8 + total pre" using x f1 by simp
  note r0 = heap_block_at[OF h0 x] and r = heap_block_at[OF h1 x1] and d = heap_okD[OF h1]
  have rd: "GET_SIZE (mem s) (x - 4) = csize" "PREVX (mem s) (x - 4) = 4"
    using r0(14,15) ob by simp_all
  define rr where "rr = csize - asize"
  have sb: "sub64 csize asize = rr" unfolding rr_def by (rule sub64_le[OF ale]) (use r(5) in simp)
  define q where "q = x + csize"
  define y where "y = x + asize"
  define ns where "ns = next_size post"
  define m1 where "m1 = PUT (mem s1) (x - 4) (PACK asize 4 1)"
  define m2 where "m2 = PUT m1 (y - 4) (PACK rr 4 0)"
  define m3 where "m3 = PUT m2 (q - 8) (PACK rr 4 0)"
  have rr: "16 \<le> rr" "8 dvd rr" "rr < 4294967296" "asize < 4294967296" "asize + rr = csize"
    using big a8 r(4,5) ale by (auto simp: rr_def)
  have ar: "16 \<le> csize" "16 \<le> x" "x + 12 \<le> y - 4" "4 \<le> q" "y + 8 \<le> q - 8" "y + rr = q"
    "x + 12 \<le> y"
    using r(3,6) rr a16 by (auto simp: q_def y_def)
  have ns8: "8 dvd ns" "ns < 4294967296" using r(9,10) by (simp_all add: ns_def)
  have g1: "GET m1 (x - 4) = hdw asize True True" unfolding m1_def by (simp only: GET_PUT_same hdw_PACK)
  have g2: "GET m2 (x - 4) = hdw asize True True"
    unfolding m2_def using g1 ar by (subst GET_PUT_other) auto
  have g3: "GET m3 (x - 4) = hdw asize True True"
    unfolding m3_def using g2 ar by (subst GET_PUT_other) auto
  have gy2: "GET m2 (y - 4) = hdw rr True False" unfolding m2_def by (simp only: GET_PUT_same hdw_PACK)
  have gy3: "GET m3 (y - 4) = hdw rr True False"
    unfolding m3_def using gy2 ar by (subst GET_PUT_other) auto
  have gf3: "GET m3 (q - 8) = hdw rr True False" unfolding m3_def by (simp only: GET_PUT_same hdw_PACK)
  have gq0: "GET (mem s1) (q - 4) = hdw ns False True" using r(8) na by (simp add: q_def ns_def)
  have gq1: "GET m1 (q - 4) = hdw ns False True"
    unfolding m1_def using gq0 ar by (subst GET_PUT_other) auto
  have gq2: "GET m2 (q - 4) = hdw ns False True"
    unfolding m2_def using gq1 ar by (subst GET_PUT_other) auto
  have gq3: "GET m3 (q - 4) = hdw ns False True"
    unfolding m3_def using gq2 ar by (subst GET_PUT_other) auto
  have nx1: "NEXT_BLKP m1 x = y" using read_hdw(1)[OF g1 a8 rr(4)] by (simp add: NEXT_BLKP_def y_def)
  have ftrp2: "FTRP m2 y = q - 8"
    using read_hdw(1)[OF gy2 rr(2,3)] ar by (simp add: FTRP_def HDRP_def)
  define s3 where "s3 = s1\<lparr>mem := m3\<rparr>"
  have pl: "place x asize s = Some (x, insertx y rr s3)"
    unfolding place_def using rd s1 sb rr(1) hd nx1 ftrp2
    by (simp add: Let_def HDRP_def m1_def[symmetric] m2_def[symmetric] m3_def[symmetric] s3_def
          del: One_nat_def)
  have a1: "agree (mem s1) m3 (heap_listp s1 - 4) (x - 4)"
    unfolding m3_def m2_def m1_def
    by (rule agree_trans[OF agree_trans[OF agree_PUT agree_PUT] agree_PUT]) (use ar in auto)
  have a2: "agree (mem s1) m3 (x + csize) (mem_brk s1)"
    unfolding m3_def m2_def m1_def
    by (rule agree_trans[OF agree_trans[OF agree_PUT agree_PUT] agree_PUT]) (use ar in \<open>auto simp: q_def\<close>)
  have yq: "x + asize + rr - 8 = q - 8" "x + asize - 4 = y - 4" using rr by (auto simp: q_def y_def)
  have mid: "blocks_ok m3 x (outb True pre) [(asize, True), (rr, False)]"
    using g3 gy3 gf3 a16 a8 rr(1,2) ob yq by simp
  have gq: "GET m3 (x + csize - 4) = hdw (next_size post) (outb (outb True pre) [(asize, True), (rr, False)]) True"
    using gq3 by (simp add: q_def ns_def outb_def)
  have tm: "total [(asize, True), (rr, False)] = csize" using rr by simp
  from place_region_heap[OF h1 x1 na a1 a2 mid tm gq]
  have h3: "heap_ok s3 (pre @ (asize, True) # (rr, False) # post)" by (simp add: s3_def)
  have yin: "(y, rr) \<in> set (frees (heap_listp s3 + 8) (pre @ (asize, True) # (rr, False) # post))"
    using x1 by (simp add: s3_def y_def add.assoc)
  have h4: "heap_ok (insertx y rr s3) (pre @ (asize, True) # (rr, False) # post)"
    by (rule insertx_heap[OF h3 yin])
  have hs: "heads (insertx y rr s3) (class_of rr) = y" by (simp add: insertx_def Let_def)
  show ?thesis using pl h4 hs f1 unfolding rr_def[symmetric] y_def[symmetric]
    by (auto simp: s3_def)
qed

lemma place_split_tail_heap:
  assumes h0: "heap_ok s (pre @ (csize, False) # post)"
    and x: "x = heap_listp s + 8 + total pre" and ale: "asize \<le> csize"
    and a16: "16 \<le> asize" and a8: "8 dvd asize"
    and big: "16 \<le> csize - asize" and tl: "\<not> asize < 120"
    and s1: "deletex x asize s = Some s1" and h1: "heap_ok s1 (pre @ (csize, False) # post)"
    and f1: "heap_listp s1 = heap_listp s"
    and ob: "outb True pre" and na: "next_alloc post"
  shows "\<exists>s'. place x asize s = Some (x + (csize - asize), s') \<and>
           heap_ok s' (pre @ (csize - asize, False) # (asize, True) # post) \<and>
           heap_listp s' = heap_listp s \<and> heads s' (class_of (csize - asize)) = x"
proof -
  have x1: "x = heap_listp s1 + 8 + total pre" using x f1 by simp
  note r0 = heap_block_at[OF h0 x] and r = heap_block_at[OF h1 x1] and d = heap_okD[OF h1]
  have rd: "GET_SIZE (mem s) (x - 4) = csize" "PREVX (mem s) (x - 4) = 4"
    using r0(14,15) ob by simp_all
  define rr where "rr = csize - asize"
  have sb: "sub64 csize asize = rr" unfolding rr_def by (rule sub64_le[OF ale]) (use r(5) in simp)
  define q where "q = x + csize"
  define y where "y = x + rr"
  define ns where "ns = next_size post"
  define hd where "hd = heads s1 (class_of rr)"
  define m1 where "m1 = PUT (mem s1) (x - 4) (PACK rr 4 0)"
  define m2 where "m2 = PUT m1 (y - 8) (PACK rr 4 0)"
  define m2L where "m2L = PUTL m2 x hd"
  define m3 where "m3 = PUT m2L (y - 4) (PACK asize 0 1)"
  define m4 where "m4 = PUT m3 (q - 4) (PACK ns 4 1)"
  define mG where "mG = PUT (PUT m2 (y - 4) (PACK asize 0 1)) (q - 4) (PACK ns 4 1)"
  have rr: "16 \<le> rr" "8 dvd rr" "rr < 4294967296" "asize < 4294967296" "rr + asize = csize"
    using big a8 r(4,5) ale by (auto simp: rr_def)
  have ar: "16 \<le> csize" "16 \<le> x" "x + 12 \<le> y - 4" "4 \<le> q" "y + 12 \<le> q - 4" "y + asize = q"
    "x + 8 \<le> y - 8" "x + 16 \<le> y"
    using r(3,6) rr a16 by (auto simp: q_def y_def)
  have ns8: "8 dvd ns" "ns < 4294967296" using r(9,10) by (simp_all add: ns_def)
  have cm: "m4 = PUTL mG x hd"
  proof -
    have "m3 = PUTL (PUT m2 (y - 4) (PACK asize 0 1)) x hd"
      unfolding m3_def m2L_def by (rule PUT_PUTL_comm) (use ar in auto)
    then have "m4 = PUT (PUTL (PUT m2 (y - 4) (PACK asize 0 1)) x hd) (q - 4) (PACK ns 4 1)"
      by (simp only: m4_def)
    also have "\<dots> = PUTL mG x hd"
      unfolding mG_def by (rule PUT_PUTL_comm) (use ar in auto)
    finally show ?thesis .
  qed
  have g1: "GET m1 (x - 4) = hdw rr True False" unfolding m1_def by (simp only: GET_PUT_same hdw_PACK)
  have g2: "GET m2 (x - 4) = hdw rr True False"
    unfolding m2_def using g1 ar by (subst GET_PUT_other) auto
  have g2L: "GET m2L (x - 4) = hdw rr True False"
    unfolding m2L_def using g2 ar by (subst GET_PUTL_other) auto
  have gf2: "GET m2 (y - 8) = hdw rr True False" unfolding m2_def by (simp only: GET_PUT_same hdw_PACK)
  have gy3: "GET m3 (y - 4) = hdw asize False True" unfolding m3_def by (simp only: GET_PUT_same hdw_PACK)
  have gy4: "GET m4 (y - 4) = hdw asize False True"
    unfolding m4_def using gy3 ar by (subst GET_PUT_other) auto
  have gq0: "GET (mem s1) (q - 4) = hdw ns False True" using r(8) na by (simp add: q_def ns_def)
  have gq1: "GET m1 (q - 4) = hdw ns False True"
    unfolding m1_def using gq0 ar by (subst GET_PUT_other) auto
  have gq2: "GET m2 (q - 4) = hdw ns False True"
    unfolding m2_def using gq1 ar by (subst GET_PUT_other) auto
  have gq2L: "GET m2L (q - 4) = hdw ns False True"
    unfolding m2L_def using gq2 ar by (subst GET_PUTL_other) auto
  have gq3: "GET m3 (q - 4) = hdw ns False True"
    unfolding m3_def using gq2L ar by (subst GET_PUT_other) auto
  have gq4: "GET m4 (q - 4) = hdw ns True True" unfolding m4_def by (simp only: GET_PUT_same hdw_PACK)
  have ftrp1: "FTRP m1 x = y - 8"
    using read_hdw(1)[OF g1 rr(2,3)] by (simp add: FTRP_def HDRP_def y_def)
  have nx2: "NEXT_BLKP m2L x = y" using read_hdw(1)[OF g2L rr(2,3)] by (simp add: NEXT_BLKP_def y_def)
  have nx3: "NEXT_BLKP m3 y = q" using read_hdw(1)[OF gy3 a8 rr(4)] ar by (simp add: NEXT_BLKP_def)
  have nx4: "NEXT_BLKP m4 y = q" using read_hdw(1)[OF gy4 a8 rr(4)] ar by (simp add: NEXT_BLKP_def)
  have rq3: "GET_SIZE m3 (q - 4) = ns" "GET_ALLOC m3 (q - 4) = 1"
    using read_hdw[OF gq3 ns8] by auto
  have rq4: "GET_ALLOC m4 (q - 4) = 1" using read_hdw[OF gq4 ns8] by auto
  define sG where "sG = s1\<lparr>mem := mG\<rparr>"
  have ms2: "mem (insertx x rr (s1\<lparr>mem := m2\<rparr>)) = m2L"
    by (simp add: insertx_mem m2L_def hd_def)
  have fin: "(insertx x rr (s1\<lparr>mem := m2\<rparr>))\<lparr>mem := m4\<rparr> = insertx x rr sG"
    unfolding cm by (simp add: insertx_def Let_def sG_def hd_def)
  have pl: "place x asize s = Some (y, insertx x rr sG)"
    unfolding place_def using rd s1 sb rr(1) tl ftrp1
    by (simp add: Let_def HDRP_def m1_def[symmetric] m2_def[symmetric] ms2 nx2 m3_def[symmetric]
          nx3 rq3 m4_def[symmetric] nx4 rq4 fin del: One_nat_def)
  define mG1 where "mG1 = PUT m2 (y - 4) (PACK asize 0 1)"
  have mG: "mG = PUT mG1 (q - 4) (PACK ns 4 1)" by (simp only: mG_def mG1_def)
  have gG1': "GET mG1 (x - 4) = hdw rr True False"
    unfolding mG1_def using g2 ar by (subst GET_PUT_other) auto
  have gG1: "GET mG (x - 4) = hdw rr True False"
    unfolding mG using gG1' ar by (subst GET_PUT_other) auto
  have gGf': "GET mG1 (y - 8) = hdw rr True False"
    unfolding mG1_def using gf2 ar by (subst GET_PUT_other) auto
  have gGf: "GET mG (y - 8) = hdw rr True False"
    unfolding mG using gGf' ar by (subst GET_PUT_other) auto
  have gGy': "GET mG1 (y - 4) = hdw asize False True"
    unfolding mG1_def by (simp only: GET_PUT_same hdw_PACK)
  have gGy: "GET mG (y - 4) = hdw asize False True"
    unfolding mG using gGy' ar by (subst GET_PUT_other) auto
  have gGq: "GET mG (q - 4) = hdw ns True True" unfolding mG_def by (simp only: GET_PUT_same hdw_PACK)
  have a1: "agree (mem s1) mG (heap_listp s1 - 4) (x - 4)"
    unfolding mG_def m2_def m1_def
    by (rule agree_trans[OF agree_trans[OF agree_trans[OF agree_PUT agree_PUT] agree_PUT] agree_PUT])
       (use ar in auto)
  have a2: "agree (mem s1) mG (x + csize) (mem_brk s1)"
    unfolding mG_def m2_def m1_def
    by (rule agree_trans[OF agree_trans[OF agree_trans[OF agree_PUT agree_PUT] agree_PUT] agree_PUT])
       (use ar in \<open>auto simp: q_def\<close>)
  have yq: "x + rr - 8 = y - 8" "x + rr - 4 = y - 4" using rr by (auto simp: q_def y_def)
  have mid: "blocks_ok mG x (outb True pre) [(rr, False), (asize, True)]"
    using gG1 gGf gGy a16 a8 rr(1,2) ob yq by simp
  have gq: "GET mG (x + csize - 4) = hdw (next_size post) (outb (outb True pre) [(rr, False), (asize, True)]) True"
    using gGq by (simp add: q_def ns_def outb_def)
  have tm: "total [(rr, False), (asize, True)] = csize" using rr by simp
  from place_region_heap[OF h1 x1 na a1 a2 mid tm gq]
  have h3: "heap_ok sG (pre @ (rr, False) # (asize, True) # post)" by (simp add: sG_def)
  have xin: "(x, rr) \<in> set (frees (heap_listp sG + 8) (pre @ (rr, False) # (asize, True) # post))"
    using x1 by (simp add: sG_def)
  have h4: "heap_ok (insertx x rr sG) (pre @ (rr, False) # (asize, True) # post)"
    by (rule insertx_heap[OF h3 xin])
  have hs: "heads (insertx x rr sG) (class_of rr) = x" by (simp add: insertx_def Let_def)
  show ?thesis using pl h4 hs f1 unfolding rr_def[symmetric] y_def[symmetric]
    by (auto simp: sG_def)
qed

text \<open>The three outcomes of \<^verbatim>\<open>place\<close> on a free block, for the blocks of the heap.\<close>

lemma place_heap_cases:
  assumes inv: "Inv s bs fl" and xin: "(x, csize) \<in> set (frees (heap_listp s + 8) bs)"
    and ale: "asize \<le> csize" and a16: "16 \<le> asize" and a8: "8 dvd asize"
  shows "\<exists>pre post s'. bs = pre @ (csize, False) # post \<and> x = heap_listp s + 8 + total pre \<and>
           heap_listp s' = heap_listp s \<and>
           place x asize s =
             Some (if 16 \<le> csize - asize \<and> \<not> asize < 120 then x + (csize - asize) else x, s') \<and>
           (16 \<le> csize - asize \<longrightarrow>
              heads s' (class_of (csize - asize)) = (if asize < 120 then x + asize else x)) \<and>
           heap_ok s'
             (if 16 \<le> csize - asize
              then (if asize < 120 then pre @ (asize, True) # (csize - asize, False) # post
                    else pre @ (csize - asize, False) # (asize, True) # post)
              else pre @ (csize, True) # post) \<and>
           naf True
             (if 16 \<le> csize - asize
              then (if asize < 120 then pre @ (asize, True) # (csize - asize, False) # post
                    else pre @ (csize - asize, False) # (asize, True) # post)
              else pre @ (csize, True) # post)"
proof -
  let ?p0 = "heap_listp s + 8"
  from frees_split[OF xin] obtain pre post where bs: "bs = pre @ (csize, False) # post"
    and x: "x = ?p0 + total pre" by blast
  have h0: "heap_ok s (pre @ (csize, False) # post)" and nf: "naf True bs"
    using inv bs by (auto simp: Inv_def)
  from deletex_total[OF inv xin, of asize] obtain s1 where s1: "deletex x asize s = Some s1"
    and h1': "heap_ok s1 bs" and f1: "heap_listp s1 = heap_listp s" by blast
  have h1: "heap_ok s1 (pre @ (csize, False) # post)" using h1' bs by simp
  have n: "outb True pre" "naf True pre" "naf False post"
    using nf bs by (auto simp: naf_append)
  have na: "next_alloc post" "naf True post" using n(3) by (cases post; auto)+
  consider (C) "csize - asize < 16" | (A) "16 \<le> csize - asize" "asize < 120"
    | (B) "16 \<le> csize - asize" "\<not> asize < 120" by linarith
  then show ?thesis
  proof cases
    case C
    from place_nosplit_heap[OF h0 x ale C s1 h1 f1 n(1) na(1)] obtain s' where
      "place x asize s = Some (x, s')" "heap_ok s' (pre @ (csize, True) # post)"
      "heap_listp s' = heap_listp s" by blast
    moreover have "naf True (pre @ (csize, True) # post)" using n na by (simp add: naf_append)
    ultimately show ?thesis using C bs x
      by (intro exI[of _ pre] exI[of _ post] exI[of _ s']) simp
  next
    case A
    from place_split_head_heap[OF h0 x ale a16 a8 A s1 h1 f1 n(1) na(1)] obtain s' where
      "place x asize s = Some (x, s')"
      "heap_ok s' (pre @ (asize, True) # (csize - asize, False) # post)"
      "heap_listp s' = heap_listp s" "heads s' (class_of (csize - asize)) = x + asize" by blast
    moreover have "naf True (pre @ (asize, True) # (csize - asize, False) # post)"
      using n na by (cases post) (auto simp: naf_append)
    ultimately show ?thesis using A bs x
      by (intro exI[of _ pre] exI[of _ post] exI[of _ s']) simp
  next
    case B
    from place_split_tail_heap[OF h0 x ale a16 a8 B s1 h1 f1 n(1) na(1)] obtain s' where
      "place x asize s = Some (x + (csize - asize), s')"
      "heap_ok s' (pre @ (csize - asize, False) # (asize, True) # post)"
      "heap_listp s' = heap_listp s" "heads s' (class_of (csize - asize)) = x" by blast
    moreover have "naf True (pre @ (csize - asize, False) # (asize, True) # post)"
      using n na by (auto simp: naf_append)
    ultimately show ?thesis using B bs x
      by (intro exI[of _ pre] exI[of _ post] exI[of _ s']) simp
  qed
qed

section \<open>Reallocation\<close>

lemma memcpy_inside: "dst \<le> a \<and> a < dst + n \<Longrightarrow> memcpy m dst src n a = m (src + (a - dst))"
  by (simp add: memcpy_def)

lemma memcpy_outside: "a < dst \<or> dst + n \<le> a \<Longrightarrow> memcpy m dst src n a = m a"
  by (auto simp: memcpy_def)

lemma GET_memcpy_other: "q + 4 \<le> dst \<or> dst + n \<le> q \<Longrightarrow> GET (memcpy m dst src n) q = GET m q"
  by (rule GET_frame) (auto simp: memcpy_def)

lemma PUT_byte0: "PUT m p v p = word_of_nat (v mod 256)"
  by (simp add: PUT_def)

lemma free_live:
  assumes inv: "Inv s bs fl" and p: "(p, sz) \<in> set (allocs (heap_listp s + 8) bs)"
  shows "\<exists>s' bs' fl'. free p s = Some s' \<and> Inv s' bs' fl' \<and> heap_listp s' = heap_listp s \<and>
           set (live s') = set (live s) - {p}"
proof -
  let ?p0 = "heap_listp s + 8"
  from free_ok[OF inv p] obtain s' bs' fl' pre post where f:
    "free p s = Some s'" "Inv s' bs' fl'" "heap_listp s' = heap_listp s"
    "bs = pre @ (sz, True) # post" "p = ?p0 + total pre"
    "allocs ?p0 bs' = allocs ?p0 (pre @ (sz, False) # post)" by blast
  have h: "heap_ok s (pre @ (sz, True) # post)" using inv f(4) by (simp add: Inv_def)
  note d = heap_okD[OF h] and r = heap_block_at[OF h f(5)]
  have bpre: "blocks_ok (mem s) ?p0 True pre" and bpost: "blocks_ok (mem s) (p + sz) True post"
    using d(4) f(5) by (auto simp: blocks_ok_append)
  have n1: "p \<notin> fst ` set (allocs ?p0 pre)"
    using allocs_range[OF bpre] f(5) by fastforce
  have n2: "p \<notin> fst ` set (allocs (p + sz) post)"
    using allocs_range[OF bpost] r(3) by fastforce
  have l: "live s = map fst (allocs ?p0 pre) @ p # map fst (allocs (p + sz) post)"
    unfolding Inv_live[OF inv] using f(4,5) by (simp add: add.assoc)
  have l': "live s' = map fst (allocs ?p0 pre) @ map fst (allocs (p + sz) post)"
    unfolding Inv_live[OF f(2)] using f(3,5,6) by (simp add: add.assoc)
  have "set (live s') = set (live s) - {p}" unfolding l l' using n1 n2 by auto
  then show ?thesis using f(1-3) by blast
qed

lemma realloc_steps:
  assumes inv: "Inv s bs fl" and n: "n \<le> max_request" "n \<noteq> 0"
    and p: "(p, sz) \<in> set (allocs (heap_listp s + 8) bs)"
  shows "\<exists>q s1. malloc n s = Some (q, s1) \<and>
           (q = 0 \<longrightarrow> s1 = s \<and> realloc p n s = Some (0, s)) \<and>
           (q \<noteq> 0 \<longrightarrow>
              q \<notin> set (live s) \<and> set (live s1) = insert q (set (live s)) \<and>
              GET_SIZE (mem s1) (HDRP p) = sz \<and>
              min (unat n) sz + 4 \<le> GET_SIZE (mem s1) (HDRP q) \<and>
              (\<exists>s'. realloc p n s = Some (q, s') \<and>
                 free p (s1\<lparr>mem := memcpy (mem s1) q p (min (unat n) sz)\<rparr>) = Some s' \<and>
                 set (live s') = insert q (set (live s)) - {p}))"
proof -
  let ?p0 = "heap_listp s + 8"
  have p0: "p \<noteq> 0" by (rule Inv_alloc_hdr(3)[OF inv p])
  from malloc_ok[OF inv n(1)] obtain q s1 bs1 fl1 where ml:
    "malloc n s = Some (q, s1)" "Inv s1 bs1 fl1" "heap_listp s1 = heap_listp s"
    "(q = 0 \<and> s1 = s \<and> bs1 = bs) \<or>
     (q \<noteq> 0 \<and> n \<noteq> 0 \<and> (\<exists>k. adjust n \<le> k \<and> q \<notin> fst ` set (allocs ?p0 bs) \<and>
         set (allocs ?p0 bs1) = insert (q, k) (set (allocs ?p0 bs))))" by blast
  show ?thesis
  proof (cases "q = 0")
    case True
    then have "s1 = s" using ml(4) by blast
    moreover have "realloc p n s = Some (0, s1)" using True n(2) p0 ml(1) by (simp add: realloc_def)
    ultimately show ?thesis using ml(1) True by blast
  next
    case False
    then obtain k where k: "adjust n \<le> k" "q \<notin> fst ` set (allocs ?p0 bs)"
      "set (allocs ?p0 bs1) = insert (q, k) (set (allocs ?p0 bs))" using ml(4) by blast
    have qin: "(q, k) \<in> set (allocs (heap_listp s1 + 8) bs1)"
      and pin: "(p, sz) \<in> set (allocs (heap_listp s1 + 8) bs1)"
      using k(3) p ml(3) by auto
    define c where "c = min (unat n) sz"
    define s2 where "s2 = s1\<lparr>mem := memcpy (mem s1) q p c\<rparr>"
    have rd: "GET_SIZE (mem s1) (HDRP p) = sz" by (rule Inv_alloc_hdr(1)[OF ml(2) pin])
    have rq: "GET_SIZE (mem s1) (HDRP q) = k" by (rule Inv_alloc_hdr(1)[OF ml(2) qin])
    have "c \<le> unat n" by (simp add: c_def)
    then have le: "c + 4 \<le> k" using adjust_props(3)[OF n(1)] k(1) by linarith
    then have le': "q + c \<le> q + k - 4" by simp
    have i2: "Inv s2 bs1 fl1"
      unfolding s2_def
      by (rule Inv_payload_write[OF ml(2) qin]) (rule agree_memcpy, use le' in simp)+
    have pin2: "(p, sz) \<in> set (allocs (heap_listp s2 + 8) bs1)" using pin by (simp add: s2_def)
    from free_live[OF i2 pin2] obtain s' where fr:
      "free p s2 = Some s'" "set (live s') = set (live s2) - {p}" by blast
    have l1: "set (live s1) = insert q (set (live s))"
      unfolding Inv_live[OF ml(2)] Inv_live[OF inv] using k(3) ml(3) by simp
    have l2: "live s2 = live s1" unfolding Inv_live[OF ml(2)] Inv_live[OF i2] by (simp add: s2_def)
    have ql: "q \<notin> set (live s)" unfolding Inv_live[OF inv] using k(2) by simp
    have c1: "unat n < sz \<Longrightarrow> c = unat n" and c2: "\<not> unat n < sz \<Longrightarrow> c = sz"
      by (simp_all add: c_def)
    have "realloc p n s = map_option (Pair q) (free p s2)"
      unfolding realloc_def s2_def
      using n(2) p0 ml(1) False c1 c2 by (simp add: Let_def rd)
    then have re: "realloc p n s = Some (q, s')" using fr(1) by simp
    have l3: "set (live s') = insert q (set (live s)) - {p}" using fr(2) l2 l1 by simp
    have ex: "\<exists>s'. realloc p n s = Some (q, s') \<and> free p s2 = Some s' \<and>
                 set (live s') = insert q (set (live s)) - {p}"
      using re fr(1) l3 by blast
    have "q \<notin> set (live s) \<and> set (live s1) = insert q (set (live s)) \<and>
              GET_SIZE (mem s1) (HDRP p) = sz \<and> c + 4 \<le> GET_SIZE (mem s1) (HDRP q) \<and>
              (\<exists>s'. realloc p n s = Some (q, s') \<and> free p s2 = Some s' \<and>
                 set (live s') = insert q (set (live s)) - {p})"
      using ql l1 rd rq le ex by simp
    then show ?thesis using ml(1) False unfolding c_def s2_def by blast
  qed
qed

section \<open>The claims\<close>

text \<open>
  C10.  A provider whose heap is still empty, from \<open>lo\<close> (a multiple of 8) with room for
  at least 4112 bytes, and a state whose \<^verbatim>\<open>heap_listp\<close> is 0, with any memory and any list
  heads.  \<^verbatim>\<open>mm_init\<close> succeeds on it and leaves the padding word, the prologue header and
  footer \<^verbatim>\<open>PACK(8, 4, 1)\<close>, one free block of 4096 bytes at \<open>lo + 16\<close> with header and
  footer \<^verbatim>\<open>PACK(4096, 4, 0)\<close>, the epilogue header \<^verbatim>\<open>PACK(0, 0, 1)\<close>, all list heads
  cleared but that of list 13, which holds the free block alone.  \<^verbatim>\<open>malloc\<close> on the
  uninitialised state is \<^verbatim>\<open>malloc\<close> on that heap, and a request of 1 to 4092 bytes is
  served there: the result is an allocated block with room for the request.  \<^verbatim>\<open>free\<close> of
  a pointer other than \<^verbatim>\<open>NULL\<close> on the uninitialised state is \<^verbatim>\<open>free\<close> on that heap; for
  the pointer \<open>lo + 16\<close> it returns, with the prologue in place and the block on list 13.
\<close>

theorem entry_points_initialize_first:
  assumes "provider_ok lo hi" "lo + 4112 \<le> hi"
    and "s = \<lparr>mem = m, heap_listp = 0, heads = hs,
                mem_start_brk = lo, mem_brk = lo, mem_max_addr = hi\<rparr>"
  shows "\<exists>s1. mm_init s = Some (0, s1) \<and>
           heap_listp s1 = lo + 8 \<and> mem_start_brk s1 = lo \<and> mem_brk s1 = lo + 4112 \<and>
           mem_max_addr s1 = hi \<and>
           GET (mem s1) lo = 0 \<and>
           GET (mem s1) (lo + 4) = word_of_nat (PACK 8 4 1) \<and>
           GET (mem s1) (lo + 8) = word_of_nat (PACK 8 4 1) \<and>
           GET (mem s1) (lo + 12) = word_of_nat (PACK 4096 4 0) \<and>
           GET (mem s1) (lo + 4104) = word_of_nat (PACK 4096 4 0) \<and>
           GET (mem s1) (lo + 4108) = word_of_nat (PACK 0 0 1) \<and>
           heads s1 = (\<lambda>k. 0)(13 := lo + 16) \<and> GETL (mem s1) (lo + 16) = 0 \<and>
           blocks s1 = [lo + 8, lo + 16, lo + 4112] \<and> idle s1 = [lo + 16] \<and> live s1 = [] \<and>
           malloc n s = malloc n s1 \<and>
           (n \<noteq> 0 \<and> n \<le> 4092 \<longrightarrow>
              (\<exists>p s'. malloc n s = Some (p, s') \<and> p \<noteq> 0 \<and> p \<in> set (live s') \<and>
                 unat n + 4 \<le> GET_SIZE (mem s') (HDRP p))) \<and>
           (ptr \<noteq> 0 \<longrightarrow> free ptr s = free ptr s1) \<and>
           (\<exists>s2. free (lo + 16) s = Some s2 \<and> heap_listp s2 = lo + 8 \<and> mem_brk s2 = lo + 4112 \<and>
              GET (mem s2) (lo + 4) = word_of_nat (PACK 8 4 1) \<and>
              heads s2 = (\<lambda>k. 0)(13 := lo + 16))"
proof -
  have pr: "8 dvd lo" "hi < 18446744073709551616" "hi < lo + 4294967296"
    using assms(1) by (auto simp: provider_ok_def)
  from mm_init_state[OF assms(2) pr(2) assms(3)] obtain s1 where i:
    "mm_init s = Some (0, s1)" "heap_listp s1 = lo + 8" "mem_brk s1 = lo + 4112"
    "mem_start_brk s1 = lo" "mem_max_addr s1 = hi" "heads s1 = (\<lambda>k. 0)(13 := lo + 16)"
    "GET (mem s1) lo = 0" "GET (mem s1) (lo + 4) = hdw 8 True True"
    "GET (mem s1) (lo + 8) = hdw 8 True True" "GET (mem s1) (lo + 12) = hdw 4096 True False"
    "GET (mem s1) (lo + 4104) = hdw 4096 True False"
    "GET (mem s1) (lo + 4108) = hdw 0 False True" "GETL (mem s1) (lo + 16) = 0" by blast
  have "s = (fresh m lo hi)\<lparr>heads := hs\<rparr>" using assms(3) by (simp add: fresh_def)
  then have "mm_init (fresh m lo hi) = Some (0, s1)" using i(1) mm_init_heads by simp
  from reach_init[OF assms(1) this] have r: "reach s1" .
  from reach_valid[OF r] obtain bs fl where inv0: "Inv s1 bs fl" by (auto simp: valid_def)
  have bs: "bs = [(4096, False)]" by (rule single_block[OF inv0 i(2,3,10)])
  have inv: "Inv s1 [(4096, False)] fl" using inv0 bs by simp
  have h: "heap_ok s1 [(4096, False)]" using inv by (simp add: Inv_def)
  have bl: "blocks s1 = [lo + 8, lo + 16, lo + 4112]"
    unfolding heap_ok_blocks[OF h] by (simp add: i(2,3) add.assoc)
  have id: "idle s1 = [lo + 16]" unfolding Inv_idle[OF inv] by (simp add: i(2) add.assoc)
  have lv: "live s1 = []" unfolding Inv_live[OF inv] by simp
  have hl0: "heap_listp s = 0" using assms(3) by simp
  have hl1: "heap_listp s1 \<noteq> 0" using i(2) by simp
  have ml: "malloc n s = malloc n s1" using hl0 hl1 i(1) by (simp add: malloc_def)
  have fr': "free p s = free p s1" if "p \<noteq> 0" for p
    using that hl0 hl1 i(1) by (simp add: free_def)
  have fr: "ptr \<noteq> 0 \<longrightarrow> free ptr s = free ptr s1" using fr' by blast
  have sv: "\<exists>p s'. malloc n s = Some (p, s') \<and> p \<noteq> 0 \<and> p \<in> set (live s') \<and>
                 unat n + 4 \<le> GET_SIZE (mem s') (HDRP p)" if n: "n \<noteq> 0" "n \<le> 4092"
  proof -
    note a = adjust_small[OF n(2)]
    have xin: "(lo + 16, 4096) \<in> set (frees (heap_listp s1 + 8) [(4096, False)])"
      by (simp add: i(2) add.assoc)
    have g: "guard (class_of 4096) (adjust n)" using a by (simp add: guard_def class_of_def)
    from malloc_fit[OF inv _ n(1) xin _ g] a obtain p s' where p:
      "malloc n s1 = Some (p, s')" "p \<noteq> 0" by blast
    from malloc_block[OF inv, of n] a p obtain
      "p \<in> set (live s')" "adjust n \<le> GET_SIZE (mem s') (HDRP p)" by auto
    then show ?thesis using p ml adjust_props(3)[of n] a by auto
  qed
  have e1: "lo + 16 - 4 = lo + 12" "lo + 16 + 4092 = lo + 4108" by simp_all
  have g1: "GET (mem s1) (lo + 16 - 4) = hdw 4096 True False" unfolding e1 by (rule i(10))
  have g2: "GET (mem s1) (lo + 16 + 4092) = hdw 0 False True" unfolding e1 by (rule i(12))
  have g3: "16 \<le> lo + 16" by simp
  from free_only_block[OF hl1 g1 g2 g3] obtain s2 where s2: "free (lo + 16) s1 = Some s2" "heap_listp s2 = heap_listp s1"
    "mem_brk s2 = mem_brk s1" "heads s2 = (heads s1)(13 := lo + 16)"
    "\<forall>w. w + 4 \<le> lo + 16 - 4 \<longrightarrow> GET (mem s2) w = GET (mem s1) w" by blast
  have "GET (mem s2) (lo + 4) = GET (mem s1) (lo + 4)" using s2(5) by simp
  then have f2: "free (lo + 16) s = Some s2 \<and> heap_listp s2 = lo + 8 \<and> mem_brk s2 = lo + 4112 \<and>
              GET (mem s2) (lo + 4) = hdw 8 True True \<and> heads s2 = (\<lambda>k. 0)(13 := lo + 16)"
    using s2(1-4) fr'[of "lo + 16"] i by simp
  have pk: "hdw 8 True True = word_of_nat (PACK 8 4 1)"
    "hdw 4096 True False = word_of_nat (PACK 4096 4 0)"
    "hdw 0 False True = word_of_nat (PACK 0 0 1)" by (simp_all only: hdw_PACK)
  show ?thesis
    using i(1-9) i(10-13) bl id lv ml sv fr f2 unfolding pk by blast
qed

text \<open>The empty heap at 65536 with room for 65536 bytes in zeroed memory: a request of
  24 bytes on the uninitialised state is served at 65552, and \<^verbatim>\<open>free\<close> of 65552 leaves
  \<^verbatim>\<open>heap_listp\<close> at 65544.\<close>

theorem entry_points_initialize_first_witness:
  "provider_ok 65536 131072 \<and> 65536 + 4112 \<le> (131072 :: nat) \<and>
   (\<exists>s1. mm_init heap0 = Some (0, s1) \<and> heap_listp s1 = 65544 \<and>
      blocks s1 = [65544, 65552, 69648] \<and> idle s1 = [65552] \<and>
      heads s1 = (\<lambda>k. 0)(13 := 65552) \<and> malloc 24 heap0 = malloc 24 s1 \<and>
      free 65552 heap0 = free 65552 s1) \<and>
   mallocP 24 (Some heap0) = Some 65552 \<and>
   map_option heap_listp (free 65552 heap0) = Some 65544"
proof -
  have p: "provider_ok 65536 131072" by (simp add: provider_ok_def)
  have h: "heap0 = \<lparr>mem = (\<lambda>a. 0), heap_listp = 0, heads = (\<lambda>k. 0),
                     mem_start_brk = 65536, mem_brk = 65536, mem_max_addr = 131072\<rparr>"
    by (simp add: heap0_def fresh_def)
  have m: "mallocP 24 (Some heap0) = Some 65552" by (simp add: eval_defs)
  have f: "map_option heap_listp (free 65552 heap0) = Some 65544" by (simp add: eval_defs)
  from entry_points_initialize_first[OF p _ h, of 24 65552] show ?thesis using p m f by auto
qed

text \<open>
  C9.  The claim: on a well-formed heap \<^verbatim>\<open>mm_checkheap\<close> completes for either value of
  its argument.  The code counts the free blocks of the block walk only under
  \<^verbatim>\<open>if (lineno)\<close>, so with argument 0 the count stays 0 while the lists are counted
  all the same: on the freshly initialised heap, which holds one free block, the call
  with argument 0 exits on the count comparison, and the call with argument 1 completes.
\<close>

theorem checkheap_quiet_aborts:
  "Option.bind heap1 (mm_checkheap 0) = Some (Aborted ''Free Blocks Numbers Match Error!'') \<and>
   Option.bind heap1 (mm_checkheap 1) = Some Completed"
  by (simp add: eval_defs check_defs)

text \<open>
  C8.  The claim: \<^verbatim>\<open>calloc\<close> zero-fills only after a successful allocation.  The code
  calls \<^verbatim>\<open>memset\<close> on whatever \<^verbatim>\<open>malloc\<close> returned: on a heap that cannot grow, a
  request of 5000 bytes fails, \<^verbatim>\<open>calloc\<close> returns \<^verbatim>\<open>NULL\<close>, and the byte at address 0,
  255 before the call, is 0 after it.
\<close>

theorem calloc_failure_zero_fills:
  "peek 0 (Option.bind small_heap (calloc 1 5000)) = Some (0, 0) \<and>
   Option.bind small_heap (\<lambda>s. Some (mem s 0)) = Some 255"
  by (simp add: eval_defs memset_def PUT_outside)

text \<open>
  C1.  The claim: in every state reached from initialisation by calls of \<^verbatim>\<open>malloc\<close>,
  \<^verbatim>\<open>free\<close>, \<^verbatim>\<open>realloc\<close> and \<^verbatim>\<open>extend_heap\<close>, the prev-allocated bit of each block equals
  the allocated bit of the block before it.  \<^verbatim>\<open>malloc\<close> adds
  \<^verbatim>\<open>WSIZE + size + (DSIZE - 1)\<close> on \<^verbatim>\<open>size_t\<close> with no test for overflow: for a request of
  \<open>2 ^ 64 - 1\<close> bytes the sum wraps, the adjusted size is 8, and \<^verbatim>\<open>malloc\<close> returns a
  block of 8 bytes at 65552.  A second request, of 1 byte, is served at 65560.  Releasing
  the first block puts it on list 1; its 8-byte link word covers the header of the second
  block.  After the second block is released too, the block walk finds a block whose
  prev-allocated bit is set behind a free block.
\<close>

theorem wrapped_request_breaks_prev_bits:
  "mallocP 18446744073709551615 heap1 = Some 65552 \<and>
   mallocP 1 (mallocS 18446744073709551615 heap1) = Some 65560 \<and>
   map_option I4 (freeS 65560 (freeS 65552 (mallocS 1 (mallocS 18446744073709551615 heap1))))
     = Some False"
  by (simp add: eval_defs I4_def blocks_def heap_blocks.simps)

text \<open>
  C2.  The claim: after every completed operation from an initialised heap no two
  blocks next to each other are both free.  After a request of \<open>2 ^ 64 - 1\<close> bytes, whose
  adjusted size wraps to 8 and which is served by a block of 8 bytes at 65552, and a
  request of 1 byte, the release of the first block leaves it free in front of a header
  whose allocated bit is 0: the link word of the 8-byte block has overwritten the header
  of the block behind it.
\<close>

theorem wrapped_request_breaks_coalescing:
  "mallocP 18446744073709551615 heap1 = Some 65552 \<and>
   map_option I5 (freeS 65552 (mallocS 1 (mallocS 18446744073709551615 heap1))) = Some False"
  by (simp add: eval_defs I5_def blocks_def heap_blocks.simps)

text \<open>
  C7.  The claim: the adjusted size is 16 for a request of at most 8 bytes and
  \<open>8 * \<lceil>(n + 4) / 8\<rceil>\<close> otherwise, and a block returned has at least that size, hence
  at least \<open>n + 4\<close>.  The sum is computed on \<^verbatim>\<open>size_t\<close> with no test for overflow: for a
  request of \<open>2 ^ 64 - 1\<close> bytes it wraps, the adjusted size is 8 instead of
  \<open>2 ^ 64 + 8\<close>, and \<^verbatim>\<open>malloc\<close> returns the block at 65552 with a stored size of 8.  A
  request of \<open>2 ^ 64 - 12\<close> bytes, the largest whose sum does not wrap, returns
  \<^verbatim>\<open>NULL\<close> on the same heap.
\<close>

theorem wrapped_request_undersized:
  "adjust 18446744073709551615 = 8 \<and>
   adjust_spec (unat (18446744073709551615 :: 64 word)) = 18446744073709551624 \<and>
   Option.bind heap1 (\<lambda>s. map_option (\<lambda>(p, s'). (p, GET_SIZE (mem s') (HDRP p)))
      (malloc 18446744073709551615 s)) = Some (65552, 8) \<and>
   mallocP 18446744073709551604 heap1 = Some 0"
proof -
  have 1: "adjust 18446744073709551615 = 8" by (simp add: adjust_def)
  have 2: "adjust_spec (unat (18446744073709551615 :: 64 word)) = 18446744073709551624"
    by (simp add: adjust_spec_def)
  have 3: "Option.bind heap1 (\<lambda>s. map_option (\<lambda>(p, s'). (p, GET_SIZE (mem s') (HDRP p)))
      (malloc 18446744073709551615 s)) = Some (65552, 8)"
    by (simp add: eval_defs)
  have 4: "mallocP 18446744073709551604 heap1 = Some 0" by (simp add: eval_defs)
  show ?thesis using 1 2 3 4 by simp
qed

text \<open>
  C5.  On a reachable heap, \<^verbatim>\<open>find_fit\<close> returns the first block, in the order of the
  lists and of their members, whose stored size is at least \<open>asize\<close>, or \<^verbatim>\<open>NULL\<close> when
  there is none, among the lists whose test holds for \<open>asize\<close>.  These are the lists from
  the class of \<open>asize\<close> upward, list 4 only when \<open>asize\<close> is 64 and list 5 only
  when it is 112: a block of list 4 is returned for a request of 64 bytes only, and a
  block of list 5 for one of 112 bytes only.
\<close>

theorem find_fit_first_fit:
  assumes "reach s"
  shows "\<exists>ls. (\<forall>k. free_list s k = Some (ls k)) \<and>
           find_fit asize s =
             Some (first_fit (mem s) asize (concat (map ls (filter (\<lambda>k. guard k asize) classes)))) \<and>
           (\<forall>k \<in> set classes.
              guard k asize \<longleftrightarrow> class_of asize \<le> k \<and> (k = 4 \<longrightarrow> asize = 64) \<and> (k = 5 \<longrightarrow> asize = 112)) \<and>
           (\<forall>r. find_fit asize s = Some r \<and> r \<in> set (ls 4) \<longrightarrow> asize = 64) \<and>
           (\<forall>r. find_fit asize s = Some r \<and> r \<in> set (ls 5) \<longrightarrow> asize = 112)"
proof -
  from reach_valid[OF assms] obtain bs fl where inv: "Inv s bs fl" by (auto simp: valid_def)
  have 1: "\<forall>k. free_list s k = Some (fl k)" using Inv_free_list[OF inv] by blast
  note ff = find_fit_lists[OF inv, of asize]
  have 3: "\<forall>k \<in> set classes.
      guard k asize \<longleftrightarrow> class_of asize \<le> k \<and> (k = 4 \<longrightarrow> asize = 64) \<and> (k = 5 \<longrightarrow> asize = 112)"
    using guard_cases by blast
  have 4: "\<forall>r. find_fit asize s = Some r \<and> r \<in> set (fl 4) \<longrightarrow> asize = 64"
    using ff(2)[of _ 4] by (auto simp: guard_def)
  have 5: "\<forall>r. find_fit asize s = Some r \<and> r \<in> set (fl 5) \<longrightarrow> asize = 112"
    using ff(2)[of _ 5] by (auto simp: guard_def)
  show ?thesis using 1 ff(1) 3 4 5 by blast
qed

text \<open>On the freshly initialised heap, whose only free block, 65552, has 4096 bytes and
  is on list 13, a request of 16 bytes finds that block.\<close>

theorem find_fit_first_fit_witness:
  "reach (the heap1) \<and> find_fit 16 (the heap1) = Some 65552 \<and>
   free_list (the heap1) 13 = Some [65552] \<and>
   (\<exists>ls. (\<forall>k. free_list (the heap1) k = Some (ls k)) \<and>
      find_fit 16 (the heap1) =
        Some (first_fit (mem (the heap1)) 16 (concat (map ls (filter (\<lambda>k. guard k 16) classes)))))"
proof -
  have r: "reach (the heap1)" and h: "heap1 = Some (the heap1)" using heap1_reach by simp_all
  have "Option.bind heap1 (find_fit 16) = Some 65552" by (simp add: eval_defs)
  then have f: "find_fit 16 (the heap1) = Some 65552" by (subst (asm) h) simp
  have "Option.bind heap1 (\<lambda>s. free_list s 13) = Some [65552]"
    by (simp add: eval_defs free_list_def list_of.simps)
  then have l: "free_list (the heap1) 13 = Some [65552]" by (subst (asm) h) simp
  show ?thesis using find_fit_first_fit[OF r, of 16] r f l by blast
qed

text \<open>
  C4.  \<^verbatim>\<open>place\<close> on a free block \<open>x\<close> of a reachable heap, of stored size \<open>csize\<close>, for an
  adjusted request \<open>asize\<close> (a multiple of 8, at least 16 and at most \<open>csize\<close>).  If
  \<open>csize - asize\<close> is at least 16 the block is split.  For \<open>asize < 120\<close> the result is
  \<open>x\<close>, its header holds \<open>asize\<close>, allocated, with the prev-allocated bit it had; the block
  at \<open>x + asize\<close> is free with size \<open>csize - asize\<close>, prev-allocated bit set, footer equal
  to header, and is the head of the list of its size.  Otherwise \<open>x\<close> stays free with size
  \<open>csize - asize\<close>, its prev-allocated bit kept, footer equal to header, and is the head
  of the list of that size; the result is the next block, whose header holds \<open>asize\<close>,
  prev-allocated bit clear, allocated; the block after it has its prev-allocated bit
  set.  If \<open>csize - asize\<close> is less than 16 the result is \<open>x\<close> with size \<open>csize\<close>,
  allocated, and the block after it has its prev-allocated bit set.  In each case the
  result is an allocated block and the blocks of the heap satisfy I3, I4 and I5.  When
  the test of \<^verbatim>\<open>deletex\<close> for the list of \<open>x\<close> holds for \<open>asize\<close>, every list is well
  formed and holds free blocks only, and the list of the residual starts with the
  residual.
\<close>

theorem place_split_or_whole:
  assumes "reach s" "x \<in> set (idle s)" "csize = GET_SIZE (mem s) (HDRP x)"
    and "16 \<le> asize" "8 dvd asize" "asize \<le> csize"
  shows "\<exists>x' s'. place x asize s = Some (x', s') \<and>
     (if 16 \<le> csize - asize then
        (if asize < 120 then
           x' = x \<and> GET_SIZE (mem s') (HDRP x) = asize \<and> GET_ALLOC (mem s') (HDRP x) = 1 \<and>
           PREVX (mem s') (HDRP x) = PREVX (mem s) (HDRP x) \<and>
           GET_SIZE (mem s') (HDRP (x + asize)) = csize - asize \<and>
           GET_ALLOC (mem s') (HDRP (x + asize)) = 0 \<and>
           PREVX (mem s') (HDRP (x + asize)) = 4 \<and>
           GET (mem s') (FTRP (mem s') (x + asize)) = GET (mem s') (HDRP (x + asize)) \<and>
           x + asize \<in> set (idle s') \<and>
           heads s' (class_of (csize - asize)) = x + asize \<and>
           (guard (class_of csize) asize \<longrightarrow>
              (\<exists>xs. free_list s' (class_of (csize - asize)) = Some ((x + asize) # xs)))
         else
           x' = NEXT_BLKP (mem s') x \<and> x' = x + (csize - asize) \<and>
           GET_SIZE (mem s') (HDRP x) = csize - asize \<and> GET_ALLOC (mem s') (HDRP x) = 0 \<and>
           PREVX (mem s') (HDRP x) = PREVX (mem s) (HDRP x) \<and>
           GET (mem s') (FTRP (mem s') x) = GET (mem s') (HDRP x) \<and>
           x \<in> set (idle s') \<and>
           heads s' (class_of (csize - asize)) = x \<and>
           (guard (class_of csize) asize \<longrightarrow>
              (\<exists>xs. free_list s' (class_of (csize - asize)) = Some (x # xs))) \<and>
           GET_SIZE (mem s') (HDRP x') = asize \<and> PREVX (mem s') (HDRP x') = 0 \<and>
           GET_ALLOC (mem s') (HDRP x') = 1 \<and>
           PREVX (mem s') (HDRP (NEXT_BLKP (mem s') x')) = 4)
      else
        x' = x \<and> GET_SIZE (mem s') (HDRP x) = csize \<and> GET_ALLOC (mem s') (HDRP x) = 1 \<and>
        PREVX (mem s') (HDRP (NEXT_BLKP (mem s') x)) = 4) \<and>
     x' \<in> set (live s') \<and> I3 s' \<and> I4 s' \<and> I5 s' \<and>
     (guard (class_of csize) asize \<longrightarrow>
        (\<forall>k. \<exists>xs. free_list s' k = Some xs \<and> set xs \<subseteq> set (idle s')))"
proof -
  let ?p0 = "heap_listp s + 8" and ?r = "csize - asize"
  from reach_valid[OF assms(1)] obtain bs fl where inv: "Inv s bs fl" by (auto simp: valid_def)
  have xin: "(x, csize) \<in> set (frees ?p0 bs)" using Inv_idle_free[OF inv assms(2)] assms(3) by simp
  from place_heap_cases[OF inv xin assms(6,4,5)] obtain pre post s' where
    bs: "bs = pre @ (csize, False) # post" and x: "x = ?p0 + total pre"
    and hl: "heap_listp s' = heap_listp s"
    and pl: "place x asize s = Some (if 16 \<le> ?r \<and> \<not> asize < 120 then x + ?r else x, s')"
    and hd: "16 \<le> ?r \<longrightarrow> heads s' (class_of ?r) = (if asize < 120 then x + asize else x)"
    and h': "heap_ok s'
             (if 16 \<le> ?r
              then (if asize < 120 then pre @ (asize, True) # (?r, False) # post
                    else pre @ (?r, False) # (asize, True) # post)
              else pre @ (csize, True) # post)"
    and n': "naf True
             (if 16 \<le> ?r
              then (if asize < 120 then pre @ (asize, True) # (?r, False) # post
                    else pre @ (?r, False) # (asize, True) # post)
              else pre @ (csize, True) # post)"
    by blast
  have fl: "\<exists>xs. free_list s' (class_of ?r) = Some ((if asize < 120 then x + asize else x) # xs)"
    if g: "guard (class_of csize) asize" and big: "16 \<le> ?r"
  proof -
    from place_cases[OF inv xin assms(6,4,5) g] obtain pre2 post2 s2 fl1 where
      p2: "place x asize s = Some (if 16 \<le> ?r \<and> \<not> asize < 120 then x + ?r else x, s2)"
      and i2: "Inv s2
             (if 16 \<le> ?r
              then (if asize < 120 then pre2 @ (asize, True) # (?r, False) # post2
                    else pre2 @ (?r, False) # (asize, True) # post2)
              else pre2 @ (csize, True) # post2)
             (if 16 \<le> ?r
              then fl1(class_of ?r := (if asize < 120 then x + asize else x) # fl1 (class_of ?r))
              else fl1)"
      by blast
    have "s2 = s'" using p2 pl by simp
    then show ?thesis using Inv_free_list[OF i2, of "class_of ?r"] big by simp
  qed
  have li: "\<forall>k. \<exists>xs. free_list s' k = Some xs \<and> set xs \<subseteq> set (idle s')"
    if g: "guard (class_of csize) asize"
  proof -
    from place_cases[OF inv xin assms(6,4,5) g] obtain s2 bs2 fl2 where
      p2: "place x asize s = Some (if 16 \<le> ?r \<and> \<not> asize < 120 then x + ?r else x, s2)"
      and i2: "Inv s2 bs2 fl2"
      by blast
    have "s2 = s'" using p2 pl by simp
    then show ?thesis using Inv_lists_idle[OF i2] by blast
  qed
  have x': "x = heap_listp s' + 8 + total pre" using x hl by simp
  have h0: "heap_ok s (pre @ (csize, False) # post)" using inv bs by (simp add: Inv_def)
  have ob: "outb True pre" using inv bs by (auto simp: Inv_def naf_append)
  note b0 = heap_block_hdr[OF h0 x]
  have inv3: "I3 s' \<and> I4 s' \<and> I5 s' \<and>
      (guard (class_of csize) asize \<longrightarrow>
        (\<forall>k. \<exists>xs. free_list s' k = Some xs \<and> set xs \<subseteq> set (idle s')))"
    using heap_ok_I3[OF h'] heap_ok_I4[OF h'] heap_ok_I5[OF h' n'] li by simp
  consider (C) "\<not> 16 \<le> ?r" | (A) "16 \<le> ?r" "asize < 120" | (B) "16 \<le> ?r" "\<not> asize < 120"
    by blast
  then show ?thesis
  proof cases
    case C
    have i: "heap_ok s' (pre @ (csize, True) # post)" using h' C by simp
    note b = heap_block_hdr[OF i x']
    have "PREVX (mem s') (HDRP (NEXT_BLKP (mem s') x)) = 4" using b(5,6) by simp
    then show ?thesis using pl C b(1,2,7) inv3 by simp
  next
    case A
    have i: "heap_ok s' (pre @ (asize, True) # (?r, False) # post)" using h' A by simp
    have i2: "heap_ok s' ((pre @ [(asize, True)]) @ (?r, False) # post)" using i by simp
    have x2: "x + asize = heap_listp s' + 8 + total (pre @ [(asize, True)])" using x' by simp
    note b = heap_block_hdr[OF i x'] and c = heap_block_hdr[OF i2 x2]
    have pv: "PREVX (mem s') (HDRP (x + asize)) = 4" using c(3) by simp
    show ?thesis using pl A b(1,2,3,7) b0(3) c(1,2,4,8) pv hd fl inv3 by simp
  next
    case B
    have i: "heap_ok s' (pre @ (?r, False) # (asize, True) # post)" using h' B by simp
    have i2: "heap_ok s' ((pre @ [(?r, False)]) @ (asize, True) # post)" using i by simp
    have x2: "x + ?r = heap_listp s' + 8 + total (pre @ [(?r, False)])" using x' by simp
    note b = heap_block_hdr[OF i x'] and c = heap_block_hdr[OF i2 x2]
    have pv: "PREVX (mem s') (HDRP (x + ?r)) = 0" using c(3) by simp
    have nx: "PREVX (mem s') (HDRP (NEXT_BLKP (mem s') (x + ?r))) = 4" using c(5,6) by simp
    show ?thesis using pl B b(1,2,3,4,5,8) b0(3) c(1,2,7) pv nx hd fl inv3 by simp
  qed
qed

text \<open>On the freshly initialised heap the block 65552 is free with 4096 bytes.  A request
  of 128 bytes leaves 3968 bytes at 65552 and is served at 69520.\<close>

theorem place_split_or_whole_witness:
  "reach (the heap1) \<and> 65552 \<in> set (idle (the heap1)) \<and>
   GET_SIZE (mem (the heap1)) (HDRP 65552) = 4096 \<and>
   (\<exists>s'. place 65552 128 (the heap1) = Some (69520, s') \<and>
      GET_SIZE (mem s') (HDRP 65552) = 3968 \<and> GET_ALLOC (mem s') (HDRP 65552) = 0 \<and>
      heads s' 13 = 65552 \<and>
      GET_SIZE (mem s') (HDRP 69520) = 128 \<and> GET_ALLOC (mem s') (HDRP 69520) = 1 \<and>
      PREVX (mem s') (HDRP 69520) = 0 \<and> 69520 \<in> set (live s'))"
proof -
  have r: "reach (the heap1)" and h: "heap1 = Some (the heap1)" using heap1_reach by simp_all
  have "map_option idle heap1 = Some [65552]"
    by (simp add: eval_defs idle_def blocks_def heap_blocks.simps)
  then have i: "65552 \<in> set (idle (the heap1))" by (subst (asm) h) simp
  have "map_option (\<lambda>s. GET_SIZE (mem s) (HDRP 65552)) heap1 = Some 4096"
    by (simp add: eval_defs)
  then have c: "4096 = GET_SIZE (mem (the heap1)) (HDRP 65552)" by (subst (asm) h) simp
  have k: "class_of (4096 - 128) = 13" by (simp add: class_of_def)
  from place_split_or_whole[OF r i c, of 128] show ?thesis using r i c k by auto
qed

text \<open>
  C3.  The claim: \<^verbatim>\<open>place\<close> removes the block from its list with the size under which it
  was inserted, and after \<^verbatim>\<open>place\<close> the block is on no list.  \<^verbatim>\<open>place\<close> calls
  \<^verbatim>\<open>deletex\<close> with the request \<open>asize\<close>, not with the stored size, and when it splits with
  \<open>asize\<close> at least 120 it inserts the residual, which keeps the address of the block.
  What holds on a reachable heap, for a free block \<open>x\<close> of stored size \<open>csize\<close> and an
  adjusted request \<open>asize\<close> (a multiple of 8, at least 16 and at most \<open>csize\<close>) for which
  the test of \<^verbatim>\<open>deletex\<close> for the list of \<open>csize\<close> holds: \<^verbatim>\<open>deletex\<close> called with \<open>asize\<close>
  returns, takes \<open>x\<close> out of the list of \<open>csize\<close>, leaves the other lists and the header
  of every block as they were, and \<open>x\<close> is then on no list; the lists after \<^verbatim>\<open>place\<close> are
  those after \<^verbatim>\<open>deletex\<close>, with the residual of a split put in front of the list of
  \<open>csize - asize\<close>; so \<open>x\<close> is on a list only if \<open>csize - asize\<close> is at least 16 and
  \<open>asize\<close> is at least 120, and then on the list of \<open>csize - asize\<close> and on no other.
\<close>

theorem place_removes_block:
  assumes "reach s" "x \<in> set (idle s)" "csize = GET_SIZE (mem s) (HDRP x)"
    and "16 \<le> asize" "8 dvd asize" "asize \<le> csize" "guard (class_of csize) asize"
  shows "\<exists>s1 xs0 x' s'.
           free_list s (class_of csize) = Some xs0 \<and> x \<in> set xs0 \<and>
           deletex x asize s = Some s1 \<and>
           free_list s1 (class_of csize) = Some (remove1 x xs0) \<and>
           (\<forall>k. k \<noteq> class_of csize \<longrightarrow> free_list s1 k = free_list s k) \<and>
           (\<forall>k. \<exists>xs. free_list s1 k = Some xs \<and> x \<notin> set xs) \<and>
           blocks s1 = blocks s \<and> idle s1 = idle s \<and> live s1 = live s \<and>
           list_all (\<lambda>b. GET (mem s1) (HDRP b) = GET (mem s) (HDRP b)) (blocks s) \<and>
           place x asize s = Some (x', s') \<and>
           (\<forall>k. free_list s' k =
                 (if 16 \<le> csize - asize \<and> k = class_of (csize - asize)
                  then map_option (Cons (if asize < 120 then x + asize else x)) (free_list s1 k)
                  else free_list s1 k)) \<and>
           (\<forall>k. \<exists>xs. free_list s' k = Some xs \<and>
                 (x \<in> set xs \<longleftrightarrow> 16 \<le> csize - asize \<and> 120 \<le> asize \<and> k = class_of (csize - asize)))"
proof -
  let ?p0 = "heap_listp s + 8" and ?r = "csize - asize" and ?c = "class_of csize"
  let ?fl1 = "\<lambda>fl. fl(?c := remove1 x (fl ?c))"
  from reach_valid[OF assms(1)] obtain bs fl where inv: "Inv s bs fl" by (auto simp: valid_def)
  have xin: "(x, csize) \<in> set (frees ?p0 bs)" using Inv_idle_free[OF inv assms(2)] assms(3) by simp
  have h: "heap_ok s bs" and l: "lists_ok (mem s) (heads s) fl (set (frees ?p0 bs))"
    using inv by (auto simp: Inv_def)
  have gF: "Fgood (set (frees ?p0 bs))" by (rule heap_ok_Fgood[OF h subset_refl])
  from frees_split[OF xin] obtain pre0 post0 where bs0: "bs = pre0 @ (csize, False) # post0"
    and x0: "x = ?p0 + total pre0" by blast
  from place_prelude[OF inv bs0 x0 assms(7)] obtain s1 where s1: "deletex x asize s = Some s1"
    and h1: "heap_ok s1 bs"
    and l1: "lists_ok (mem s1) (heads s1) (?fl1 fl)
               (set (frees ?p0 pre0) \<union> set (frees (x + csize) post0))"
    and f1: "heap_listp s1 = heap_listp s" "mem_brk s1 = mem_brk s" by blast
  have b1: "blocks s1 = blocks s" "idle s1 = idle s" "live s1 = live s"
    unfolding heap_ok_blocks[OF h1] heap_ok_blocks[OF h] heap_ok_idle[OF h1] heap_ok_idle[OF h]
      heap_ok_live[OF h1] heap_ok_live[OF h] using f1 by simp_all
  have hx: "list_all (\<lambda>b. GET (mem s1) (HDRP b) = GET (mem s) (HDRP b)) (blocks s)"
    by (rule heap_ok_same_headers[OF h h1 f1])
  have fs: "free_list s k = Some (fl k)" for k by (rule lists_ok_free_list[OF l])
  have fs1: "free_list s1 k = Some (?fl1 fl k)" for k by (rule lists_ok_free_list[OF l1])
  have m0: "x \<in> set (fl ?c)" by (rule lists_ok_member[OF l xin])
  from place_cases[OF inv xin assms(6,4,5,7)] obtain pre post s' fl1 where
    fl1: "fl1 = ?fl1 fl" and nx: "\<forall>k. x \<notin> set (fl1 k)"
    and pl: "place x asize s = Some (if 16 \<le> ?r \<and> \<not> asize < 120 then x + ?r else x, s')"
    and i': "Inv s'
             (if 16 \<le> ?r
              then (if asize < 120 then pre @ (asize, True) # (?r, False) # post
                    else pre @ (?r, False) # (asize, True) # post)
              else pre @ (csize, True) # post)
             (if 16 \<le> ?r
              then fl1(class_of ?r := (if asize < 120 then x + asize else x) # fl1 (class_of ?r))
              else fl1)"
    by blast
  have d: "distinct (fl ?c)" using lists_ok_lseg[OF l] by blast
  have nx1: "x \<notin> set (?fl1 fl k)" for k
  proof (cases "k = ?c")
    case True
    then show ?thesis using d by simp
  next
    case False
    then have "x \<notin> set (fl k)" using lists_ok_class[OF l gF _ xin] by blast
    then show ?thesis using False by simp
  qed
  have after: "\<exists>xs. free_list s' k = Some xs \<and>
                 (x \<in> set xs \<longleftrightarrow> 16 \<le> ?r \<and> 120 \<le> asize \<and> k = class_of ?r)" for k
    using Inv_free_list[OF i', of k] nx assms(4) by (auto split: if_splits)
  have rel: "free_list s' k =
                 (if 16 \<le> ?r \<and> k = class_of ?r
                  then map_option (Cons (if asize < 120 then x + asize else x)) (free_list s1 k)
                  else free_list s1 k)" for k
    unfolding fs1 fl1[symmetric] using Inv_free_list[OF i', of k] by simp
  have 1: "free_list s ?c = Some (fl ?c) \<and> x \<in> set (fl ?c)" using fs m0 by simp
  have 2: "free_list s1 ?c = Some (remove1 x (fl ?c))" using fs1[of ?c] by simp
  have 3: "\<forall>k. k \<noteq> ?c \<longrightarrow> free_list s1 k = free_list s k" using fs fs1 by simp
  have 4: "\<forall>k. \<exists>xs. free_list s1 k = Some xs \<and> x \<notin> set xs" using fs1 nx1 by blast
  show ?thesis using 1 s1 2 3 4 b1 hx pl rel after by blast
qed

text \<open>On the freshly initialised heap, for the block 65552 of 4096 bytes and a request of
  16 bytes: \<^verbatim>\<open>deletex\<close> empties list 13, and after \<^verbatim>\<open>place\<close> the block 65552 is allocated
  and on no list.\<close>

theorem place_removes_block_witness:
  "reach (the heap1) \<and> 65552 \<in> set (idle (the heap1)) \<and>
   GET_SIZE (mem (the heap1)) (HDRP 65552) = 4096 \<and> guard (class_of 4096) 16 \<and>
   (\<exists>s1 s'. deletex 65552 16 (the heap1) = Some s1 \<and> free_list s1 13 = Some [] \<and>
      place 65552 16 (the heap1) = Some (65552, s') \<and>
      (\<forall>k. \<exists>xs. free_list s' k = Some xs \<and> 65552 \<notin> set xs))"
proof -
  have r: "reach (the heap1)" and h: "heap1 = Some (the heap1)" using heap1_reach by simp_all
  have "map_option idle heap1 = Some [65552]"
    by (simp add: eval_defs idle_def blocks_def heap_blocks.simps)
  then have i: "65552 \<in> set (idle (the heap1))" by (subst (asm) h) simp
  have "map_option (\<lambda>s. GET_SIZE (mem s) (HDRP 65552)) heap1 = Some 4096"
    by (simp add: eval_defs)
  then have c: "4096 = GET_SIZE (mem (the heap1)) (HDRP 65552)" by (subst (asm) h) simp
  have g: "guard (class_of 4096) 16" by (simp add: guard_def class_of_def)
  have k: "class_of 4096 = 13" by (simp add: class_of_def)
  have "Option.bind heap1 (\<lambda>s. free_list s 13) = Some [65552]"
    by (simp add: eval_defs free_list_def list_of.simps)
  then have l: "free_list (the heap1) 13 = Some [65552]" by (subst (asm) h) simp
  have "map_option fst (Option.bind heap1 (place 65552 16)) = Some 65552" by (simp add: eval_defs)
  then have p: "map_option fst (place 65552 16 (the heap1)) = Some 65552" by (subst (asm) h) simp
  from place_removes_block[OF r i c _ _ _ g] obtain s1 xs0 x' s' where w:
    "free_list (the heap1) (class_of 4096) = Some xs0"
    "deletex 65552 16 (the heap1) = Some s1"
    "free_list s1 (class_of 4096) = Some (remove1 65552 xs0)"
    "place 65552 16 (the heap1) = Some (x', s')"
    "\<forall>k. \<exists>xs. free_list s' k = Some xs \<and>
         (65552 \<in> set xs \<longleftrightarrow> 16 \<le> (4096::nat) - 16 \<and> (120::nat) \<le> 16 \<and> k = class_of (4096 - 16))"
    by auto
  have "xs0 = [65552]" using w(1) l k by simp
  then have 1: "free_list s1 13 = Some []" using w(3) k by simp
  have 2: "x' = 65552" using p w(4) by simp
  have 3: "\<forall>k. \<exists>xs. free_list s' k = Some xs \<and> 65552 \<notin> set xs" using w(5) by simp
  show ?thesis using r i c g w(2) 1 w(4) 2 3 by auto
qed

text \<open>
  The claim fails in two ways.  On the freshly initialised heap a request of 124 bytes
  has the adjusted size 128; \<^verbatim>\<open>find_fit\<close> returns the block 65552 of 4096 bytes, and
  \<^verbatim>\<open>place\<close> returns 69520 and leaves 65552, the residual, on list 13.  And a block of 64
  bytes on list 4, free again after it was allocated, is not removed by \<^verbatim>\<open>place\<close> for a
  request of 16 bytes, the test of list 4 being \<open>asize = 64\<close>: after \<^verbatim>\<open>place\<close> the block is
  allocated and still on list 4.  (\<^verbatim>\<open>malloc\<close> passes to \<^verbatim>\<open>place\<close> a block that \<^verbatim>\<open>find_fit\<close>
  returned for the same size, or a block of at least 4096 bytes from \<^verbatim>\<open>extend_heap\<close>; for
  these the test holds, by \<open>find_fit_ok\<close> and \<open>guard_large\<close>.)
\<close>

theorem place_keeps_block_listed:
  "adjust 124 = 128 \<and> Option.bind heap1 (find_fit 128) = Some 65552 \<and>
   Option.bind heap1 (\<lambda>s. map_option (\<lambda>(p, s'). (p, free_list s' 13)) (place 65552 128 s))
     = Some (69520, Some [65552]) \<and>
   mallocP 60 heap1 = Some 65552 \<and>
   Option.bind (freeS 65552 (mallocS 1 (mallocS 60 heap1))) (\<lambda>s. free_list s 4) = Some [65552] \<and>
   Option.bind (freeS 65552 (mallocS 1 (mallocS 60 heap1)))
     (\<lambda>s. map_option (\<lambda>(p, s'). (p, GET_ALLOC (mem s') (HDRP p), free_list s' 4)) (place 65552 16 s))
     = Some (65552, 1, Some [65552])"
proof -
  have 1: "adjust 124 = 128" by (simp add: adjust_def)
  have 2: "Option.bind heap1 (find_fit 128) = Some 65552" by (simp add: eval_defs)
  have 3: "Option.bind heap1 (\<lambda>s. map_option (\<lambda>(p, s'). (p, free_list s' 13)) (place 65552 128 s))
     = Some (69520, Some [65552])"
    by (simp add: eval_defs free_list_def list_of.simps)
  have 4: "mallocP 60 heap1 = Some 65552" by (simp add: eval_defs)
  have 5: "Option.bind (freeS 65552 (mallocS 1 (mallocS 60 heap1))) (\<lambda>s. free_list s 4) = Some [65552]"
    by (simp add: eval_defs free_list_def list_of.simps)
  have 6: "Option.bind (freeS 65552 (mallocS 1 (mallocS 60 heap1)))
     (\<lambda>s. map_option (\<lambda>(p, s'). (p, GET_ALLOC (mem s') (HDRP p), free_list s' 4)) (place 65552 16 s))
     = Some (65552, 1, Some [65552])"
    by (simp add: eval_defs free_list_def list_of.simps)
  show ?thesis using 1 2 3 4 5 6 by simp
qed

text \<open>
  C6.  The claim: \<^verbatim>\<open>realloc\<close> copies the smaller of the request and the stored size of
  the old block minus the 4 bytes of its header.  The code compares the request with the
  stored size itself.  What holds on a reachable heap, for an allocated block \<open>p\<close> and
  a request \<open>n\<close> from 1 to \<open>max_request\<close>: \<^verbatim>\<open>malloc\<close> returns; if it returns \<^verbatim>\<open>NULL\<close> the
  state is unchanged and \<^verbatim>\<open>realloc\<close> returns \<^verbatim>\<open>NULL\<close> in that state; otherwise the new
  block \<open>q\<close> was not allocated before and is allocated now, it has room for the bytes
  copied, the stored size of \<open>p\<close> is what it was, and \<^verbatim>\<open>realloc\<close> returns \<open>q\<close> in the state
  that \<^verbatim>\<open>free\<close> of \<open>p\<close> leaves after the copy of \<open>min n (stored size of p)\<close> bytes from \<open>p\<close> to
  \<open>q\<close>; the allocated blocks are then those of before, with \<open>q\<close> and without \<open>p\<close>, and the
  state is reachable.
\<close>

theorem realloc_copies_stored_size:
  assumes "reach s" "p \<in> set (live s)" "n \<noteq> 0" "n \<le> max_request"
  shows "\<exists>q s1. malloc n s = Some (q, s1) \<and>
           (q = 0 \<longrightarrow> s1 = s \<and> realloc p n s = Some (0, s)) \<and>
           (q \<noteq> 0 \<longrightarrow>
              q \<notin> set (live s) \<and> set (live s1) = insert q (set (live s)) \<and>
              GET_SIZE (mem s1) (HDRP p) = GET_SIZE (mem s) (HDRP p) \<and>
              min (unat n) (GET_SIZE (mem s) (HDRP p)) + 4 \<le> GET_SIZE (mem s1) (HDRP q) \<and>
              (\<exists>s'. realloc p n s = Some (q, s') \<and>
                 free p (s1\<lparr>mem := memcpy (mem s1) q p
                                      (min (unat n) (GET_SIZE (mem s) (HDRP p)))\<rparr>) = Some s' \<and>
                 set (live s') = insert q (set (live s)) - {p} \<and> reach s'))"
proof -
  from reach_valid[OF assms(1)] obtain bs fl where inv: "Inv s bs fl" by (auto simp: valid_def)
  from Inv_live_alloc[OF inv assms(2)] obtain sz where
    p: "(p, sz) \<in> set (allocs (heap_listp s + 8) bs)" by blast
  have sz: "GET_SIZE (mem s) (HDRP p) = sz" by (rule Inv_alloc_hdr(1)[OF inv p])
  from realloc_steps[OF inv assms(4,3) p] obtain q s1 where w:
    "malloc n s = Some (q, s1)" "q = 0 \<longrightarrow> s1 = s \<and> realloc p n s = Some (0, s)"
    "q \<noteq> 0 \<longrightarrow>
       q \<notin> set (live s) \<and> set (live s1) = insert q (set (live s)) \<and>
       GET_SIZE (mem s1) (HDRP p) = sz \<and>
       min (unat n) sz + 4 \<le> GET_SIZE (mem s1) (HDRP q) \<and>
       (\<exists>s'. realloc p n s = Some (q, s') \<and>
          free p (s1\<lparr>mem := memcpy (mem s1) q p (min (unat n) sz)\<rparr>) = Some s' \<and>
          set (live s') = insert q (set (live s)) - {p})" by blast
  have "reach s'" if "realloc p n s = Some (q, s')" for s'
    by (rule reach_realloc[OF assms(1) _ assms(4) that]) (use assms(2) in simp)
  then show ?thesis using w unfolding sz by blast
qed

text \<open>On the heap after \<^verbatim>\<open>mm_init\<close> and a request of 8 bytes, served at 65552 by a block
  of 16 bytes, \<^verbatim>\<open>realloc\<close> of 65552 to 16 bytes returns 65568.\<close>

theorem realloc_copies_stored_size_witness:
  "reach (the (mallocS 8 heap1)) \<and> 65552 \<in> set (live (the (mallocS 8 heap1))) \<and>
   (16 :: 64 word) \<noteq> 0 \<and> (16 :: 64 word) \<le> max_request \<and>
   (\<exists>s1 s'. malloc 16 (the (mallocS 8 heap1)) = Some (65568, s1) \<and>
      realloc 65552 16 (the (mallocS 8 heap1)) = Some (65568, s') \<and>
      65568 \<in> set (live s') \<and> 65552 \<notin> set (live s'))"
proof -
  have b8: "(8 :: 64 word) \<le> max_request" and b: "(16 :: 64 word) \<le> max_request"
    by (simp_all add: max_request_def)
  from reach_mallocS[OF heap1_reach b8]
  have h: "mallocS 8 heap1 = Some (the (mallocS 8 heap1))" and r: "reach (the (mallocS 8 heap1))"
    by simp_all
  have "map_option live (mallocS 8 heap1) = Some [65552]"
    by (simp add: eval_defs live_def blocks_def heap_blocks.simps)
  then have l: "live (the (mallocS 8 heap1)) = [65552]" by (subst (asm) h) simp
  then have i: "65552 \<in> set (live (the (mallocS 8 heap1)))" by simp
  have "mallocP 16 (mallocS 8 heap1) = Some 65568" by (simp add: eval_defs)
  then have m: "map_option fst (malloc 16 (the (mallocS 8 heap1))) = Some 65568"
    by (subst (asm) h) (simp add: mallocP_def)
  from realloc_copies_stored_size[OF r i _ b] obtain q s1 where w:
    "malloc 16 (the (mallocS 8 heap1)) = Some (q, s1)"
    "q \<noteq> 0 \<longrightarrow> (\<exists>s'. realloc 65552 16 (the (mallocS 8 heap1)) = Some (q, s') \<and>
        set (live s') = insert q (set (live (the (mallocS 8 heap1)))) - {65552})" by auto
  have q: "q = 65568" using w(1) m by simp
  then obtain s' where s': "realloc 65552 16 (the (mallocS 8 heap1)) = Some (65568, s')"
    "set (live s') = insert 65568 (set (live (the (mallocS 8 heap1)))) - {65552}" using w(2) by auto
  have "65568 \<in> set (live s') \<and> 65552 \<notin> set (live s')" unfolding s'(2) l by simp
  then show ?thesis using r i b w(1) q s'(1) by auto
qed

text \<open>
  The claim fails: on that heap the block 65552 has the stored size 16, hence 12 bytes of
  payload, and \<^verbatim>\<open>realloc\<close> to 16 bytes copies 16 bytes, not 12.  The byte at 65580, the
  thirteenth of the new block 65568, is 29 afterwards: the first byte of the header
  \<^verbatim>\<open>PACK(24, 4, 1)\<close> that follows the old block.  With the count of the claim
  (\<open>realloc_spec\<close>) it stays 0.  The bound on the request is needed for the new block to
  have room: for a request of \<open>2 ^ 64 - 1\<close> bytes, whose adjusted size wraps, the block that
  \<^verbatim>\<open>malloc\<close> returns has a stored size of 8.
\<close>

theorem realloc_copies_past_payload:
  "mallocP 8 heap1 = Some 65552 \<and>
   Option.bind (mallocS 8 heap1) (\<lambda>s. Some (GET_SIZE (mem s) (HDRP 65552))) = Some 16 \<and>
   peek 65580 (Option.bind (mallocS 8 heap1) (realloc 65552 16)) = Some (65568, 29) \<and>
   peek 65580 (Option.bind (mallocS 8 heap1) (realloc_spec 65552 16)) = Some (65568, 0) \<and>
   Option.bind (mallocS 8 heap1)
     (\<lambda>s. map_option (\<lambda>(q, s1). (q, GET_SIZE (mem s1) (HDRP q))) (malloc 18446744073709551615 s))
     = Some (65568, 8)"
proof -
  have 1: "mallocP 8 heap1 = Some 65552" by (simp add: eval_defs)
  have 2: "Option.bind (mallocS 8 heap1) (\<lambda>s. Some (GET_SIZE (mem s) (HDRP 65552))) = Some 16"
    by (simp add: eval_defs)
  have 3: "peek 65580 (Option.bind (mallocS 8 heap1) (realloc 65552 16)) = Some (65568, 29)"
    by (simp add: eval_defs GET_memcpy_other memcpy_inside memcpy_outside PUT_outside PUT_byte0)
  have 4: "peek 65580 (Option.bind (mallocS 8 heap1) (realloc_spec 65552 16)) = Some (65568, 0)"
    by (simp add: eval_defs realloc_spec_def GET_memcpy_other memcpy_inside memcpy_outside
          PUT_outside PUT_byte0)
  have 5: "Option.bind (mallocS 8 heap1)
     (\<lambda>s. map_option (\<lambda>(q, s1). (q, GET_SIZE (mem s1) (HDRP q))) (malloc 18446744073709551615 s))
     = Some (65568, 8)"
    by (simp add: eval_defs)
  show ?thesis using 1 2 3 4 5 by simp
qed

end
